(* ===== verification/Prelude.thy ===== *)
theory Prelude
  imports Main "HOL-Library.Finite_Map"
begin

text \<open>
  What the component theories share.

  A Go map is a finite map \<open>('k, 'v) fmap\<close>: \<open>fmlookup m k\<close> is the two-valued read
  \<^verbatim>\<open>v, ok := m[k]\<close>, \<open>fmupd\<close> the assignment, \<open>fmdrop\<close> the builtin \<^verbatim>\<open>delete\<close>, and
  \<open>map_get\<close> below the one-valued read, which yields the element type's zero value on a missing
  key. A Go slice is a list. A method that mutates its receiver takes the receiver's record and
  returns the new one; an error is a value of the component's error type.

  The locale \<open>transition_system\<close> is the interface through which every stateful component
  lifts an invariant from its steps to its reachable states.
\<close>

named_theorems op_defs \<open>unfolding equations of the modelled operations\<close>
named_theorems inv_rules \<open>one rule per operation: it keeps the component's invariant\<close>

section \<open>Go maps\<close>

definition map_get :: "'v \<Rightarrow> ('k, 'v) fmap \<Rightarrow> 'k \<Rightarrow> 'v" where
  "map_get z m k = (case fmlookup m k of None \<Rightarrow> z | Some v \<Rightarrow> v)"

lemma map_get_fmupd [simp]: "map_get z (fmupd k v m) k' = (if k = k' then v else map_get z m k')"
  by (simp add: map_get_def)

lemma map_get_fmdrop [simp]: "map_get z (fmdrop k m) k' = (if k = k' then z else map_get z m k')"
  by (simp add: map_get_def)

lemma map_get_fmempty [simp]: "map_get z fmempty k = z"
  by (simp add: map_get_def)

lemma map_get_Some: "fmlookup m k = Some v \<Longrightarrow> map_get z m k = v"
  by (simp add: map_get_def)

lemma map_get_None: "fmlookup m k = None \<Longrightarrow> map_get z m k = z"
  by (simp add: map_get_def)

text \<open>Writing a slice back, with the key dropped when the slice is empty.\<close>

lemma map_get_write_back [simp]:
  "map_get [] (if xs = [] then fmdrop k m else fmupd k xs m) k' = (if k = k' then xs else map_get [] m k')"
  by simp

text \<open>\<open>len(m) == 0\<close> is \<open>m = fmempty\<close>, which the code generator evaluates.\<close>

lemma fmap_empty_iff: "m = fmempty \<longleftrightarrow> (\<forall>k. fmlookup m k = None)"
  by (auto intro: fmap_ext)

lemma fmap_nonempty_iff: "m \<noteq> fmempty \<longleftrightarrow> (\<exists>k v. fmlookup m k = Some v)"
  by (auto simp: fmap_empty_iff)

lemma fmupd_nonempty [simp]: "fmupd k v m \<noteq> fmempty"
  by (auto simp: fmap_empty_iff)

lemma fmupd_same_lookup: "fmlookup m k = Some v \<Longrightarrow> fmupd k v m = m"
  by (rule fmap_ext) auto

lemma fmdrop_fmupd_id: "fmlookup m k = None \<Longrightarrow> fmdrop k (fmupd k v m) = m"
  by (rule fmap_ext) auto

text \<open>A loop \<^verbatim>\<open>for _, k := range ks { delete(m, k) }\<close>.\<close>

fun delete_keys :: "'k list \<Rightarrow> ('k, 'v) fmap \<Rightarrow> ('k, 'v) fmap" where
  "delete_keys [] m = m"
| "delete_keys (k # ks) m = delete_keys ks (fmdrop k m)"

lemma fmlookup_delete_keys [simp]:
  "fmlookup (delete_keys ks m) k = (if k \<in> set ks then None else fmlookup m k)"
  by (induction ks arbitrary: m) auto

section \<open>Reachable states\<close>

text \<open>
  The contract: every initial state satisfies the invariant and every step keeps it. The client's
  lemma is that it then holds in every state a finite sequence of steps reaches.
\<close>

locale transition_system =
  fixes initial :: "'s \<Rightarrow> bool"
    and step :: "'s \<Rightarrow> 's \<Rightarrow> bool"
    and inv :: "'s \<Rightarrow> bool"
  assumes initial_inv: "initial s \<Longrightarrow> inv s"
    and step_inv: "inv s \<Longrightarrow> step s t \<Longrightarrow> inv t"
begin

lemma steps_inv: "step\<^sup>*\<^sup>* s t \<Longrightarrow> inv s \<Longrightarrow> inv t"
  by (induction rule: rtranclp_induct) (auto intro: step_inv)

lemma reachable_inv: "initial s \<Longrightarrow> step\<^sup>*\<^sup>* s t \<Longrightarrow> inv t"
  by (blast intro: initial_inv steps_inv)

end

end
