(* ===== verification/RestartManager.thy ===== *)
theory RestartManager
  imports Prelude "HOL-Library.Word"
begin

text \<open>
  The restart manager (\<^verbatim>\<open>src/restartmanager/restartmanager.go\<close>), which decides whether a container
  that exited is started again and after what delay, and the accessor of
  \<^verbatim>\<open>src/container/container.go\<close> that creates it. The delay is a \<^verbatim>\<open>time.Duration\<close>, a 64-bit integer
  whose doubling may wrap, and is kept at that width.
\<close>

section \<open>Data and operations\<close>

record RestartPolicy =
  rp_Name :: string
  MaximumRetryCount :: int

definition IsNone :: "RestartPolicy \<Rightarrow> bool" where
  "IsNone rp \<longleftrightarrow> rp_Name rp = ''no'' \<or> rp_Name rp = ''''"

definition IsAlways :: "RestartPolicy \<Rightarrow> bool" where
  "IsAlways rp \<longleftrightarrow> rp_Name rp = ''always''"

definition IsOnFailure :: "RestartPolicy \<Rightarrow> bool" where
  "IsOnFailure rp \<longleftrightarrow> rp_Name rp = ''on-failure''"

definition IsUnlessStopped :: "RestartPolicy \<Rightarrow> bool" where
  "IsUnlessStopped rp \<longleftrightarrow> rp_Name rp = ''unless-stopped''"

definition backoffMultiplier :: "64 word" where "backoffMultiplier = 2"

definition defaultTimeout :: "64 word" where "defaultTimeout = 100 * 1000000"

datatype restart_error = ErrRestartCanceled | ErrInvalidCall

text \<open>
  \<open>rm_once\<close> is the \<^verbatim>\<open>sync.Once\<close>; \<open>rm_cancel_closed\<close> says whether the \<^verbatim>\<open>cancel\<close> channel was closed.
\<close>

record restartManager =
  rm_policy :: RestartPolicy
  rm_restartCount :: int
  rm_timeout :: "64 word"
  rm_active :: bool
  rm_cancel_closed :: bool
  rm_canceled :: bool
  rm_once :: bool

definition restartmanager_New :: "RestartPolicy \<Rightarrow> int \<Rightarrow> restartManager" where
  "restartmanager_New p n =
     \<lparr>rm_policy = p, rm_restartCount = n, rm_timeout = 0, rm_active = False,
      rm_cancel_closed = False, rm_canceled = False, rm_once = False\<rparr>"

definition SetPolicy :: "RestartPolicy \<Rightarrow> restartManager \<Rightarrow> restartManager" where
  "SetPolicy p rm = rm\<lparr>rm_policy := p\<rparr>"

text \<open>
  \<^verbatim>\<open>executionDuration.Seconds() >= 10\<close>, with the duration in nanoseconds.
\<close>

definition ran_long :: "int \<Rightarrow> bool" where
  "ran_long d \<longleftrightarrow> 10 * 1000000000 \<le> d"

definition next_timeout :: "int \<Rightarrow> 64 word \<Rightarrow> 64 word" where
  "next_timeout d t =
     (let t' = (if ran_long d then 0 else t)
      in if t' = 0 then defaultTimeout else t' * backoffMultiplier)"

definition should_restart_decision :: "RestartPolicy \<Rightarrow> int \<Rightarrow> 32 word \<Rightarrow> bool \<Rightarrow> bool" where
  "should_restart_decision p count code manual =
     (if IsAlways p then True
      else if IsUnlessStopped p \<and> \<not> manual then True
      else if IsOnFailure p then
        (let m = MaximumRetryCount p in if m = 0 \<or> count < m then code \<noteq> 0 else False)
      else False)"

text \<open>
  \<open>Inr True\<close> stands for the result \<^verbatim>\<open>(true, ch, nil)\<close>: a goroutine that waits for the delay or for
  cancellation has been started.
\<close>

definition ShouldRestart :: "32 word \<Rightarrow> bool \<Rightarrow> int \<Rightarrow> restartManager \<Rightarrow> (restart_error + bool) \<times> restartManager" where
  "ShouldRestart code manual dur rm =
     (if IsNone (rm_policy rm) then (Inr False, rm)
      else if rm_canceled rm then (Inl ErrRestartCanceled, rm)
      else if rm_active rm then (Inl ErrInvalidCall, rm)
      else
        (let rm1 = rm\<lparr>rm_timeout := next_timeout dur (rm_timeout rm)\<rparr>
         in if \<not> should_restart_decision (rm_policy rm1) (rm_restartCount rm1) code manual
            then (Inr False, rm1\<lparr>rm_active := False\<rparr>)
            else (Inr True, rm1\<lparr>rm_restartCount := rm_restartCount rm1 + 1, rm_active := True\<rparr>)))"

definition Cancel :: "restartManager \<Rightarrow> restartManager" where
  "Cancel rm =
     (if rm_once rm then rm
      else rm\<lparr>rm_once := True, rm_canceled := True, rm_cancel_closed := True\<rparr>)"

text \<open>The two branches of the goroutine's select: its message to the caller, and the manager after it.\<close>

inductive restart_wait :: "restartManager \<Rightarrow> restart_error option \<Rightarrow> restartManager \<Rightarrow> bool" where
  canceled: "rm_cancel_closed rm \<Longrightarrow> restart_wait rm (Some ErrRestartCanceled) rm"
| elapsed: "restart_wait rm None (rm\<lparr>rm_active := False\<rparr>)"

subsection \<open>The accessor on containers\<close>

record restartable =
  rc_RestartCount :: int
  rc_policy :: RestartPolicy
  rc_manager :: "restartManager option"

definition Container_RestartManager :: "bool \<Rightarrow> restartable \<Rightarrow> restartManager \<times> restartable" where
  "Container_RestartManager reset c =
     (let c1 = (if reset then c\<lparr>rc_RestartCount := 0, rc_manager := None\<rparr> else c)
      in case rc_manager c1 of
           Some rm \<Rightarrow> (rm, c1)
         | None \<Rightarrow> (let rm = restartmanager_New (rc_policy c1) (rc_RestartCount c1)
                   in (rm, c1\<lparr>rc_manager := Some rm\<rparr>)))"

definition UpdateMonitor :: "RestartPolicy \<Rightarrow> restartable \<Rightarrow> restartable" where
  "UpdateMonitor p c =
     (case Container_RestartManager False c of (rm, c1) \<Rightarrow> c1\<lparr>rc_manager := Some (SetPolicy p rm)\<rparr>)"

section \<open>The manager together with its pending goroutines\<close>

record restart_sys =
  rs_manager :: restartManager
  rs_pending :: nat
  rs_restarts :: nat

inductive restart_step :: "restart_sys \<Rightarrow> restart_sys \<Rightarrow> bool" where
  restart: "ShouldRestart code manual dur (rs_manager y) = (Inr True, rm) \<Longrightarrow>
    restart_step y (y\<lparr>rs_manager := rm, rs_pending := Suc (rs_pending y), rs_restarts := Suc (rs_restarts y)\<rparr>)"
| no_restart: "ShouldRestart code manual dur (rs_manager y) = (r, rm) \<Longrightarrow> r \<noteq> Inr True \<Longrightarrow>
    restart_step y (y\<lparr>rs_manager := rm\<rparr>)"
| goroutine: "rs_pending y = Suc n \<Longrightarrow> restart_wait (rs_manager y) msg rm \<Longrightarrow>
    restart_step y (y\<lparr>rs_manager := rm, rs_pending := n\<rparr>)"
| cancel: "restart_step y (y\<lparr>rs_manager := Cancel (rs_manager y)\<rparr>)"

definition init_restart :: "RestartPolicy \<Rightarrow> restart_sys" where
  "init_restart p = \<lparr>rs_manager = restartmanager_New p 0, rs_pending = 0, rs_restarts = 0\<rparr>"

definition restart_inv :: "RestartPolicy \<Rightarrow> restart_sys \<Rightarrow> bool" where
  "restart_inv p y \<longleftrightarrow>
     rm_policy (rs_manager y) = p \<and>
     rs_pending y \<le> 1 \<and> (rs_pending y = 1 \<longrightarrow> rm_active (rs_manager y)) \<and>
     (rm_active (rs_manager y) \<and> \<not> rm_canceled (rs_manager y) \<longrightarrow> rs_pending y = 1) \<and>
     rm_once (rs_manager y) = rm_canceled (rs_manager y) \<and>
     rm_cancel_closed (rs_manager y) = rm_canceled (rs_manager y) \<and>
     rm_restartCount (rs_manager y) = int (rs_restarts y) \<and>
     (IsOnFailure p \<and> 0 < MaximumRetryCount p \<longrightarrow> int (rs_restarts y) \<le> MaximumRetryCount p)"

lemma policy_exclusive:
  "IsAlways p \<Longrightarrow> \<not> IsOnFailure p" "IsUnlessStopped p \<Longrightarrow> \<not> IsOnFailure p" "IsNone p \<Longrightarrow> \<not> IsOnFailure p"
  by (auto simp: IsAlways_def IsOnFailure_def IsUnlessStopped_def IsNone_def)

lemma ShouldRestart_True:
  "ShouldRestart code manual dur rm = (Inr True, rm') \<longleftrightarrow>
     \<not> IsNone (rm_policy rm) \<and> \<not> rm_canceled rm \<and> \<not> rm_active rm \<and>
     should_restart_decision (rm_policy rm) (rm_restartCount rm) code manual \<and>
     rm' = rm\<lparr>rm_timeout := next_timeout dur (rm_timeout rm),
              rm_restartCount := rm_restartCount rm + 1, rm_active := True\<rparr>"
  by (auto simp: ShouldRestart_def Let_def)

lemma ShouldRestart_other:
  assumes "ShouldRestart code manual dur rm = (r, rm')" and "r \<noteq> Inr True"
  shows "rm' = rm \<or> (\<not> rm_active rm \<and> rm' = rm\<lparr>rm_timeout := next_timeout dur (rm_timeout rm), rm_active := False\<rparr>)"
  using assms by (auto simp: ShouldRestart_def Let_def split: if_splits)

lemma decision_bounded:
  "should_restart_decision p n code manual \<Longrightarrow> IsOnFailure p \<Longrightarrow> 0 < MaximumRetryCount p \<Longrightarrow> n < MaximumRetryCount p"
  by (auto simp: should_restart_decision_def Let_def policy_exclusive split: if_splits)

lemma restart_inv_init: "restart_inv p (init_restart p)"
  by (simp add: restart_inv_def init_restart_def restartmanager_New_def)

lemma restart_step_inv: "restart_step y z \<Longrightarrow> restart_inv p y \<Longrightarrow> restart_inv p z"
proof (induction rule: restart_step.induct)
  case (restart code manual dur y rm)
  have "IsOnFailure p \<Longrightarrow> 0 < MaximumRetryCount p \<Longrightarrow> int (rs_restarts y) < MaximumRetryCount p"
    using restart decision_bounded [of p "rm_restartCount (rs_manager y)" code manual]
    by (simp add: ShouldRestart_True restart_inv_def)
  with restart show ?case
    by (auto simp: ShouldRestart_True restart_inv_def)
next
  case (no_restart code manual dur y r rm)
  then show ?case
    using ShouldRestart_other [OF no_restart(1,2)] by (auto simp: restart_inv_def)
next
  case (goroutine y n msg rm)
  then show ?case by (auto simp: restart_inv_def elim!: restart_wait.cases)
next
  case (cancel y)
  then show ?case by (auto simp: restart_inv_def Cancel_def)
qed

interpretation restart: transition_system "\<lambda>y. y = init_restart p" restart_step "restart_inv p" for p
  by unfold_locales (auto simp: restart_inv_init intro: restart_step_inv)

section \<open>Back-off\<close>

text \<open>The delay after \<open>n\<close> further short runs.\<close>

fun backoff :: "int list \<Rightarrow> 64 word \<Rightarrow> 64 word" where
  "backoff [] t = t"
| "backoff (d # ds) t = backoff ds (next_timeout d t)"

lemma unat_defaultTimeout: "unat defaultTimeout = 100000000"
  by (simp add: defaultTimeout_def)

lemma unat_double:
  assumes "unat t < 2 ^ 63"
  shows "unat (t * backoffMultiplier) = unat t * 2"
  using assms by (simp add: backoffMultiplier_def unat_word_ariths)

lemma backoff_short_runs:
  assumes "list_all (\<lambda>d. \<not> ran_long d) ds" and "0 < unat t" and "unat t * 2 ^ length ds < 2 ^ 64"
  shows "unat (backoff ds t) = unat t * 2 ^ length ds"
  using assms
proof (induction ds arbitrary: t)
  case Nil
  then show ?case by simp
next
  case (Cons d ds)
  from Cons.prems have "unat t * 2 * 2 ^ length ds < 2 ^ 64" by simp
  moreover have "(1::nat) \<le> 2 ^ length ds" by simp
  ultimately have lt: "unat t * 2 < 2 ^ 64"
    by (metis (no_types, lifting) le_less_trans mult.right_neutral mult_le_mono2)
  have step: "next_timeout d t = t * backoffMultiplier"
    using Cons.prems by (auto simp: next_timeout_def Let_def)
  have dbl: "unat (t * backoffMultiplier) = unat t * 2"
    using lt by (intro unat_double) simp
  have "unat (backoff ds (t * backoffMultiplier)) = unat (t * backoffMultiplier) * 2 ^ length ds"
    using Cons.prems dbl by (intro Cons.IH) simp_all
  with step dbl show ?case by simp
qed

section \<open>Properties\<close>

text \<open>
  C13. Under the policy \<^verbatim>\<open>on-failure\<close> with a positive maximum, a manager that starts counting at zero
  grants at most that many restarts, over every interleaving of calls, elapsing delays and
  cancellations; and at no time are two delay goroutines pending.
\<close>

theorem on_failure_restarts_bounded:
  assumes "restart_step\<^sup>*\<^sup>* (init_restart p) y" and "IsOnFailure p" and "0 < MaximumRetryCount p"
  shows "int (rs_restarts y) \<le> MaximumRetryCount p \<and> rs_pending y \<le> 1"
  using restart.reachable_inv [OF refl assms(1)] assms(2,3) by (simp add: restart_inv_def)

definition on_failure_2 :: RestartPolicy where
  "on_failure_2 = \<lparr>rp_Name = ''on-failure'', MaximumRetryCount = 2\<rparr>"

definition one_restart :: restart_sys where
  "one_restart = (init_restart on_failure_2)\<lparr>
     rs_manager := snd (ShouldRestart 1 False 0 (rs_manager (init_restart on_failure_2))),
     rs_pending := 1, rs_restarts := 1\<rparr>"

lemma one_restart_reachable: "restart_step\<^sup>*\<^sup>* (init_restart on_failure_2) one_restart"
proof (rule r_into_rtranclp)
  have "ShouldRestart 1 False 0 (rs_manager (init_restart on_failure_2)) = (Inr True,
      snd (ShouldRestart 1 False 0 (rs_manager (init_restart on_failure_2))))"
    by (simp add: ShouldRestart_def init_restart_def restartmanager_New_def on_failure_2_def IsNone_def
        should_restart_decision_def IsAlways_def IsUnlessStopped_def IsOnFailure_def Let_def)
  from restart_step.restart [OF this] show "restart_step (init_restart on_failure_2) one_restart"
    by (simp add: one_restart_def init_restart_def)
qed

theorem on_failure_restarts_bounded_witness:
  "rs_restarts one_restart = 1 \<and> int (rs_restarts one_restart) \<le> 2 \<and> rs_pending one_restart \<le> 1"
  using on_failure_restarts_bounded [OF one_restart_reachable]
  by (simp add: on_failure_2_def IsOnFailure_def one_restart_def)

text \<open>
  C31. Back-off: after \<open>n + 1\<close> consecutive runs shorter than ten seconds from a fresh manager, for any
  \<open>n\<close> up to 36, the delay is exactly 100 ms times \<open>2\<^sup>n\<close> and is still a positive duration (the 64-bit
  doubling has not wrapped); and a run of ten seconds or more puts it back to 100 ms.
\<close>

theorem backoff_doubles_without_wrapping:
  assumes "list_all (\<lambda>d. \<not> ran_long d) ds" and "length ds = Suc n" and "n \<le> 36"
  shows "uint (backoff ds (rm_timeout (restartmanager_New p c))) = 100000000 * 2 ^ n \<and>
         0 <s backoff ds (rm_timeout (restartmanager_New p c)) \<and>
         (ran_long d \<longrightarrow> next_timeout d (backoff ds 0) = defaultTimeout)"
proof -
  obtain d0 ds' where ds: "ds = d0 # ds'" "length ds' = n" "list_all (\<lambda>d. \<not> ran_long d) ds'"
    using assms(1,2) by (cases ds) auto
  have "(2::nat) ^ n \<le> 2 ^ 36" using assms(3) by (rule power_increasing) simp
  then have small: "100000000 * 2 ^ n < (2::nat) ^ 63" by simp
  have eq: "unat (backoff ds 0) = 100000000 * 2 ^ n"
    using backoff_short_runs [OF ds(3), of defaultTimeout] small ds
    by (simp add: unat_defaultTimeout next_timeout_def Let_def)
  then have "int (unat (backoff ds 0)) = int (100000000 * 2 ^ n)" by (simp only:)
  then have u: "uint (backoff ds 0) = 100000000 * 2 ^ n" by simp
  have "(2::int) ^ n \<le> 2 ^ 36" using assms(3) by (rule power_increasing) simp
  then have "uint (backoff ds 0) < 2 ^ 63" unfolding u by simp
  moreover have "- (2 ^ 63) \<le> uint (backoff ds 0)"
    unfolding u by (rule order_trans [of _ 0]) simp_all
  ultimately have "sint (backoff ds 0) = uint (backoff ds 0)"
    by (simp add: sint_uint signed_take_bit_int_eq_self)
  then have "0 <s backoff ds 0" by (simp add: word_sless_alt u)
  with u show ?thesis by (simp add: restartmanager_New_def next_timeout_def Let_def)
qed

theorem backoff_doubles_without_wrapping_witness:
  "uint (backoff [0, 5, 7] (rm_timeout (restartmanager_New on_failure_2 0))) = 400000000"
  using backoff_doubles_without_wrapping [of "[0, 5, 7]" 2 on_failure_2 0 0] by (simp add: ran_long_def)

text \<open>
  C22. Cancelling is final: whatever the manager's state, after \<open>Cancel\<close> (called once or again) no
  call of \<open>ShouldRestart\<close> grants a restart, and it reports the cancellation unless the policy asks
  for no restarts at all.
\<close>

theorem no_restart_after_Cancel:
  assumes "restart_step\<^sup>*\<^sup>* (init_restart p) y"
  shows "fst (ShouldRestart code manual dur (Cancel (rs_manager y))) =
         (if IsNone p then Inr False else Inl ErrRestartCanceled) \<and>
         Cancel (Cancel (rs_manager y)) = Cancel (rs_manager y)"
  using restart.reachable_inv [OF refl assms]
  by (auto simp: restart_inv_def ShouldRestart_def Cancel_def)

theorem no_restart_after_Cancel_witness:
  "fst (ShouldRestart 1 False 0 (Cancel (rs_manager one_restart))) = Inl ErrRestartCanceled"
  using no_restart_after_Cancel [OF one_restart_reachable, of 1 False 0]
  by (simp add: on_failure_2_def IsNone_def)

end
