(* ===== verification/Registrar.thy ===== *)
theory Registrar
  imports Prelude
begin

text \<open>
  The name registrar (\<^verbatim>\<open>src/pkg/registrar/registrar.go\<close>): two maps that mirror each other,
  \<open>reg_idx\<close> from a key to the names reserved for it and \<open>reg_names\<close> from a name to its key. Every
  method runs under the registrar's mutex, so each is one atomic step.
\<close>

section \<open>Data and operations\<close>

datatype registrar_error = ErrNameReserved | ErrNameNotReserved | ErrNoSuchKey

record registrar =
  reg_idx :: "(string, string list) fmap"
  reg_names :: "(string, string) fmap"

definition NewRegistrar :: registrar where
  "NewRegistrar = \<lparr>reg_idx = fmempty, reg_names = fmempty\<rparr>"

definition Registrar_Reserve ::
  "string \<Rightarrow> string \<Rightarrow> registrar \<Rightarrow> registrar_error option \<times> registrar" where
  "Registrar_Reserve name key r =
     (case fmlookup (reg_names r) name of
        Some k \<Rightarrow> if k \<noteq> key then (Some ErrNameReserved, r) else (None, r)
      | None \<Rightarrow>
          (None, r\<lparr>reg_idx := fmupd key (map_get [] (reg_idx r) key @ [name]) (reg_idx r),
                   reg_names := fmupd name key (reg_names r)\<rparr>))"

text \<open>
  \<open>release_entry\<close> is the loop of \<open>Release\<close>: it drops the first occurrence of the name from
  the key's slice and writes the slice back only when it found one.
\<close>

definition release_entry :: "string \<Rightarrow> string \<Rightarrow> (string, string list) fmap
    \<Rightarrow> (string, string list) fmap" where
  "release_entry key name m =
     (if name \<in> set (map_get [] m key) then fmupd key (remove1 name (map_get [] m key)) m else m)"

definition Registrar_Release :: "string \<Rightarrow> registrar \<Rightarrow> registrar" where
  "Registrar_Release name r =
     (case fmlookup (reg_names r) name of
        None \<Rightarrow> r
      | Some key \<Rightarrow>
          (let i = release_entry key name (reg_idx r)
           in r\<lparr>reg_idx := (if map_get [] i key = [] then fmdrop key i else i),
                reg_names := fmdrop name (reg_names r)\<rparr>))"

definition Registrar_Delete :: "string \<Rightarrow> registrar \<Rightarrow> registrar" where
  "Registrar_Delete key r =
     r\<lparr>reg_idx := fmdrop key (reg_idx r),
       reg_names := delete_keys (map_get [] (reg_idx r) key) (reg_names r)\<rparr>"

definition Registrar_GetNames :: "string \<Rightarrow> registrar \<Rightarrow> registrar_error + string list" where
  "Registrar_GetNames key r =
     (case fmlookup (reg_idx r) key of None \<Rightarrow> Inl ErrNoSuchKey | Some ns \<Rightarrow> Inr ns)"

definition Registrar_Get :: "string \<Rightarrow> registrar \<Rightarrow> registrar_error + string" where
  "Registrar_Get name r =
     (case fmlookup (reg_names r) name of None \<Rightarrow> Inl ErrNameNotReserved | Some k \<Rightarrow> Inr k)"

definition Registrar_GetAll :: "registrar \<Rightarrow> (string, string list) fmap" where
  "Registrar_GetAll r = reg_idx r"

lemmas registrar_ops [op_defs] =
  Registrar_Reserve_def Registrar_Release_def Registrar_Delete_def release_entry_def

section \<open>The mirror invariant\<close>

definition registrar_inv :: "registrar \<Rightarrow> bool" where
  "registrar_inv r \<longleftrightarrow>
     (\<forall>name key. fmlookup (reg_names r) name = Some key \<longleftrightarrow> name \<in> set (map_get [] (reg_idx r) key)) \<and>
     (\<forall>key ns. fmlookup (reg_idx r) key = Some ns \<longrightarrow> ns \<noteq> [] \<and> distinct ns)"

inductive registrar_step :: "registrar \<Rightarrow> registrar \<Rightarrow> bool" where
  reserve: "registrar_step r (snd (Registrar_Reserve name key r))"
| release: "registrar_step r (Registrar_Release name r)"
| delete: "registrar_step r (Registrar_Delete key r)"

inductive_simps registrar_step_iff: "registrar_step r r'"

lemma registrar_invI:
  assumes "\<And>name key. fmlookup (reg_names r) name = Some key \<longleftrightarrow> name \<in> set (map_get [] (reg_idx r) key)"
    and "\<And>key ns. fmlookup (reg_idx r) key = Some ns \<Longrightarrow> ns \<noteq> [] \<and> distinct ns"
  shows "registrar_inv r"
  unfolding registrar_inv_def using assms by blast

lemma registrar_inv_names:
  "registrar_inv r \<Longrightarrow> fmlookup (reg_names r) name = Some key \<longleftrightarrow> name \<in> set (map_get [] (reg_idx r) key)"
  unfolding registrar_inv_def by blast

lemma registrar_inv_idx_Some:
  "registrar_inv r \<Longrightarrow> fmlookup (reg_idx r) key = Some ns \<Longrightarrow> ns \<noteq> [] \<and> distinct ns"
  unfolding registrar_inv_def by blast

lemma registrar_inv_distinct: "registrar_inv r \<Longrightarrow> distinct (map_get [] (reg_idx r) key)"
  by (cases "fmlookup (reg_idx r) key") (auto simp: map_get_def dest: registrar_inv_idx_Some)

lemma registrar_inv_idx_None:
  "registrar_inv r \<Longrightarrow> fmlookup (reg_idx r) key = None \<longleftrightarrow> map_get [] (reg_idx r) key = []"
  by (cases "fmlookup (reg_idx r) key") (auto simp: map_get_def dest: registrar_inv_idx_Some)

lemma registrar_inv_new: "registrar_inv NewRegistrar"
  by (rule registrar_invI) (simp_all add: NewRegistrar_def)

lemma registrar_inv_Reserve [inv_rules]:
  assumes inv: "registrar_inv r"
  shows "registrar_inv (snd (Registrar_Reserve name key r))"
proof (cases "fmlookup (reg_names r) name")
  case None
  then have new: "name \<notin> set (map_get [] (reg_idx r) k)" for k
    using registrar_inv_names [OF inv, of name k] by simp
  have eq: "snd (Registrar_Reserve name key r) =
      r\<lparr>reg_idx := fmupd key (map_get [] (reg_idx r) key @ [name]) (reg_idx r), reg_names := fmupd name key (reg_names r)\<rparr>"
    using None by (simp add: Registrar_Reserve_def)
  show ?thesis
    unfolding eq
  proof (rule registrar_invI, goal_cases)
    case (1 n k)
    show ?case using registrar_inv_names [OF inv, of n k] new [of k]
      by (cases "n = name"; cases "k = key") simp_all
  next
    case (2 k ns)
    then show ?case
      using registrar_inv_distinct [OF inv, of key] registrar_inv_idx_Some [OF inv, of k ns] new [of key]
      by (auto split: if_splits)
  qed
next
  case (Some k)
  with inv show ?thesis by (simp add: Registrar_Reserve_def)
qed

lemma Registrar_Release_eq:
  assumes inv: "registrar_inv r" and res: "fmlookup (reg_names r) name = Some key"
  defines "ns \<equiv> remove1 name (map_get [] (reg_idx r) key)"
  shows "Registrar_Release name r =
    r\<lparr>reg_idx := (if ns = [] then fmdrop key (reg_idx r) else fmupd key ns (reg_idx r)),
      reg_names := fmdrop name (reg_names r)\<rparr>"
proof -
  have "name \<in> set (map_get [] (reg_idx r) key)"
    using registrar_inv_names [OF inv] res by blast
  then show ?thesis
    using res by (simp add: Registrar_Release_def release_entry_def ns_def Let_def fmdrop_fmupd)
qed

lemma registrar_inv_Release [inv_rules]:
  assumes inv: "registrar_inv r"
  shows "registrar_inv (Registrar_Release name r)"
proof (cases "fmlookup (reg_names r) name")
  case None
  with inv show ?thesis by (simp add: Registrar_Release_def)
next
  case (Some key)
  have only: "name \<in> set (map_get [] (reg_idx r) k) \<longleftrightarrow> k = key" for k
    using Some registrar_inv_names [OF inv, of name k] by auto
  have ns: "set (remove1 name (map_get [] (reg_idx r) key)) = set (map_get [] (reg_idx r) key) - {name}"
      "distinct (remove1 name (map_get [] (reg_idx r) key))"
    using registrar_inv_distinct [OF inv, of key] by simp_all
  show ?thesis
    unfolding Registrar_Release_eq [OF inv Some]
  proof (rule registrar_invI, goal_cases)
    case (1 n k)
    show ?case
      using registrar_inv_names [OF inv, of n k] only [of k] ns(1)
      by (cases "k = key"; cases "n = name") (simp_all del: set_remove1_eq)
  next
    case (2 k l)
    then show ?case
      using ns(2) registrar_inv_idx_Some [OF inv, of k l] by (auto split: if_splits)
  qed
qed

lemma registrar_inv_Delete [inv_rules]:
  assumes inv: "registrar_inv r"
  shows "registrar_inv (Registrar_Delete key r)"
proof (rule registrar_invI, goal_cases)
  case (1 n k)
  show ?case
    using registrar_inv_names [OF inv, of n k] registrar_inv_names [OF inv, of n key]
    by (cases "k = key"; cases "n \<in> set (map_get [] (reg_idx r) key)") (simp_all add: Registrar_Delete_def)
next
  case (2 k l)
  then show ?case
    using registrar_inv_idx_Some [OF inv, of k l] by (simp add: Registrar_Delete_def split: if_splits)
qed

lemma registrar_step_inv: "registrar_inv r \<Longrightarrow> registrar_step r r' \<Longrightarrow> registrar_inv r'"
  by (auto simp: registrar_step_iff intro: inv_rules)

interpretation reg: transition_system "\<lambda>r. r = NewRegistrar" registrar_step registrar_inv
  by unfold_locales (auto simp: registrar_inv_new intro: registrar_step_inv)

section \<open>The interface the daemon relies on\<close>

text \<open>
  What \<^verbatim>\<open>src/daemon/names.go\<close> needs of a name index: \<open>owner\<close> abstracts a state to the map
  from reserved names to their keys, and each operation is described by what it does to that map.
\<close>

locale name_index =
  fixes owner :: "'r \<Rightarrow> string \<Rightarrow> string option"
    and reserve :: "string \<Rightarrow> string \<Rightarrow> 'r \<Rightarrow> 'e option \<times> 'r"
    and release :: "string \<Rightarrow> 'r \<Rightarrow> 'r"
    and purge :: "string \<Rightarrow> 'r \<Rightarrow> 'r"
    and valid :: "'r \<Rightarrow> bool"
    and taken :: 'e
  assumes reserve_free: "owner r n = None \<Longrightarrow>
      fst (reserve n k r) = None \<and> owner (snd (reserve n k r)) = (owner r)(n \<mapsto> k)"
    and reserve_own: "owner r n = Some k \<Longrightarrow> reserve n k r = (None, r)"
    and reserve_taken: "owner r n = Some k' \<Longrightarrow> k' \<noteq> k \<Longrightarrow> reserve n k r = (Some taken, r)"
    and owner_release: "valid r \<Longrightarrow> owner (release n r) = (owner r)(n := None)"
    and owner_purge: "valid r \<Longrightarrow>
      owner (purge k r) = (\<lambda>n. if owner r n = Some k then None else owner r n)"
    and valid_reserve: "valid r \<Longrightarrow> valid (snd (reserve n k r))"
    and valid_release: "valid r \<Longrightarrow> valid (release n r)"
    and valid_purge: "valid r \<Longrightarrow> valid (purge k r)"
begin

lemma reserve_ok_iff:
  "fst (reserve n k r) = None \<longleftrightarrow> owner r n = None \<or> owner r n = Some k"
  using reserve_free [of r n k] reserve_own [of r n k] reserve_taken [of r n _ k]
  by (cases "owner r n"; cases "owner r n = Some k") auto

lemma owner_reserve_ok:
  assumes "fst (reserve n k r) = None"
  shows "owner (snd (reserve n k r)) = (owner r)(n \<mapsto> k)"
  using assms reserve_free [of r n k] reserve_own [of r n k] reserve_taken [of r n _ k]
  by (cases "owner r n"; cases "owner r n = Some k") auto

lemma reserve_fail:
  assumes "fst (reserve n k r) \<noteq> None"
  shows "reserve n k r = (Some taken, r) \<and> (\<exists>k'. owner r n = Some k' \<and> k' \<noteq> k)"
  using assms reserve_free [of r n k] reserve_own [of r n k] reserve_taken [of r n _ k]
  by (cases "owner r n"; cases "owner r n = Some k") auto

text \<open>Undoing a reservation that took a free name restores the map.\<close>

lemma release_reserve:
  assumes "valid r" and "owner r n = None"
  shows "owner (release n (snd (reserve n k r))) = owner r"
proof -
  have "owner (release n (snd (reserve n k r))) = (owner (snd (reserve n k r)))(n := None)"
    by (rule owner_release) (rule valid_reserve [OF assms(1)])
  also have "\<dots> = (owner r)(n := None)"
    using reserve_free [OF assms(2), of k] by simp
  also have "\<dots> = owner r"
    using assms(2) by (simp add: fun_upd_idem)
  finally show ?thesis .
qed

end

definition reg_owner :: "registrar \<Rightarrow> string \<Rightarrow> string option" where
  "reg_owner r = fmlookup (reg_names r)"

lemma reg_owner_Release:
  assumes "registrar_inv r"
  shows "reg_owner (Registrar_Release n r) = (reg_owner r)(n := None)"
  by (cases "fmlookup (reg_names r) n")
    (auto simp: reg_owner_def Registrar_Release_def Let_def fun_eq_iff)

lemma reg_owner_Delete:
  assumes "registrar_inv r"
  shows "reg_owner (Registrar_Delete k r) = (\<lambda>n. if reg_owner r n = Some k then None else reg_owner r n)"
  using registrar_inv_names [OF assms, of _ k]
  by (simp add: reg_owner_def Registrar_Delete_def fun_eq_iff)

interpretation reg_names: name_index reg_owner Registrar_Reserve Registrar_Release Registrar_Delete
  registrar_inv ErrNameReserved
proof unfold_locales
  fix r n k
  assume "reg_owner r n = None"
  then show "fst (Registrar_Reserve n k r) = None \<and>
      reg_owner (snd (Registrar_Reserve n k r)) = (reg_owner r)(n \<mapsto> k)"
    by (auto simp: Registrar_Reserve_def reg_owner_def fun_eq_iff)
next
  fix r n k
  assume "reg_owner r n = Some k"
  then show "Registrar_Reserve n k r = (None, r)"
    by (simp add: Registrar_Reserve_def reg_owner_def)
next
  fix r n k k'
  assume "reg_owner r n = Some k'" "k' \<noteq> k"
  then show "Registrar_Reserve n k r = (Some ErrNameReserved, r)"
    by (simp add: Registrar_Reserve_def reg_owner_def)
qed (simp_all add: reg_owner_Release reg_owner_Delete inv_rules)

section \<open>Properties\<close>

lemma Registrar_Get_owner: "Registrar_Get n r = Inr k \<longleftrightarrow> reg_owner r n = Some k"
  by (simp add: Registrar_Get_def reg_owner_def split: option.splits)

lemma Registrar_GetNames_mem:
  assumes "registrar_inv r"
  shows "(\<exists>ns. Registrar_GetNames k r = Inr ns \<and> n \<in> set ns) \<longleftrightarrow> reg_owner r n = Some k"
  using registrar_inv_names [OF assms, of n k]
  by (simp add: Registrar_GetNames_def reg_owner_def map_get_def split: option.splits)

text \<open>
  C19. In every state the registrar can reach, its two maps mirror each other: a name resolves to a key
  exactly when that key's list of names contains the name, and a listed key has at least one name and
  none twice. So each name has one owner, and \<open>GetNames\<close> never returns an empty list.
\<close>
theorem registrar_maps_mirror:
  assumes "registrar_step\<^sup>*\<^sup>* NewRegistrar r"
  shows "(Registrar_Get n r = Inr k \<longleftrightarrow> (\<exists>ns. Registrar_GetNames k r = Inr ns \<and> n \<in> set ns)) \<and>
    (\<forall>ns. Registrar_GetNames k r = Inr ns \<longrightarrow> ns \<noteq> [] \<and> distinct ns)"
proof -
  have inv: "registrar_inv r"
    using reg.reachable_inv [OF refl assms] .
  show ?thesis
    using Registrar_GetNames_mem [OF inv, of k n] registrar_inv_idx_Some [OF inv, of k]
    by (simp add: Registrar_Get_owner) (simp add: Registrar_GetNames_def split: option.splits)
qed

theorem registrar_maps_mirror_witness:
  "registrar_step\<^sup>*\<^sup>* NewRegistrar (snd (Registrar_Reserve ''/web'' ''c1'' NewRegistrar)) \<and>
   Registrar_Get ''/web'' (snd (Registrar_Reserve ''/web'' ''c1'' NewRegistrar)) = Inr ''c1'' \<and>
   (\<exists>ns. Registrar_GetNames ''c1'' (snd (Registrar_Reserve ''/web'' ''c1'' NewRegistrar)) = Inr ns \<and>
     ''/web'' \<in> set ns)"
proof -
  have r: "registrar_step\<^sup>*\<^sup>* NewRegistrar (snd (Registrar_Reserve ''/web'' ''c1'' NewRegistrar))"
    by (rule r_into_rtranclp) (rule registrar_step.reserve)
  have g: "Registrar_Get ''/web'' (snd (Registrar_Reserve ''/web'' ''c1'' NewRegistrar)) = Inr ''c1''"
    by (simp add: Registrar_Get_def Registrar_Reserve_def NewRegistrar_def)
  show ?thesis
    using r g registrar_maps_mirror [OF r, of "''/web''" "''c1''"] by simp
qed

end
