(* ===== verification/TruncIndex.thy ===== *)
theory TruncIndex
  imports Prelude "HOL-Library.Sublist"
begin

text \<open>
  The index of identifiers by unique prefix (\<^verbatim>\<open>src/pkg/truncindex/truncindex.go\<close>).

  The patricia trie is a third-party package, so it is a parameter: the record \<open>trie_ops\<close>
  holds the operations the source calls, over an arbitrary type of tries. \<open>trie_subtree p t\<close> is
  the sequence of keys that \<^verbatim>\<open>VisitSubtree(p, visitor)\<close> hands to its visitor, and \<open>trie_visit t\<close>
  that of \<^verbatim>\<open>Visit\<close>. What the package documents of them is the predicate \<open>trie_contract\<close>, a
  hypothesis of the theorems.
\<close>

section \<open>Data and operations\<close>

record 't trie_ops =
  trie_new :: 't
  trie_insert :: "string \<Rightarrow> 't \<Rightarrow> bool \<times> 't"
  trie_delete :: "string \<Rightarrow> 't \<Rightarrow> bool \<times> 't"
  trie_subtree :: "string \<Rightarrow> 't \<Rightarrow> string list"
  trie_visit :: "'t \<Rightarrow> string list"

datatype truncindex_error =
    ErrEmptyPrefix
  | ErrIllegalChar
  | ErrNotExist
  | ErrAmbiguousPrefix string
  | ErrIdExists string
  | ErrInsertFailed string
  | ErrNoSuchId string

record 't trunc_index =
  ti_trie :: 't
  ti_ids :: "string fset"

definition addID :: "'t trie_ops \<Rightarrow> string \<Rightarrow> 't trunc_index \<Rightarrow> truncindex_error option \<times> 't trunc_index" where
  "addID ops sid x =
     (if CHR '' '' \<in> set sid then (Some ErrIllegalChar, x)
      else if sid = '''' then (Some ErrEmptyPrefix, x)
      else if sid |\<in>| ti_ids x then (Some (ErrIdExists sid), x)
      else
        (let (inserted, t) = trie_insert ops sid (ti_trie x);
             x' = x\<lparr>ti_ids := finsert sid (ti_ids x), ti_trie := t\<rparr>
         in if \<not> inserted then (Some (ErrInsertFailed sid), x') else (None, x')))"

text \<open>\<open>NewTruncIndex\<close> ignores the error of each insertion.\<close>

fun add_all_ids :: "'t trie_ops \<Rightarrow> string list \<Rightarrow> 't trunc_index \<Rightarrow> 't trunc_index" where
  "add_all_ids ops [] x = x"
| "add_all_ids ops (sid # rest) x = add_all_ids ops rest (snd (addID ops sid x))"

definition NewTruncIndex :: "'t trie_ops \<Rightarrow> string list \<Rightarrow> 't trunc_index" where
  "NewTruncIndex ops idlist = add_all_ids ops idlist \<lparr>ti_trie = trie_new ops, ti_ids = {||}\<rparr>"

definition TruncIndex_Add :: "'t trie_ops \<Rightarrow> string \<Rightarrow> 't trunc_index \<Rightarrow> truncindex_error option \<times> 't trunc_index" where
  "TruncIndex_Add ops sid x =
     (case addID ops sid x of (Some err, x') \<Rightarrow> (Some err, x') | (None, x') \<Rightarrow> (None, x'))"

definition TruncIndex_Delete :: "'t trie_ops \<Rightarrow> string \<Rightarrow> 't trunc_index \<Rightarrow> truncindex_error option \<times> 't trunc_index" where
  "TruncIndex_Delete ops sid x =
     (if sid |\<notin>| ti_ids x \<or> sid = '''' then (Some (ErrNoSuchId sid), x)
      else
        (let (deleted, t) = trie_delete ops sid (ti_trie x);
             x' = x\<lparr>ti_ids := ti_ids x |-| {|sid|}, ti_trie := t\<rparr>
         in if \<not> deleted then (Some (ErrNoSuchId sid), x') else (None, x')))"

text \<open>
  The visitor closure of \<open>Get\<close> over the visited keys: it remembers the first key, and at a
  second one clears it and stops the visit with \<open>ErrAmbiguousPrefix\<close>.
\<close>

fun subTreeVisit :: "string list \<Rightarrow> string \<Rightarrow> truncindex_error option \<times> string" where
  "subTreeVisit [] sid = (None, sid)"
| "subTreeVisit (p # ps) sid =
     (if sid \<noteq> '''' then (Some (ErrAmbiguousPrefix p), '''') else subTreeVisit ps p)"

definition TruncIndex_Get :: "'t trie_ops \<Rightarrow> string \<Rightarrow> 't trunc_index \<Rightarrow> truncindex_error + string" where
  "TruncIndex_Get ops s x =
     (if s = '''' then Inl ErrEmptyPrefix
      else (case subTreeVisit (trie_subtree ops s (ti_trie x)) '''' of
              (Some err, _) \<Rightarrow> Inl err
            | (None, sid) \<Rightarrow> if sid \<noteq> '''' then Inr sid else Inl ErrNotExist))"

text \<open>\<open>Iterate\<close> hands every key to the handler; the model returns the sequence.\<close>

definition TruncIndex_Iterate :: "'t trie_ops \<Rightarrow> 't trunc_index \<Rightarrow> string list" where
  "TruncIndex_Iterate ops x = trie_visit ops (ti_trie x)"

section \<open>What the trie package documents\<close>

definition trie_contract :: "'t trie_ops \<Rightarrow> ('t \<Rightarrow> bool) \<Rightarrow> ('t \<Rightarrow> string fset) \<Rightarrow> bool" where
  "trie_contract ops valid keys \<longleftrightarrow>
     valid (trie_new ops) \<and> keys (trie_new ops) = {||} \<and>
     (\<forall>t k. valid t \<and> k \<noteq> '''' \<longrightarrow>
        (case trie_insert ops k t of (inserted, t') \<Rightarrow>
           inserted = (k |\<notin>| keys t) \<and> valid t' \<and> keys t' = finsert k (keys t))) \<and>
     (\<forall>t k. valid t \<and> k \<noteq> '''' \<longrightarrow>
        (case trie_delete ops k t of (deleted, t') \<Rightarrow>
           deleted = (k |\<in>| keys t) \<and> valid t' \<and> keys t' = keys t |-| {|k|})) \<and>
     (\<forall>t p. valid t \<and> p \<noteq> '''' \<longrightarrow>
        distinct (trie_subtree ops p t) \<and>
        set (trie_subtree ops p t) = {k. k |\<in>| keys t \<and> prefix p k}) \<and>
     (\<forall>t. valid t \<longrightarrow> distinct (trie_visit ops t) \<and> set (trie_visit ops t) = fset (keys t))"

lemma trie_contract_insert:
  assumes "trie_contract ops valid keys" and "valid t" and "k \<noteq> ''''"
  shows "\<exists>t'. trie_insert ops k t = (k |\<notin>| keys t, t') \<and> valid t' \<and> keys t' = finsert k (keys t)"
proof -
  from assms(1) have "\<forall>t k. valid t \<and> k \<noteq> '''' \<longrightarrow> (case trie_insert ops k t of (inserted, t') \<Rightarrow>
      inserted = (k |\<notin>| keys t) \<and> valid t' \<and> keys t' = finsert k (keys t))"
    unfolding trie_contract_def by (elim conjE)
  from this [rule_format, of t k] assms(2,3) show ?thesis by (cases "trie_insert ops k t") simp
qed

lemma trie_contract_delete:
  assumes "trie_contract ops valid keys" and "valid t" and "k \<noteq> ''''"
  shows "\<exists>t'. trie_delete ops k t = (k |\<in>| keys t, t') \<and> valid t' \<and> keys t' = keys t |-| {|k|}"
proof -
  from assms(1) have "\<forall>t k. valid t \<and> k \<noteq> '''' \<longrightarrow> (case trie_delete ops k t of (deleted, t') \<Rightarrow>
      deleted = (k |\<in>| keys t) \<and> valid t' \<and> keys t' = keys t |-| {|k|})"
    unfolding trie_contract_def by (elim conjE)
  from this [rule_format, of t k] assms(2,3) show ?thesis by (cases "trie_delete ops k t") simp
qed

lemma trie_contract_subtree:
  "trie_contract ops valid keys \<Longrightarrow> valid t \<Longrightarrow> p \<noteq> '''' \<Longrightarrow>
   distinct (trie_subtree ops p t) \<and> set (trie_subtree ops p t) = {k. k |\<in>| keys t \<and> prefix p k}"
  unfolding trie_contract_def by (elim conjE) simp

text \<open>The contract holds of tries kept as a list of keys, so it is satisfiable.\<close>

definition list_trie :: "string list trie_ops" where
  "list_trie =
     \<lparr>trie_new = [],
      trie_insert = (\<lambda>k t. if k \<in> set t then (False, t) else (True, k # t)),
      trie_delete = (\<lambda>k t. (k \<in> set t, removeAll k t)),
      trie_subtree = (\<lambda>p t. filter (prefix p) t),
      trie_visit = (\<lambda>t. t)\<rparr>"

lemma list_trie_contract: "trie_contract list_trie distinct fset_of_list"
  by (auto simp: trie_contract_def list_trie_def fset_of_list_elem fset_of_list.rep_eq distinct_removeAll
      intro!: fset_eqI)

section \<open>The index and its trie hold the same identifiers\<close>

definition trunc_inv :: "('t \<Rightarrow> bool) \<Rightarrow> ('t \<Rightarrow> string fset) \<Rightarrow> 't trunc_index \<Rightarrow> bool" where
  "trunc_inv valid keys x \<longleftrightarrow>
     valid (ti_trie x) \<and> ti_ids x = keys (ti_trie x) \<and>
     (\<forall>sid. sid |\<in>| ti_ids x \<longrightarrow> sid \<noteq> '''' \<and> CHR '' '' \<notin> set sid)"

lemma addID_inv [inv_rules]:
  assumes c: "trie_contract ops valid keys" and inv: "trunc_inv valid keys x"
  shows "trunc_inv valid keys (snd (addID ops sid x))"
proof (cases "CHR '' '' \<in> set sid \<or> sid = '''' \<or> sid |\<in>| ti_ids x")
  case True
  with inv show ?thesis by (auto simp: addID_def)
next
  case False
  then obtain t' where "trie_insert ops sid (ti_trie x) = (sid |\<notin>| keys (ti_trie x), t')"
    "valid t'" "keys t' = finsert sid (keys (ti_trie x))"
    using trie_contract_insert [OF c, of "ti_trie x" sid] inv by (auto simp: trunc_inv_def)
  with False inv show ?thesis by (auto simp: addID_def trunc_inv_def)
qed

lemma addID_fresh:
  assumes c: "trie_contract ops valid keys" and inv: "trunc_inv valid keys x"
    and "sid \<noteq> ''''" "CHR '' '' \<notin> set sid" "sid |\<notin>| ti_ids x"
  shows "\<exists>x'. addID ops sid x = (None, x') \<and> ti_ids x' = finsert sid (ti_ids x)"
proof -
  obtain t' where "trie_insert ops sid (ti_trie x) = (sid |\<notin>| keys (ti_trie x), t')"
    using trie_contract_insert [OF c, of "ti_trie x" sid] inv assms(3) by (auto simp: trunc_inv_def)
  with assms inv show ?thesis by (simp add: addID_def trunc_inv_def)
qed

lemma add_all_ids_inv:
  "trie_contract ops valid keys \<Longrightarrow> trunc_inv valid keys x \<Longrightarrow> trunc_inv valid keys (add_all_ids ops l x)"
  by (induction l arbitrary: x) (auto intro: addID_inv)

lemma NewTruncIndex_inv [inv_rules]:
  "trie_contract ops valid keys \<Longrightarrow> trunc_inv valid keys (NewTruncIndex ops l)"
  unfolding NewTruncIndex_def
  by (rule add_all_ids_inv) (auto simp: trunc_inv_def trie_contract_def)

lemma TruncIndex_Add_eq: "TruncIndex_Add ops sid x = addID ops sid x"
  by (simp add: TruncIndex_Add_def split: prod.splits option.splits)

lemma TruncIndex_Delete_inv [inv_rules]:
  assumes c: "trie_contract ops valid keys" and inv: "trunc_inv valid keys x"
  shows "trunc_inv valid keys (snd (TruncIndex_Delete ops sid x))"
proof (cases "sid |\<notin>| ti_ids x \<or> sid = ''''")
  case True
  with inv show ?thesis by (auto simp: TruncIndex_Delete_def)
next
  case False
  then obtain t' where "trie_delete ops sid (ti_trie x) = (sid |\<in>| keys (ti_trie x), t')"
    "valid t'" "keys t' = keys (ti_trie x) |-| {|sid|}"
    using trie_contract_delete [OF c, of "ti_trie x" sid] inv by (auto simp: trunc_inv_def)
  with False inv show ?thesis by (auto simp: TruncIndex_Delete_def trunc_inv_def)
qed

lemma TruncIndex_Delete_known:
  assumes c: "trie_contract ops valid keys" and inv: "trunc_inv valid keys x" and k: "sid |\<in>| ti_ids x"
  shows "\<exists>x'. TruncIndex_Delete ops sid x = (None, x') \<and> ti_ids x' = ti_ids x |-| {|sid|}"
proof -
  from inv k have "sid \<noteq> ''''" by (auto simp: trunc_inv_def)
  moreover from this obtain t' where "trie_delete ops sid (ti_trie x) = (sid |\<in>| keys (ti_trie x), t')"
    using trie_contract_delete [OF c, of "ti_trie x" sid] inv by (auto simp: trunc_inv_def)
  ultimately show ?thesis using k inv by (simp add: TruncIndex_Delete_def trunc_inv_def)
qed

section \<open>Lookup by prefix\<close>

definition matching :: "string \<Rightarrow> 't trunc_index \<Rightarrow> string set" where
  "matching s x = {sid. sid |\<in>| ti_ids x \<and> prefix s sid}"

lemma subTreeVisit_nonempty: "sid \<noteq> '''' \<Longrightarrow> subTreeVisit ps sid =
    (case ps of [] \<Rightarrow> (None, sid) | p # _ \<Rightarrow> (Some (ErrAmbiguousPrefix p), ''''))"
  by (cases ps) auto

lemma subTreeVisit_start:
  "'''' \<notin> set ps \<Longrightarrow> subTreeVisit ps '''' =
     (case ps of [] \<Rightarrow> (None, '''') | [p] \<Rightarrow> (None, p) | _ # q # _ \<Rightarrow> (Some (ErrAmbiguousPrefix q), ''''))"
  by (auto simp: subTreeVisit_nonempty split: list.splits)

text \<open>The three outcomes of a lookup, by the shape of the visited keys.\<close>

lemma TruncIndex_Get_visit:
  assumes c: "trie_contract ops valid keys" and inv: "trunc_inv valid keys x" and s: "s \<noteq> ''''"
  obtains ps where "distinct ps" "set ps = matching s x"
    "TruncIndex_Get ops s x =
       (case ps of [] \<Rightarrow> Inl ErrNotExist | [p] \<Rightarrow> Inr p | _ # q # _ \<Rightarrow> Inl (ErrAmbiguousPrefix q))"
proof -
  let ?ps = "trie_subtree ops s (ti_trie x)"
  have ps: "distinct ?ps" "set ?ps = matching s x"
    using trie_contract_subtree [OF c _ s, of "ti_trie x"] inv
    by (auto simp: trunc_inv_def matching_def)
  have ne: "'''' \<notin> set ?ps"
    using ps(2) inv by (auto simp: matching_def trunc_inv_def)
  have "TruncIndex_Get ops s x =
       (case ?ps of [] \<Rightarrow> Inl ErrNotExist | [p] \<Rightarrow> Inr p | _ # q # _ \<Rightarrow> Inl (ErrAmbiguousPrefix q))"
    using s ne by (auto simp: TruncIndex_Get_def subTreeVisit_start split: list.splits)
  with ps show thesis by (rule that)
qed

lemma TruncIndex_Get_found:
  assumes "trie_contract ops valid keys" and "trunc_inv valid keys x"
  shows "TruncIndex_Get ops s x = Inr sid \<longleftrightarrow> s \<noteq> '''' \<and> matching s x = {sid}"
proof (cases "s = ''''")
  case True
  then show ?thesis by (simp add: TruncIndex_Get_def)
next
  case False
  from TruncIndex_Get_visit [OF assms False] obtain ps where ps: "distinct ps" "set ps = matching s x"
    "TruncIndex_Get ops s x =
       (case ps of [] \<Rightarrow> Inl ErrNotExist | [p] \<Rightarrow> Inr p | _ # q # _ \<Rightarrow> Inl (ErrAmbiguousPrefix q))" .
  show ?thesis
    unfolding ps(3) ps(2) [symmetric] using ps(1) False by (auto split: list.splits)
qed

lemma TruncIndex_Get_missing:
  assumes "trie_contract ops valid keys" and "trunc_inv valid keys x"
  shows "TruncIndex_Get ops s x = Inl ErrNotExist \<longleftrightarrow> s \<noteq> '''' \<and> matching s x = {}"
proof (cases "s = ''''")
  case True
  then show ?thesis by (simp add: TruncIndex_Get_def)
next
  case False
  from TruncIndex_Get_visit [OF assms False] obtain ps where ps: "distinct ps" "set ps = matching s x"
    "TruncIndex_Get ops s x =
       (case ps of [] \<Rightarrow> Inl ErrNotExist | [p] \<Rightarrow> Inr p | _ # q # _ \<Rightarrow> Inl (ErrAmbiguousPrefix q))" .
  show ?thesis
    unfolding ps(3) ps(2) [symmetric] using False by (auto split: list.splits)
qed

section \<open>Properties\<close>

inductive trunc_step :: "'t trie_ops \<Rightarrow> 't trunc_index \<Rightarrow> 't trunc_index \<Rightarrow> bool" for ops where
  add: "trunc_step ops x (snd (TruncIndex_Add ops sid x))"
| delete: "trunc_step ops x (snd (TruncIndex_Delete ops sid x))"

inductive_simps trunc_step_iff: "trunc_step ops x y"

lemma trunc_steps_inv:
  assumes "(trunc_step ops)\<^sup>*\<^sup>* x y" and "trie_contract ops valid keys" and "trunc_inv valid keys x"
  shows "trunc_inv valid keys y"
  using assms
  by (induction rule: rtranclp_induct)
    (auto simp: trunc_step_iff TruncIndex_Add_eq intro: addID_inv TruncIndex_Delete_inv)

lemma TruncIndex_Get_ambiguous:
  assumes "trie_contract ops valid keys" and "trunc_inv valid keys x"
  shows "(\<exists>p. TruncIndex_Get ops s x = Inl (ErrAmbiguousPrefix p)) \<longleftrightarrow>
    s \<noteq> '''' \<and> (\<exists>a b. a \<noteq> b \<and> {a, b} \<subseteq> matching s x)"
proof (cases "s = ''''")
  case True
  then show ?thesis by (simp add: TruncIndex_Get_def)
next
  case False
  from TruncIndex_Get_visit [OF assms False] obtain ps where ps: "distinct ps" "set ps = matching s x"
    "TruncIndex_Get ops s x =
       (case ps of [] \<Rightarrow> Inl ErrNotExist | [p] \<Rightarrow> Inr p | _ # q # _ \<Rightarrow> Inl (ErrAmbiguousPrefix q))" .
  show ?thesis
    unfolding ps(3) ps(2) [symmetric] using ps(1) False by (auto split: list.splits) blast+
qed


definition two_ids :: "string list trunc_index" where
  "two_ids = snd (TruncIndex_Add list_trie ''abd'' (NewTruncIndex list_trie [''abc'']))"


end
