(* ===== verification/Links.thy ===== *)
theory Links
  imports Prelude
begin

text \<open>
  The index of container links (\<^verbatim>\<open>src/daemon/links.go\<close>): \<open>link_idx\<close> maps a parent and an alias to
  the child, \<open>link_childIdx\<close> a child and a parent to the set of aliases. The keys are container
  pointers in the code; any type with equality stands for them. An absent inner map and a \<open>nil\<close> one
  behave alike in Go (reading, ranging and deleting are allowed on both), so a missing key is \<open>fmempty\<close>.
\<close>

section \<open>Data and operations\<close>

record 'c linkIndex =
  link_idx :: "('c, (string, 'c) fmap) fmap"
  link_childIdx :: "('c, ('c, string fset) fmap) fmap"

definition newLinkIndex :: "'c linkIndex" where
  "newLinkIndex = \<lparr>link_idx = fmempty, link_childIdx = fmempty\<rparr>"

definition linkIndex_link :: "'c \<Rightarrow> 'c \<Rightarrow> string \<Rightarrow> 'c linkIndex \<Rightarrow> 'c linkIndex" where
  "linkIndex_link parent child alias l =
     (let aliases = map_get fmempty (link_idx l) parent;
          parents = map_get fmempty (link_childIdx l) child
      in l\<lparr>link_idx := fmupd parent (fmupd alias child aliases) (link_idx l),
           link_childIdx := fmupd child (fmupd parent (finsert alias (map_get {||} parents parent)) parents)
             (link_childIdx l)\<rparr>)"

text \<open>\<^verbatim>\<open>delete(m[a], b)\<close>: the inner map is shared, so the deletion shows in the outer one.\<close>

definition delete_inner :: "'a \<Rightarrow> 'b \<Rightarrow> ('a, ('b, 'v) fmap) fmap \<Rightarrow> ('a, ('b, 'v) fmap) fmap" where
  "delete_inner a b m = (case fmlookup m a of None \<Rightarrow> m | Some i \<Rightarrow> fmupd a (fmdrop b i) m)"

definition linkIndex_unlink :: "string \<Rightarrow> 'c \<Rightarrow> 'c \<Rightarrow> 'c linkIndex \<Rightarrow> 'c linkIndex" where
  "linkIndex_unlink alias child parent l =
     l\<lparr>link_idx := delete_inner parent alias (link_idx l),
       link_childIdx := delete_inner child parent (link_childIdx l)\<rparr>"

definition linkIndex_children :: "'c \<Rightarrow> 'c linkIndex \<Rightarrow> (string, 'c) fmap" where
  "linkIndex_children parent l = map_get fmempty (link_idx l) parent"

text \<open>
  \<open>parents\<close> ranges over two maps and writes a third; when two parents share an alias the last one
  written wins, and Go leaves the order open. \<open>order\<close> is the sequence in which the ranges deliver the
  entries, and \<open>range_order\<close> says that it lists exactly the entries of the map.
\<close>

fun parents_loop :: "('c \<times> string list) list \<Rightarrow> (string, 'c) fmap \<Rightarrow> (string, 'c) fmap" where
  "parents_loop [] res = res"
| "parents_loop ((p, as) # rest) res = parents_loop rest (fold (\<lambda>a. fmupd a p) as res)"

definition range_order :: "('c, string fset) fmap \<Rightarrow> ('c \<times> string list) list \<Rightarrow> bool" where
  "range_order m order \<longleftrightarrow> distinct (map fst order) \<and>
     fmap_of_list (map (\<lambda>(p, as). (p, fset_of_list as)) order) = m"

definition linkIndex_parents :: "('c \<times> string list) list \<Rightarrow> (string, 'c) fmap" where
  "linkIndex_parents order = parents_loop order fmempty"

definition linkIndex_delete :: "'c \<Rightarrow> 'c linkIndex \<Rightarrow> 'c linkIndex" where
  "linkIndex_delete c l =
     (let children = fmran (map_get fmempty (link_idx l) c);
          childIdx = fmmap_keys (\<lambda>child ps. if child |\<in>| children then fmdrop c ps else ps) (link_childIdx l)
      in l\<lparr>link_idx := fmdrop c (link_idx l), link_childIdx := fmdrop c childIdx\<rparr>)"

section \<open>The two relations an index holds\<close>

text \<open>\<open>linked\<close> is what \<open>children\<close> reads, \<open>backlinked\<close> what \<open>parents\<close> reads.\<close>

definition linked :: "'c linkIndex \<Rightarrow> 'c \<Rightarrow> string \<Rightarrow> 'c option" where
  "linked l p a = fmlookup (map_get fmempty (link_idx l) p) a"

definition backlinked :: "'c linkIndex \<Rightarrow> 'c \<Rightarrow> string \<Rightarrow> 'c \<Rightarrow> bool" where
  "backlinked l p a c \<longleftrightarrow> a |\<in>| map_get {||} (map_get fmempty (link_childIdx l) c) p"

lemma map_get_delete_inner:
  "map_get fmempty (delete_inner a b m) a' = (if a' = a then fmdrop b (map_get fmempty m a) else map_get fmempty m a')"
  by (auto simp: delete_inner_def map_get_def split: option.splits)

lemma children_linked: "fmlookup (linkIndex_children p l) a = linked l p a"
  by (simp add: linked_def linkIndex_children_def)

lemma linked_new [simp]: "linked newLinkIndex p a = None"
  by (simp add: linked_def newLinkIndex_def)

lemma backlinked_new [simp]: "\<not> backlinked newLinkIndex p a c"
  by (simp add: backlinked_def newLinkIndex_def)

lemma linked_link [simp]:
  "linked (linkIndex_link p c a l) p' a' = (if p' = p \<and> a' = a then Some c else linked l p' a')"
  by (auto simp: linked_def linkIndex_link_def Let_def)

lemma backlinked_link [simp]:
  "backlinked (linkIndex_link p c a l) p' a' c' \<longleftrightarrow> p' = p \<and> a' = a \<and> c' = c \<or> backlinked l p' a' c'"
  by (auto simp: backlinked_def linkIndex_link_def Let_def)

lemma linked_unlink [simp]:
  "linked (linkIndex_unlink a c p l) p' a' = (if p' = p \<and> a' = a then None else linked l p' a')"
  by (simp add: linked_def linkIndex_unlink_def map_get_delete_inner)

lemma backlinked_unlink [simp]:
  "backlinked (linkIndex_unlink a c p l) p' a' c' \<longleftrightarrow> \<not> (p' = p \<and> c' = c) \<and> backlinked l p' a' c'"
  by (simp add: backlinked_def linkIndex_unlink_def map_get_delete_inner)

lemma linked_delete [simp]: "linked (linkIndex_delete x l) p a = (if p = x then None else linked l p a)"
  by (simp add: linked_def linkIndex_delete_def Let_def)

lemma backlinked_delete [simp]:
  "backlinked (linkIndex_delete x l) p a c \<longleftrightarrow>
     c \<noteq> x \<and> \<not> (p = x \<and> (\<exists>a'. linked l x a' = Some c)) \<and> backlinked l p a c"
  by (cases "fmlookup (link_childIdx l) c")
    (auto simp: backlinked_def linkIndex_delete_def linked_def Let_def map_get_def fmlookup_ran_iff
      split: if_splits)

section \<open>Every back link is a link\<close>

definition link_inv :: "'c linkIndex \<Rightarrow> bool" where
  "link_inv l \<longleftrightarrow> (\<forall>p a c. backlinked l p a c \<longrightarrow> linked l p a = Some c)"

text \<open>
  The steps the daemon takes. \<open>registerLink\<close> links an alias only after reserving its full name for
  the child, so an alias in use is not given to another child; \<open>rmLink\<close> resolves the full name to the
  child before it unlinks it.
\<close>

inductive link_step :: "'c linkIndex \<Rightarrow> 'c linkIndex \<Rightarrow> bool" where
  link: "linked l p a \<in> {None, Some c} \<Longrightarrow> link_step l (linkIndex_link p c a l)"
| unlink: "linked l p a \<in> {None, Some c} \<Longrightarrow> link_step l (linkIndex_unlink a c p l)"
| delete: "link_step l (linkIndex_delete x l)"

inductive_simps link_step_iff: "link_step l l'"

lemma link_step_inv:
  assumes "link_step l l'" and "link_inv l"
  shows "link_inv l'"
  using assms
proof (cases rule: link_step.cases)
  case (link p a c)
  with assms(2) show ?thesis by (auto simp: link_inv_def)
next
  case (unlink p a c)
  with assms(2) show ?thesis by (auto simp: link_inv_def)
next
  case (delete x)
  with assms(2) show ?thesis by (auto simp: link_inv_def)
qed

interpretation links: transition_system "\<lambda>l. l = newLinkIndex" link_step link_inv
  proof unfold_locales
  fix l :: "'a linkIndex"
  assume "l = newLinkIndex"
  then show "link_inv l" by (simp add: link_inv_def)
qed (rule link_step_inv)

lemma fmlookup_fold_fmupd:
  "fmlookup (fold (\<lambda>a. fmupd a p) as res) a = (if a \<in> set as then Some p else fmlookup res a)"
  by (induction as arbitrary: res) auto

lemma parents_loop_Some:
  "fmlookup (parents_loop order res) a = Some p \<Longrightarrow>
     (\<exists>as. (p, as) \<in> set order \<and> a \<in> set as) \<or> fmlookup res a = Some p"
  by (induction order res rule: parents_loop.induct) (auto simp: fmlookup_fold_fmupd split: if_splits)

lemma parents_loop_None:
  "fmlookup (parents_loop order res) a = None \<longleftrightarrow>
     (\<forall>p as. (p, as) \<in> set order \<longrightarrow> a \<notin> set as) \<and> fmlookup res a = None"
  by (induction order res rule: parents_loop.induct) (auto simp: fmlookup_fold_fmupd split: if_splits)

lemma range_order_mem:
  assumes "range_order m order" and "(p, as) \<in> set order"
  shows "map_get {||} m p = fset_of_list as"
proof -
  have m: "m = fmap_of_list (map (\<lambda>(p, as). (p, fset_of_list as)) order)" and d: "distinct (map fst order)"
    using assms(1) by (auto simp: range_order_def)
  have "map fst (map (\<lambda>(p, as). (p, fset_of_list as)) order) = map fst order"
    by (induction order) auto
  then have "map_of (map (\<lambda>(p, as). (p, fset_of_list as)) order) p = Some (fset_of_list as)"
    using d assms(2) by (intro map_of_is_SomeI) (simp only:, force)
  then show ?thesis by (simp add: m map_get_def fmlookup_of_list)
qed

lemma range_order_covers:
  assumes "range_order m order" and "a |\<in>| map_get {||} m p"
  shows "\<exists>as. (p, as) \<in> set order \<and> a \<in> set as"
proof -
  have m: "m = fmap_of_list (map (\<lambda>(p, as). (p, fset_of_list as)) order)"
    using assms(1) by (auto simp: range_order_def)
  obtain s where "map_of (map (\<lambda>(p, as). (p, fset_of_list as)) order) p = Some s" "a |\<in>| s"
    using assms(2) by (auto simp: m map_get_def fmlookup_of_list split: option.splits)
  then show ?thesis using map_of_SomeD [of _ p s] by (force simp: fset_of_list_elem)
qed

section \<open>Properties\<close>



text \<open>
  C36. \<open>delete\<close> does not remove every relationship of the container, although it is documented to: for
  every parent that links to the deleted container, \<open>children\<close> still lists it under the alias.
\<close>
theorem delete_keeps_parents_alias:
  assumes "p \<noteq> x"
  shows "fmlookup (linkIndex_children p (linkIndex_delete x (linkIndex_link p x a l))) a = Some x"
  using assms by (simp add: children_linked)

theorem delete_keeps_parents_alias_witness:
  "fmlookup (linkIndex_children ''web'' (linkIndex_delete ''db'' (linkIndex_link ''web'' ''db'' ''/web/db'' newLinkIndex)))
     ''/web/db'' = Some ''db''"
  by (rule delete_keeps_parents_alias) simp

text \<open>
  \<open>unlink\<close> of one alias forgets every alias of that parent on the child's side: with two aliases of
  the same parent, after unlinking the first the parent still lists the child under the second, while
  the child's \<open>parents\<close> no longer knows about the second.
\<close>
lemma unlink_forgets_other_aliases:
  assumes "a \<noteq> b"
  shows "let l' = linkIndex_unlink a c p (linkIndex_link p c b (linkIndex_link p c a l))
    in fmlookup (linkIndex_children p l') b = Some c \<and> \<not> backlinked l' p b c"
  using assms by (simp add: children_linked)

lemma unlink_forgets_other_aliases_witness:
  "let l' = linkIndex_unlink ''/web/db'' ''c2'' ''c1''
       (linkIndex_link ''c1'' ''c2'' ''/web/sql'' (linkIndex_link ''c1'' ''c2'' ''/web/db'' newLinkIndex))
   in fmlookup (linkIndex_children ''c1'' l') ''/web/sql'' = Some ''c2'' \<and> \<not> backlinked l' ''c1'' ''/web/sql'' ''c2''"
  by (rule unlink_forgets_other_aliases) simp

end
