(* ===== verification/GoStrings.thy ===== *)
theory GoStrings
  imports Prelude "HOL-Library.Sublist"
begin

text \<open>
  The part of Go's \<^verbatim>\<open>strings\<close>, \<^verbatim>\<open>strconv\<close> and \<^verbatim>\<open>fmt\<close> packages that the modelled code calls. A Go
  string is a sequence of bytes: the type \<open>string\<close>, whose characters are the 256 byte values.
\<close>

section \<open>Decimal output (\<open>strconv.Itoa\<close>, \<open>%d\<close>)\<close>

fun digits :: "nat \<Rightarrow> string" where
  "digits n = (if n < 10 then [char_of (48 + n)] else digits (n div 10) @ [char_of (48 + n mod 10)])"

declare digits.simps [simp del]

definition itoa :: "int \<Rightarrow> string" where
  "itoa i = (if i < 0 then ''-'' @ digits (nat (- i)) else digits (nat i))"

section \<open>Searching, splitting, trimming\<close>

text \<open>\<open>strings.IndexRune(s, c)\<close> for an ASCII \<open>c\<close>; \<open>None\<close> is \<open>-1\<close>.\<close>

fun index_char :: "char \<Rightarrow> string \<Rightarrow> nat option" where
  "index_char c [] = None"
| "index_char c (x # xs) = (if x = c then Some 0 else map_option Suc (index_char c xs))"

text \<open>\<open>strings.ContainsAny(s, chars)\<close>.\<close>

definition contains_any :: "string \<Rightarrow> string \<Rightarrow> bool" where
  "contains_any s cs = list_ex (\<lambda>c. c \<in> set cs) s"

text \<open>\<open>strings.TrimPrefix\<close>.\<close>

definition trim_prefix :: "string \<Rightarrow> string \<Rightarrow> string" where
  "trim_prefix p s = (if prefix p s then drop (length p) s else s)"

text \<open>\<open>strings.ToLower\<close> on the ASCII letters.\<close>

definition to_lower_char :: "char \<Rightarrow> char" where
  "to_lower_char c = (let n = of_char c :: nat in if 65 \<le> n \<and> n \<le> 90 then char_of (n + 32) else c)"

definition to_lower :: "string \<Rightarrow> string" where
  "to_lower s = map to_lower_char s"

text \<open>\<open>strings.Join\<close>.\<close>

fun join :: "string list \<Rightarrow> string \<Rightarrow> string" where
  "join [] sep = ''''"
| "join [a] sep = a"
| "join (a # b # rest) sep = a @ sep @ join (b # rest) sep"

lemma index_char_None: "index_char c s = None \<longleftrightarrow> c \<notin> set s"
  by (induction s) auto

lemma index_char_Some:
  "index_char c s = Some i \<longleftrightarrow> i < length s \<and> s ! i = c \<and> c \<notin> set (take i s)"
proof (induction s arbitrary: i)
  case (Cons x xs)
  then show ?case by (cases i) auto
qed simp

lemma index_char_append: "c \<notin> set a \<Longrightarrow> index_char c (a @ c # b) = Some (length a)"
  by (induction a) auto

lemma index_char_append_None: "c \<notin> set a \<Longrightarrow> index_char c (a @ b) = map_option ((+) (length a)) (index_char c b)"
  by (induction a) (cases "index_char c b"; auto)+

lemma index_char_split:
  assumes "index_char c s = Some i"
  shows "s = take i s @ c # drop (Suc i) s" and "c \<notin> set (take i s)"
  using assms id_take_nth_drop [of i s] by (auto simp: index_char_Some)

lemma contains_any_iff: "contains_any s cs \<longleftrightarrow> set s \<inter> set cs \<noteq> {}"
  by (auto simp: contains_any_def list_ex_iff)

lemma trim_prefix_append [simp]: "trim_prefix p (p @ s) = s"
  by (simp add: trim_prefix_def)

lemma to_lower_append [simp]: "to_lower (a @ b) = to_lower a @ to_lower b"
  by (simp add: to_lower_def)

lemma to_lower_append_fix: "to_lower (a @ b) = a @ b \<longleftrightarrow> to_lower a = a \<and> to_lower b = b"
  by (simp add: to_lower_def)

section \<open>Character classes\<close>

definition is_digit :: "char \<Rightarrow> bool" where
  "is_digit c = (let n = of_char c :: nat in 48 \<le> n \<and> n \<le> 57)"

definition is_lower :: "char \<Rightarrow> bool" where
  "is_lower c = (let n = of_char c :: nat in 97 \<le> n \<and> n \<le> 122)"

definition is_upper :: "char \<Rightarrow> bool" where
  "is_upper c = (let n = of_char c :: nat in 65 \<le> n \<and> n \<le> 90)"

definition lower_alnum :: "char \<Rightarrow> bool" where "lower_alnum c \<longleftrightarrow> is_lower c \<or> is_digit c"

definition alnum :: "char \<Rightarrow> bool" where "alnum c \<longleftrightarrow> is_lower c \<or> is_upper c \<or> is_digit c"

definition word_char :: "char \<Rightarrow> bool" where "word_char c \<longleftrightarrow> alnum c \<or> c = CHR ''_''"

definition is_xdigit :: "char \<Rightarrow> bool" where
  "is_xdigit c = (let n = of_char c :: nat in is_digit c \<or> (97 \<le> n \<and> n \<le> 102) \<or> (65 \<le> n \<and> n \<le> 70))"

lemmas char_classes = is_digit_def is_lower_def is_upper_def lower_alnum_def alnum_def word_char_def is_xdigit_def

section \<open>Slash-separated paths (package \<open>path\<close>)\<close>

text \<open>\<open>strings.Split\<close> with a separator of one byte.\<close>

fun split_char :: "char \<Rightarrow> string \<Rightarrow> string list" where
  "split_char sep [] = [[]]"
| "split_char sep (c # cs) =
     (if c = sep then [] # split_char sep cs
      else (case split_char sep cs of w # ws \<Rightarrow> (c # w) # ws | [] \<Rightarrow> [[c]]))"

text \<open>The elements \<open>path.Clean\<close> keeps, last one first.\<close>

fun clean_elems :: "bool \<Rightarrow> string list \<Rightarrow> string list \<Rightarrow> string list" where
  "clean_elems rooted acc [] = acc"
| "clean_elems rooted acc (e # es) =
     (if e = [] \<or> e = ''.'' then clean_elems rooted acc es
      else if e = ''..'' then
        (case acc of
           a # as \<Rightarrow> if a \<noteq> ''..'' then clean_elems rooted as es else clean_elems rooted (e # acc) es
         | [] \<Rightarrow> if rooted then clean_elems rooted [] es else clean_elems rooted [e] es)
      else clean_elems rooted (e # acc) es)"

definition path_clean :: "string \<Rightarrow> string" where
  "path_clean s =
     (let rooted = (case s of c # _ \<Rightarrow> c = CHR ''/'' | [] \<Rightarrow> False);
          body = join (rev (clean_elems rooted [] (split_char CHR ''/'' s))) ''/''
      in if rooted then CHR ''/'' # body else if body = [] then ''.'' else body)"

text \<open>\<open>path.Join\<close> of two elements.\<close>

definition path_join :: "string \<Rightarrow> string \<Rightarrow> string" where
  "path_join a b = (if a = [] \<and> b = [] then [] else if a = [] then path_clean b
     else if b = [] then path_clean a else path_clean (a @ ''/'' @ b))"

text \<open>\<open>path.Split\<close>: up to and including the last slash, and the rest.\<close>

definition path_split :: "string \<Rightarrow> string \<times> string" where
  "path_split s = (let file = takeWhile (\<lambda>c. c \<noteq> CHR ''/'') (rev s)
     in (take (length s - length file) s, rev file))"

lemma split_char_nonempty [simp]: "split_char sep s \<noteq> []"
  by (induction s) (auto split: list.splits)

lemma split_char_plain: "sep \<notin> set s \<Longrightarrow> split_char sep s = [s]"
  by (induction s) auto

lemma split_char_append: "sep \<notin> set a \<Longrightarrow> split_char sep (a @ sep # b) = a # split_char sep b"
  by (induction a) auto

lemma split_char_parts: "e \<in> set (split_char sep s) \<Longrightarrow> sep \<notin> set e \<and> set e \<subseteq> set s"
  by (induction s arbitrary: e) (fastforce split: list.splits if_splits)+

lemma split_char_covers: "x \<in> set s \<Longrightarrow> x \<noteq> sep \<Longrightarrow> \<exists>e\<in>set (split_char sep s). x \<in> set e"
  by (induction s) (fastforce split: list.splits if_splits)+

lemma join_split_char: "join (split_char sep s) [sep] = s"
proof (induction s)
  case (Cons c cs)
  obtain w ws where "split_char sep cs = w # ws" by (cases "split_char sep cs") auto
  with Cons show ?case by (cases ws) auto
qed simp

lemma join_last: "es \<noteq> [] \<Longrightarrow> \<exists>a. join es [sep] = a @ last es \<and> (a = [] \<or> last a = sep)"
proof (induction es "[sep]" rule: join.induct)
  case (3 e f rest)
  then obtain a where "join (f # rest) [sep] = a @ last (f # rest)" "a = [] \<or> last a = sep" by auto
  then show ?case by (intro exI [of _ "e @ sep # a"]) auto
qed auto

lemma split_char_last: "\<exists>a. s = a @ last (split_char sep s) \<and> (a = [] \<or> last a = sep)"
  using join_last [of "split_char sep s" sep] by (simp add: join_split_char)

lemma path_join_plain:
  assumes "CHR ''/'' \<notin> set a" "CHR ''/'' \<notin> set b" "a \<notin> {[], ''.'', ''..''}" "b \<notin> {[], ''.'', ''..''}"
  shows "path_join (CHR ''/'' # a) b = CHR ''/'' # a @ ''/'' @ b"
  using assms by (simp add: path_join_def path_clean_def split_char_append split_char_plain)

lemma path_split_plain:
  assumes "CHR ''/'' \<notin> set b"
  shows "path_split (a @ CHR ''/'' # b) = (a @ ''/'', b)"
proof -
  have "takeWhile (\<lambda>c. c \<noteq> CHR ''/'') (rev b @ CHR ''/'' # rev a) = rev b"
    using assms by (subst takeWhile_append2) auto
  then show ?thesis by (simp add: path_split_def Let_def)
qed

section \<open>Reading numbers and trimming space\<close>

text \<open>\<open>strings.TrimSpace\<close> on ASCII text.\<close>

definition is_space :: "char \<Rightarrow> bool" where
  "is_space c = (let n = of_char c :: nat in (9 \<le> n \<and> n \<le> 13) \<or> n = 32)"

definition trim_space :: "string \<Rightarrow> string" where
  "trim_space s = rev (dropWhile is_space (rev (dropWhile is_space s)))"

fun digits_value :: "nat \<Rightarrow> string \<Rightarrow> nat option" where
  "digits_value acc [] = Some acc"
| "digits_value acc (c # cs) = (if is_digit c then digits_value (10 * acc + (of_char c - 48)) cs else None)"

text \<open>\<open>strconv.ParseInt(s, 10, 64)\<close>: an optional sign, at least one digit, and the range of 64 bits.\<close>

definition parse_int64 :: "string \<Rightarrow> int option" where
  "parse_int64 s =
     (let (neg, ds) = (case s of c # cs \<Rightarrow> if c = CHR ''-'' then (True, cs) else if c = CHR ''+'' then (False, cs) else (False, s)
                       | [] \<Rightarrow> (False, []))
      in if ds = [] then None
         else (case digits_value 0 ds of
                 None \<Rightarrow> None
               | Some n \<Rightarrow> (let i = (if neg then - int n else int n)
                            in if - (2 ^ 63) \<le> i \<and> i < 2 ^ 63 then Some i else None)))"

lemma digits_value_append:
  "digits_value acc (a @ b) = (case digits_value acc a of None \<Rightarrow> None | Some n \<Rightarrow> digits_value n b)"
  by (induction a arbitrary: acc) auto

lemma is_digit_char_of [simp]: "n < 10 \<Longrightarrow> is_digit (char_of (48 + n :: nat))"
  by (simp add: is_digit_def of_char_of)

lemma digits_nonempty [simp]: "digits n \<noteq> []"
  by (subst digits.simps) simp

lemma digits_value_digits: "digits_value 0 (digits n) = Some n"
proof (induction n rule: digits.induct)
  case (1 n)
  show ?case
  proof (cases "n < 10")
    case True
    then show ?thesis by (simp add: digits.simps of_char_of)
  next
    case False
    with 1 show ?thesis by (subst digits.simps) (simp add: digits_value_append of_char_of)
  qed
qed

lemma digits_all_digits: "list_all is_digit (digits n)"
proof (induction n rule: digits.induct)
  case (1 n)
  then show ?case by (subst digits.simps) simp
qed

lemma digits_no_sign: "\<exists>c cs. digits n = c # cs \<and> c \<noteq> CHR ''-'' \<and> c \<noteq> CHR ''+''"
  using digits_all_digits [of n] by (cases "digits n") (auto simp: is_digit_def)

lemma parse_int64_itoa:
  assumes "- (2 ^ 63) \<le> i" "i < 2 ^ 63"
  shows "parse_int64 (itoa i) = Some i"
proof (cases "i < 0")
  case True
  then show ?thesis using assms by (simp add: parse_int64_def itoa_def digits_value_digits)
next
  case False
  from digits_no_sign [of "nat i"] obtain c cs where d: "digits (nat i) = c # cs" "c \<noteq> CHR ''-''" "c \<noteq> CHR ''+''" by blast
  have "digits_value 0 (c # cs) = Some (nat i)" using digits_value_digits [of "nat i"] d(1) by simp
  with False d assms show ?thesis by (simp add: parse_int64_def itoa_def del: digits_value.simps)
qed

lemma trim_space_id:
  assumes "s = [] \<or> \<not> is_space (hd s) \<and> \<not> is_space (last s)"
  shows "trim_space s = s"
proof (cases s)
  case (Cons c cs)
  with assms have "\<not> is_space (hd s)" "\<not> is_space (hd (rev s))" by (simp_all only: hd_rev) simp_all
  then have "dropWhile is_space s = s" "dropWhile is_space (rev s) = rev s"
    using Cons by (simp_all only: dropWhile_eq_self_iff) simp_all
  then show ?thesis by (simp add: trim_space_def)
qed (simp add: trim_space_def)

lemma trim_space_nospace: "list_all (\<lambda>c. \<not> is_space c) s \<Longrightarrow> trim_space s = s"
  using last_in_set [of s] hd_in_set [of s] by (intro trim_space_id) (auto simp: list_all_iff)

end
