(* ===== verification/NamesGenerator.thy ===== *)
theory NamesGenerator
  imports GoStrings
begin

text \<open>
  Generated container names (\<^verbatim>\<open>src/pkg/namesgenerator/names-generator.go\<close>) and the pattern that
  container and volume names must match (\<^verbatim>\<open>src/utils/names.go\<close>).

  The random source is a parameter: \<open>rnd k n\<close> is the number the \<open>k\<close>-th call of \<^verbatim>\<open>Intn(n)\<close> returns.
\<close>

section \<open>Names the daemon accepts\<close>

definition is_name_char :: "char \<Rightarrow> bool" where
  "is_name_char c \<longleftrightarrow> alnum c \<or> c = CHR ''_'' \<or> c = CHR ''.'' \<or> c = CHR ''-''"

text \<open>The pattern \<^verbatim>\<open>[a-zA-Z0-9][a-zA-Z0-9_.-]+\<close>, without and with the optional slash in front.\<close>

definition matches_restricted :: "string \<Rightarrow> bool" where
  "matches_restricted s = (case s of c # d # ds \<Rightarrow> alnum c \<and> list_all is_name_char (d # ds) | _ \<Rightarrow> False)"

definition RestrictedNamePattern :: "string \<Rightarrow> bool" where
  "RestrictedNamePattern s = (matches_restricted s \<or> (case s of c # cs \<Rightarrow> c = CHR ''/'' \<and> matches_restricted cs | [] \<Rightarrow> False))"

section \<open>The generator\<close>

definition names_left :: "string list" where
  "names_left = [
    ''admiring'', ''adoring'', ''agitated'', ''amazing'', ''angry'', ''awesome'', ''backstabbing'',
    ''berserk'', ''big'', ''boring'', ''clever'', ''cocky'', ''compassionate'', ''condescending'',
    ''cranky'', ''desperate'', ''determined'', ''distracted'', ''dreamy'', ''drunk'', ''ecstatic'',
    ''elated'', ''elegant'', ''evil'', ''fervent'', ''focused'', ''furious'', ''gigantic'', ''gloomy'',
    ''goofy'', ''grave'', ''happy'', ''high'', ''hopeful'', ''hungry'', ''infallible'', ''jolly'',
    ''jovial'', ''kickass'', ''lonely'', ''loving'', ''mad'', ''modest'', ''naughty'', ''nauseous'',
    ''nostalgic'', ''peaceful'', ''pedantic'', ''pensive'', ''prickly'', ''reverent'', ''romantic'',
    ''sad'', ''serene'', ''sharp'', ''sick'', ''silly'', ''sleepy'', ''small'', ''stoic'',
    ''stupefied'', ''suspicious'', ''tender'', ''thirsty'', ''tiny'', ''trusting'', ''zen'']"

definition names_right :: "string list" where
  "names_right = [
    ''albattani'', ''allen'', ''almeida'', ''agnesi'', ''archimedes'', ''ardinghelli'', ''aryabhata'',
    ''austin'', ''babbage'', ''banach'', ''bardeen'', ''bartik'', ''bassi'', ''bell'', ''bhabha'',
    ''bhaskara'', ''blackwell'', ''bohr'', ''booth'', ''borg'', ''bose'', ''boyd'', ''brahmagupta'',
    ''brattain'', ''brown'', ''carson'', ''chandrasekhar'', ''shannon'', ''colden'', ''cori'', ''cray'',
    ''curran'', ''curie'', ''darwin'', ''davinci'', ''dijkstra'', ''dubinsky'', ''easley'',
    ''einstein'', ''elion'', ''engelbart'', ''euclid'', ''euler'', ''fermat'', ''fermi'', ''feynman'',
    ''franklin'', ''galileo'', ''gates'', ''goldberg'', ''goldstine'', ''goldwasser'', ''golick'',
    ''goodall'', ''hamilton'', ''hawking'', ''heisenberg'', ''heyrovsky'', ''hodgkin'', ''hoover'',
    ''hopper'', ''hugle'', ''hypatia'', ''jang'', ''jennings'', ''jepsen'', ''joliot'', ''jones'',
    ''kalam'', ''kare'', ''keller'', ''khorana'', ''kilby'', ''kirch'', ''knuth'', ''kowalevski'',
    ''lalande'', ''lamarr'', ''lamport'', ''leakey'', ''leavitt'', ''lichterman'', ''liskov'',
    ''lovelace'', ''lumiere'', ''mahavira'', ''mayer'', ''mccarthy'', ''mcclintock'', ''mclean'',
    ''mcnulty'', ''meitner'', ''meninsky'', ''mestorf'', ''minsky'', ''mirzakhani'', ''morse'',
    ''murdock'', ''newton'', ''nobel'', ''noether'', ''northcutt'', ''noyce'', ''panini'', ''pare'',
    ''pasteur'', ''payne'', ''perlman'', ''pike'', ''poincare'', ''poitras'', ''ptolemy'', ''raman'',
    ''ramanujan'', ''ride'', ''montalcini'', ''ritchie'', ''roentgen'', ''rosalind'', ''saha'',
    ''sammet'', ''shaw'', ''shirley'', ''shockley'', ''sinoussi'', ''snyder'', ''spence'', ''stallman'',
    ''stonebraker'', ''swanson'', ''swartz'', ''swirles'', ''tesla'', ''thompson'', ''torvalds'',
    ''turing'', ''varahamihira'', ''visvesvaraya'', ''volhard'', ''wescoff'', ''williams'', ''wilson'',
    ''wing'', ''wozniak'', ''wright'', ''yalow'', ''yonath'']"

text \<open>The loop draws again, without bound, as long as it draws the excluded name.\<close>

partial_function (option) draw_name :: "(nat \<Rightarrow> nat \<Rightarrow> nat) \<Rightarrow> nat \<Rightarrow> (string \<times> nat) option" where
  "draw_name rnd k =
     (let name = names_left ! rnd k (length names_left) @ ''_'' @ names_right ! rnd (Suc k) (length names_right)
      in if name = ''boring_wozniak'' then draw_name rnd (k + 2) else Some (name, k + 2))"

definition GetRandomName :: "(nat \<Rightarrow> nat \<Rightarrow> nat) \<Rightarrow> nat \<Rightarrow> int \<Rightarrow> (string \<times> nat) option" where
  "GetRandomName rnd k retry =
     map_option (\<lambda>(name, k'). if 0 < retry then (name @ itoa (int (rnd k' 10)), Suc k') else (name, k'))
       (draw_name rnd k)"

section \<open>Generated names are acceptable\<close>

lemma names_left_ok: "list_all (\<lambda>w. w \<noteq> [] \<and> alnum (hd w) \<and> list_all is_name_char w) names_left"
  by (simp add: names_left_def is_name_char_def char_classes)

lemma names_right_ok: "list_all (list_all is_name_char) names_right"
  by (simp add: names_right_def is_name_char_def char_classes)

lemma names_nonempty: "0 < length names_left" "0 < length names_right"
  by (simp_all add: names_left_def names_right_def)

lemma is_name_char_digit: "n < 10 \<Longrightarrow> is_name_char (char_of (48 + n :: nat))"
  by (simp add: is_name_char_def char_classes of_char_of)

lemma digits_one: "n < 10 \<Longrightarrow> digits n = [char_of (48 + n)]"
  by (simp add: digits.simps)

lemma matches_restricted_append:
  assumes "a \<noteq> []" and "alnum (hd a)" and "list_all is_name_char a" and "b \<noteq> []" and "list_all is_name_char b"
  shows "matches_restricted (a @ b)"
  using assms by (cases a; cases "tl a"; cases b) (auto simp: matches_restricted_def)

text \<open>The draw that starts at the \<open>k\<close>-th random number.\<close>

definition drawn :: "(nat \<Rightarrow> nat \<Rightarrow> nat) \<Rightarrow> nat \<Rightarrow> string" where
  "drawn rnd k = names_left ! rnd k (length names_left) @ ''_'' @ names_right ! rnd (Suc k) (length names_right)"

lemma draw_name_unfold:
  "draw_name rnd k = (if drawn rnd k = ''boring_wozniak'' then draw_name rnd (k + 2) else Some (drawn rnd k, k + 2))"
  by (subst draw_name.simps) (simp add: drawn_def Let_def)

lemma draw_name_result:
  assumes "draw_name rnd k = Some r"
  shows "\<exists>j. fst r = drawn rnd j \<and> fst r \<noteq> ''boring_wozniak''"
proof (rule draw_name.raw_induct [of "\<lambda>rnd k r. \<exists>j. fst r = drawn rnd j \<and> fst r \<noteq> ''boring_wozniak''", OF _ assms], goal_cases)
  case (1 f rnd k r)
  note step = 1(2) [unfolded drawn_def [symmetric] Let_def]
  show ?case
  proof (cases "drawn rnd k = ''boring_wozniak''")
    case True
    then have "f rnd (k + 2) = Some r" using step by simp
    then show ?thesis by (rule 1(1))
  next
    case False
    then have "r = (drawn rnd k, k + 2)" using step by simp
    then show ?thesis using False by (intro exI [of _ k]) simp
  qed
qed

lemma draw_name_returns:
  "drawn rnd (k + 2 * m) \<noteq> ''boring_wozniak'' \<Longrightarrow> \<exists>r. draw_name rnd k = Some r"
proof (induction m arbitrary: k)
  case 0
  then show ?case by (simp add: draw_name_unfold)
next
  case (Suc m)
  then show ?case using Suc.IH [of "k + 2"] by (subst draw_name_unfold) (simp add: algebra_simps)
qed

lemma drawn_ok:
  assumes "\<And>k n. 0 < n \<Longrightarrow> rnd k n < n"
  shows "matches_restricted (drawn rnd j)" and "list_all is_name_char (drawn rnd j)"
proof -
  let ?l = "names_left ! rnd j (length names_left)" and ?r = "names_right ! rnd (Suc j) (length names_right)"
  have l: "?l \<noteq> [] \<and> alnum (hd ?l) \<and> list_all is_name_char ?l"
    using names_left_ok assms [OF names_nonempty(1)] by (simp add: list_all_length)
  have r: "list_all is_name_char ?r"
    using names_right_ok assms [OF names_nonempty(2)] by (simp add: list_all_length)
  have "is_name_char CHR ''_''" by (simp add: is_name_char_def)
  with l r show "matches_restricted (drawn rnd j)" "list_all is_name_char (drawn rnd j)"
    using matches_restricted_append [of ?l "''_'' @ ?r"] by (simp_all add: drawn_def)
qed

text \<open>
  C34. Whatever the random source returns within its bounds, a generated name matches the pattern
  required of container names (with or without a slash in front) and is not the excluded one; and
  the generator returns as soon as one of its draws is not the excluded name.
\<close>
theorem GetRandomName_acceptable:
  assumes "\<And>k n. 0 < n \<Longrightarrow> rnd k n < n"
  shows "(\<forall>name k'. GetRandomName rnd k retry = Some (name, k') \<longrightarrow>
      RestrictedNamePattern name \<and> RestrictedNamePattern (CHR ''/'' # name) \<and> name \<noteq> ''boring_wozniak'') \<and>
    (drawn rnd (k + 2 * m) \<noteq> ''boring_wozniak'' \<longrightarrow> (\<exists>r. GetRandomName rnd k retry = Some r))"
proof (intro conjI allI impI)
  show "\<exists>r. GetRandomName rnd k retry = Some r" if "drawn rnd (k + 2 * m) \<noteq> ''boring_wozniak''"
    using draw_name_returns [OF that] unfolding GetRandomName_def by (elim exE) simp
next
  fix name k'
  assume "GetRandomName rnd k retry = Some (name, k')"
  then obtain n j where n: "draw_name rnd k = Some (n, j)"
    and name: "name = (if 0 < retry then n @ itoa (int (rnd j 10)) else n)"
    by (auto simp: GetRandomName_def split: if_splits)
  from draw_name_result [OF n] obtain i where i: "n = drawn rnd i" "n \<noteq> ''boring_wozniak''" by auto
  have ten: "rnd j 10 < 10" using assms by simp
  have dig: "itoa (int (rnd j 10)) = [char_of (48 + rnd j 10)]" using ten by (simp add: itoa_def digits_one)
  have m: "matches_restricted name"
  proof (cases "0 < retry")
    case True
    have "n \<noteq> []" "alnum (hd n)"
      using drawn_ok(1) [of rnd i, OF assms] i by (auto simp: matches_restricted_def split: list.splits)
    then show ?thesis
      unfolding name dig using True matches_restricted_append [of n "[char_of (48 + rnd j 10)]"]
        drawn_ok(2) [of rnd i, OF assms] i is_name_char_digit [OF ten] by simp
  qed (use drawn_ok(1) [of rnd i, OF assms] i name in simp)
  show "RestrictedNamePattern name" "RestrictedNamePattern (CHR ''/'' # name)"
    using m by (simp_all add: RestrictedNamePattern_def)
  have "last (n @ [char_of (48 + rnd j 10)]) \<noteq> CHR ''k''"
    using ten by (auto simp: char_of_eq_iff take_bit_nat_eq_self)
  then show "name \<noteq> ''boring_wozniak''" using i(2) name dig by auto
qed

theorem GetRandomName_acceptable_witness:
  "GetRandomName (\<lambda>k n. k mod n) 0 1 = Some (''admiring_allen2'', 3) \<and> RestrictedNamePattern ''admiring_allen2''"
proof -
  have r: "GetRandomName (\<lambda>k n. k mod n) 0 1 = Some (''admiring_allen2'', 3)"
    by (simp add: GetRandomName_def draw_name_unfold drawn_def names_left_def names_right_def itoa_def digits.simps)
      (simp add: char_of_eq_iff take_bit_nat_eq_self)
  with GetRandomName_acceptable [of "\<lambda>k n. k mod n" 0 1 0] show ?thesis by simp
qed

end
