(* ===== verification/ContainerState.thy ===== *)
theory ContainerState
  imports GoStrings
begin

text \<open>
  The life-cycle state of a container (\<^verbatim>\<open>src/container/state.go\<close>, \<^verbatim>\<open>state_unix.go\<close>), its health
  record (\<^verbatim>\<open>src/container/health.go\<close>), and the guards of pause and unpause
  (\<^verbatim>\<open>src/daemon/pause.go\<close>, \<^verbatim>\<open>src/daemon/unpause.go\<close>).

  Times are integers (nanoseconds); the zero \<^verbatim>\<open>time.Time\<close> is \<open>None\<close>. A channel is a number, the
  identity \<^verbatim>\<open>make(chan ...)\<close> returns; \<open>chans\<close> records which were closed and which number is
  fresh. Closing a closed channel panics, which is \<open>None\<close>.
\<close>

section \<open>Data\<close>

record Health =
  Status :: string
  FailingStreak :: int
  hstop :: "nat option"

record State =
  Running :: bool
  Paused :: bool
  Restarting :: bool
  OOMKilled :: bool
  RemovalInProgress :: bool
  Dead :: bool
  Pid :: int
  exitCode :: int
  state_error :: string
  StartedAt :: "int option"
  FinishedAt :: "int option"
  waitChan :: nat
  state_Health :: "Health option"

record ExitStatus =
  es_ExitCode :: int
  es_OOMKilled :: bool

record chans =
  closed_chans :: "nat fset"
  fresh_chan :: nat

definition make_chan :: "chans \<Rightarrow> nat \<times> chans" where
  "make_chan h = (fresh_chan h, h\<lparr>fresh_chan := Suc (fresh_chan h)\<rparr>)"

definition close_chan :: "nat \<Rightarrow> chans \<Rightarrow> chans option" where
  "close_chan c h =
     (if c |\<in>| closed_chans h then None else Some (h\<lparr>closed_chans := finsert c (closed_chans h)\<rparr>))"

section \<open>Health\<close>

definition Unhealthy :: string where "Unhealthy = ''unhealthy''"
definition Starting :: string where "Starting = ''starting''"

definition Health_String :: "Health \<Rightarrow> string" where
  "Health_String s =
     (if hstop s = None then Unhealthy
      else if Status s = Starting then ''health: starting''
      else Status s)"

definition OpenMonitorChannel :: "Health \<Rightarrow> chans \<Rightarrow> nat option \<times> Health \<times> chans" where
  "OpenMonitorChannel s h =
     (case hstop s of
        None \<Rightarrow> (let (c, h') = make_chan h in (Some c, s\<lparr>hstop := Some c\<rparr>, h'))
      | Some _ \<Rightarrow> (None, s, h))"

text \<open>The unbuffered send returns once the monitor has received; then the field is cleared.\<close>

definition CloseMonitorChannel :: "Health \<Rightarrow> Health" where
  "CloseMonitorChannel s = (case hstop s of Some _ \<Rightarrow> s\<lparr>hstop := None\<rparr> | None \<Rightarrow> s)"

section \<open>State operations\<close>

definition NewState :: "chans \<Rightarrow> State \<times> chans" where
  "NewState h =
     (let (c, h') = make_chan h
      in (\<lparr>Running = False, Paused = False, Restarting = False, OOMKilled = False,
           RemovalInProgress = False, Dead = False, Pid = 0, exitCode = 0, state_error = '''',
           StartedAt = None, FinishedAt = None, waitChan = c, state_Health = None\<rparr>, h'))"

text \<open>
  \<open>human\<close> is \<^verbatim>\<open>units.HumanDuration\<close> of a third-party package and \<open>now\<close> the clock's reading.
  The zero time stands at instant \<open>zero_time\<close> when a duration is taken from it.
\<close>

definition since :: "int \<Rightarrow> int \<Rightarrow> int option \<Rightarrow> int" where
  "since zero_time now t = (case t of None \<Rightarrow> now - zero_time | Some t0 \<Rightarrow> now - t0)"

definition State_String :: "(int \<Rightarrow> string) \<Rightarrow> int \<Rightarrow> int \<Rightarrow> State \<Rightarrow> string" where
  "State_String human zero_time now s =
     (if Running s then
        if Paused s then ''Up '' @ human (since zero_time now (StartedAt s)) @ '' (Paused)''
        else if Restarting s then
          ''Restarting ('' @ itoa (exitCode s) @ '') '' @ human (since zero_time now (FinishedAt s)) @ '' ago''
        else (case state_Health s of
                Some hl \<Rightarrow> ''Up '' @ human (since zero_time now (StartedAt s)) @ '' ('' @ Health_String hl @ '')''
              | None \<Rightarrow> ''Up '' @ human (since zero_time now (StartedAt s)))
      else if RemovalInProgress s then ''Removal In Progress''
      else if Dead s then ''Dead''
      else if StartedAt s = None then ''Created''
      else if FinishedAt s = None then ''''
      else ''Exited ('' @ itoa (exitCode s) @ '') '' @ human (since zero_time now (FinishedAt s)) @ '' ago'')"

definition StateString :: "State \<Rightarrow> string" where
  "StateString s =
     (if Running s then
        if Paused s then ''paused'' else if Restarting s then ''restarting'' else ''running''
      else if Dead s then ''dead''
      else if StartedAt s = None then ''created''
      else ''exited'')"

definition IsValidStateString :: "string \<Rightarrow> bool" where
  "IsValidStateString s =
     (if s \<noteq> ''paused'' \<and> s \<noteq> ''restarting'' \<and> s \<noteq> ''running'' \<and> s \<noteq> ''dead'' \<and>
         s \<noteq> ''created'' \<and> s \<noteq> ''exited'' then False else True)"

definition IsRunning :: "State \<Rightarrow> bool" where "IsRunning s = Running s"
definition GetPID :: "State \<Rightarrow> int" where "GetPID s = Pid s"
definition ExitCode :: "State \<Rightarrow> int" where "ExitCode s = exitCode s"
definition SetExitCode :: "int \<Rightarrow> State \<Rightarrow> State" where "SetExitCode ec s = s\<lparr>exitCode := ec\<rparr>"

definition SetRunning :: "int \<Rightarrow> int \<Rightarrow> bool \<Rightarrow> State \<Rightarrow> State" where
  "SetRunning now pid initial s =
     (let s' = s\<lparr>state_error := '''', Running := True, Paused := False, Restarting := False,
                 exitCode := 0, Pid := pid\<rparr>
      in if initial then s'\<lparr>StartedAt := Some now\<rparr> else s')"

definition setFromExitStatus :: "ExitStatus \<Rightarrow> State \<Rightarrow> State" where
  "setFromExitStatus e s = s\<lparr>exitCode := es_ExitCode e, OOMKilled := es_OOMKilled e\<rparr>"

text \<open>\<^verbatim>\<open>close(s.waitChan); s.waitChan = make(chan struct{})\<close>.\<close>

definition fire_waiters :: "State \<Rightarrow> chans \<Rightarrow> (State \<times> chans) option" where
  "fire_waiters s h =
     (case close_chan (waitChan s) h of
        None \<Rightarrow> None
      | Some h' \<Rightarrow> (let (c, h'') = make_chan h' in Some (s\<lparr>waitChan := c\<rparr>, h'')))"

definition SetStopped :: "int \<Rightarrow> ExitStatus \<Rightarrow> State \<Rightarrow> chans \<Rightarrow> (State \<times> chans) option" where
  "SetStopped now e s h =
     (let s' = s\<lparr>Running := False, Paused := False, Restarting := False, Pid := 0, FinishedAt := Some now\<rparr>
      in fire_waiters (setFromExitStatus e s') h)"

definition SetStoppedLocking :: "int \<Rightarrow> ExitStatus \<Rightarrow> State \<Rightarrow> chans \<Rightarrow> (State \<times> chans) option" where
  "SetStoppedLocking now e s h = SetStopped now e s h"

definition SetRestarting :: "int \<Rightarrow> ExitStatus \<Rightarrow> State \<Rightarrow> chans \<Rightarrow> (State \<times> chans) option" where
  "SetRestarting now e s h =
     (let s' = s\<lparr>Running := True, Restarting := True, Pid := 0, FinishedAt := Some now\<rparr>
      in fire_waiters (setFromExitStatus e s') h)"

definition SetRestartingLocking :: "int \<Rightarrow> ExitStatus \<Rightarrow> State \<Rightarrow> chans \<Rightarrow> (State \<times> chans) option" where
  "SetRestartingLocking now e s h = SetRestarting now e s h"

definition SetError :: "string \<Rightarrow> State \<Rightarrow> State" where "SetError err s = s\<lparr>state_error := err\<rparr>"
definition IsPaused :: "State \<Rightarrow> bool" where "IsPaused s = Paused s"
definition IsRestarting :: "State \<Rightarrow> bool" where "IsRestarting s = Restarting s"

definition SetRemovalInProgress :: "State \<Rightarrow> bool \<times> State" where
  "SetRemovalInProgress s =
     (if RemovalInProgress s then (True, s) else (False, s\<lparr>RemovalInProgress := True\<rparr>))"

definition ResetRemovalInProgress :: "State \<Rightarrow> State" where
  "ResetRemovalInProgress s = s\<lparr>RemovalInProgress := False\<rparr>"

definition SetDead :: "State \<Rightarrow> State" where "SetDead s = s\<lparr>Dead := True\<rparr>"
definition State_Error :: "State \<Rightarrow> string" where "State_Error s = state_error s"

section \<open>Pause and unpause\<close>

text \<open>
  \<open>cd\<close> is the call into containerd: an error or none, and the state after the events that the
  call delivers while the container is locked.
\<close>

datatype pause_error =
    errNotRunning
  | ErrAlreadyPaused
  | errContainerIsRestarting
  | ErrNotPaused
  | ErrContainerd string

definition containerPause :: "(State \<Rightarrow> string option \<times> State) \<Rightarrow> State \<Rightarrow> pause_error option \<times> State" where
  "containerPause cd s =
     (if \<not> Running s then (Some errNotRunning, s)
      else if Paused s then (Some ErrAlreadyPaused, s)
      else if Restarting s then (Some errContainerIsRestarting, s)
      else (case cd s of (Some e, s') \<Rightarrow> (Some (ErrContainerd e), s') | (None, s') \<Rightarrow> (None, s')))"

definition containerUnpause :: "(State \<Rightarrow> string option \<times> State) \<Rightarrow> State \<Rightarrow> pause_error option \<times> State" where
  "containerUnpause cd s =
     (if \<not> Running s then (Some errNotRunning, s)
      else if \<not> Paused s then (Some ErrNotPaused, s)
      else (case cd s of (Some e, s') \<Rightarrow> (Some (ErrContainerd e), s') | (None, s') \<Rightarrow> (None, s')))"

section \<open>Waiting for a container to stop\<close>

text \<open>
  \<open>WaitStop\<close> and \<open>WaitWithContext\<close> release the lock while they block, so they interleave
  with the other operations. A caller is a waiter: blocked on the channel it read under the lock,
  woken but not yet holding the lock again, or done.
\<close>

datatype wait_kind = KStop int | KContext

datatype wait_result = StopCode int | TimedOut int | CtxStopped "State option" | CtxCanceled

datatype waiter = WBlocked nat wait_kind | WWoken wait_kind | WDone wait_result

text \<open>Up to the blocking select.\<close>

definition WaitStop_enter :: "int \<Rightarrow> State \<Rightarrow> waiter" where
  "WaitStop_enter timeout s =
     (if \<not> Running s then WDone (StopCode (exitCode s)) else WBlocked (waitChan s) (KStop timeout))"

definition ctx_result :: "State \<Rightarrow> wait_result" where
  "ctx_result s = CtxStopped (if exitCode s = 0 then None else Some s)"

definition WaitWithContext_enter :: "State \<Rightarrow> waiter" where
  "WaitWithContext_enter s =
     (if \<not> Running s then WDone (ctx_result s) else WBlocked (waitChan s) KContext)"

text \<open>
  The select of \<open>wait\<close>: a closed channel wakes it; a timer may fire when the timeout is not
  negative. \<open>WaitWithContext\<close> may be cancelled instead.
\<close>

inductive wait_select :: "chans \<Rightarrow> waiter \<Rightarrow> waiter \<Rightarrow> bool" where
  woken: "c |\<in>| closed_chans h \<Longrightarrow> wait_select h (WBlocked c k) (WWoken k)"
| timer: "0 \<le> t \<Longrightarrow> wait_select h (WBlocked c (KStop t)) (WDone (TimedOut t))"
| cancel: "wait_select h (WBlocked c KContext) (WDone CtxCanceled)"

text \<open>After waking, the lock is taken again and the state is read.\<close>

fun wait_leave :: "State \<Rightarrow> wait_kind \<Rightarrow> waiter" where
  "wait_leave s (KStop t) = WDone (StopCode (ExitCode s))"
| "wait_leave s KContext = WDone (ctx_result s)"

record wait_sys =
  ws_state :: State
  ws_chans :: chans
  ws_waiters :: "(nat, waiter) fmap"

definition init_sys :: wait_sys where
  "init_sys = (let (s, h) = NewState \<lparr>closed_chans = {||}, fresh_chan = 0\<rparr>
               in \<lparr>ws_state = s, ws_chans = h, ws_waiters = fmempty\<rparr>)"

definition pause_event :: "string option \<Rightarrow> bool \<Rightarrow> State \<Rightarrow> string option \<times> State" where
  "pause_event err p s = (case err of None \<Rightarrow> (None, s\<lparr>Paused := p\<rparr>) | Some e \<Rightarrow> (Some e, s))"

inductive sys_step :: "wait_sys \<Rightarrow> wait_sys \<Rightarrow> bool" where
  enter_stop: "fmlookup (ws_waiters y) w = None \<Longrightarrow>
    sys_step y (y\<lparr>ws_waiters := fmupd w (WaitStop_enter t (ws_state y)) (ws_waiters y)\<rparr>)"
| enter_ctx: "fmlookup (ws_waiters y) w = None \<Longrightarrow>
    sys_step y (y\<lparr>ws_waiters := fmupd w (WaitWithContext_enter (ws_state y)) (ws_waiters y)\<rparr>)"
| select: "fmlookup (ws_waiters y) w = Some a \<Longrightarrow> wait_select (ws_chans y) a b \<Longrightarrow>
    sys_step y (y\<lparr>ws_waiters := fmupd w b (ws_waiters y)\<rparr>)"
| leave: "fmlookup (ws_waiters y) w = Some (WWoken k) \<Longrightarrow>
    sys_step y (y\<lparr>ws_waiters := fmupd w (wait_leave (ws_state y) k) (ws_waiters y)\<rparr>)"
| running: "sys_step y (y\<lparr>ws_state := SetRunning now pid initial (ws_state y)\<rparr>)"
| stopped: "SetStopped now e (ws_state y) (ws_chans y) = Some (s, h) \<Longrightarrow>
    sys_step y (y\<lparr>ws_state := s, ws_chans := h\<rparr>)"
| restarting: "SetRestarting now e (ws_state y) (ws_chans y) = Some (s, h) \<Longrightarrow>
    sys_step y (y\<lparr>ws_state := s, ws_chans := h\<rparr>)"
| pause: "sys_step y (y\<lparr>ws_state := snd (containerPause (pause_event err True) (ws_state y))\<rparr>)"
| unpause: "sys_step y (y\<lparr>ws_state := snd (containerUnpause (pause_event err False) (ws_state y))\<rparr>)"
| removal: "sys_step y (y\<lparr>ws_state := snd (SetRemovalInProgress (ws_state y))\<rparr>)"
| reset_removal: "sys_step y (y\<lparr>ws_state := ResetRemovalInProgress (ws_state y)\<rparr>)"
| dead: "sys_step y (y\<lparr>ws_state := SetDead (ws_state y)\<rparr>)"
| set_error: "sys_step y (y\<lparr>ws_state := SetError err (ws_state y)\<rparr>)"
| set_exit: "sys_step y (y\<lparr>ws_state := SetExitCode ec (ws_state y)\<rparr>)"

lemmas state_ops [op_defs] =
  SetRunning_def SetRemovalInProgress_def ResetRemovalInProgress_def SetDead_def SetError_def
  SetExitCode_def containerPause_def containerUnpause_def pause_event_def

subsection \<open>Invariants\<close>

definition state_wf :: "State \<Rightarrow> bool" where
  "state_wf s \<longleftrightarrow> (\<not> Running s \<longrightarrow> \<not> Paused s \<and> \<not> Restarting s \<and> Pid s = 0) \<and> (Restarting s \<longrightarrow> Pid s = 0)"

definition chan_wf :: "State \<Rightarrow> chans \<Rightarrow> bool" where
  "chan_wf s h \<longleftrightarrow>
     waitChan s |\<notin>| closed_chans h \<and> waitChan s < fresh_chan h \<and>
     (\<forall>c. c |\<in>| closed_chans h \<longrightarrow> c < fresh_chan h)"

definition waiters_wf :: "wait_sys \<Rightarrow> bool" where
  "waiters_wf y \<longleftrightarrow>
     (\<forall>w c k. fmlookup (ws_waiters y) w = Some (WBlocked c k) \<longrightarrow>
        c = waitChan (ws_state y) \<or> c |\<in>| closed_chans (ws_chans y))"

definition sys_inv :: "wait_sys \<Rightarrow> bool" where
  "sys_inv y \<longleftrightarrow> state_wf (ws_state y) \<and> chan_wf (ws_state y) (ws_chans y) \<and> waiters_wf y"

text \<open>Firing the waiters succeeds on a well-formed channel, closes it and installs a fresh one.\<close>

lemma fire_waiters_wf:
  assumes "chan_wf s h"
  shows "fire_waiters s h = Some (s\<lparr>waitChan := fresh_chan h\<rparr>,
    h\<lparr>closed_chans := finsert (waitChan s) (closed_chans h), fresh_chan := Suc (fresh_chan h)\<rparr>)"
  using assms by (simp add: fire_waiters_def chan_wf_def close_chan_def make_chan_def)

text \<open>Both stopping operations succeed on a well-formed channel, with the same effect on it.\<close>

lemma SetStopped_eq:
  assumes "chan_wf s h"
  shows "SetStopped now e s h = Some
    (s\<lparr>Running := False, Paused := False, Restarting := False, OOMKilled := es_OOMKilled e, Pid := 0,
       exitCode := es_ExitCode e, FinishedAt := Some now, waitChan := fresh_chan h\<rparr>,
     h\<lparr>closed_chans := finsert (waitChan s) (closed_chans h), fresh_chan := Suc (fresh_chan h)\<rparr>)"
  using assms by (simp add: SetStopped_def setFromExitStatus_def fire_waiters_wf chan_wf_def Let_def)

lemma SetRestarting_eq:
  assumes "chan_wf s h"
  shows "SetRestarting now e s h = Some
    (s\<lparr>Running := True, Restarting := True, OOMKilled := es_OOMKilled e, Pid := 0,
       exitCode := es_ExitCode e, FinishedAt := Some now, waitChan := fresh_chan h\<rparr>,
     h\<lparr>closed_chans := finsert (waitChan s) (closed_chans h), fresh_chan := Suc (fresh_chan h)\<rparr>)"
  using assms by (simp add: SetRestarting_def setFromExitStatus_def fire_waiters_wf chan_wf_def Let_def)

lemma sys_inv_init: "sys_inv init_sys"
  by (simp add: init_sys_def NewState_def make_chan_def sys_inv_def state_wf_def chan_wf_def waiters_wf_def)

text \<open>The operations on flags keep the channel and the shape of the flags.\<close>

lemma flag_ops_waitChan [simp]:
  "waitChan (SetRunning now pid initial s) = waitChan s"
  "waitChan (snd (containerPause (pause_event err p) s)) = waitChan s"
  "waitChan (snd (containerUnpause (pause_event err p) s)) = waitChan s"
  "waitChan (snd (SetRemovalInProgress s)) = waitChan s"
  "waitChan (ResetRemovalInProgress s) = waitChan s"
  "waitChan (SetDead s) = waitChan s"
  "waitChan (SetError msg s) = waitChan s"
  "waitChan (SetExitCode ec s) = waitChan s"
  by (simp_all add: op_defs Let_def split: option.splits)

lemma flag_ops_wf [inv_rules]:
  "state_wf s \<Longrightarrow> state_wf (SetRunning now pid initial s)"
  "state_wf s \<Longrightarrow> state_wf (snd (containerPause (pause_event err True) s))"
  "state_wf s \<Longrightarrow> state_wf (snd (containerUnpause (pause_event err False) s))"
  "state_wf s \<Longrightarrow> state_wf (snd (SetRemovalInProgress s))"
  "state_wf s \<Longrightarrow> state_wf (ResetRemovalInProgress s)"
  "state_wf s \<Longrightarrow> state_wf (SetDead s)"
  "state_wf s \<Longrightarrow> state_wf (SetError msg s)"
  "state_wf s \<Longrightarrow> state_wf (SetExitCode ec s)"
  by (simp_all add: op_defs state_wf_def Let_def split: option.splits)

text \<open>A step that changes only the state's flags, keeping its channel.\<close>

lemma sys_inv_flags:
  assumes "sys_inv y" and "waitChan s = waitChan (ws_state y)" and "state_wf (ws_state y) \<Longrightarrow> state_wf s"
  shows "sys_inv (y\<lparr>ws_state := s\<rparr>)"
  using assms by (simp add: sys_inv_def chan_wf_def waiters_wf_def)

text \<open>A step that changes only one waiter, to one that is not blocked on a foreign channel.\<close>

lemma sys_inv_waiter:
  assumes "sys_inv y"
    and "\<And>c k. b = WBlocked c k \<Longrightarrow> c = waitChan (ws_state y) \<or> c |\<in>| closed_chans (ws_chans y)"
  shows "sys_inv (y\<lparr>ws_waiters := fmupd w b (ws_waiters y)\<rparr>)"
  using assms by (auto simp: sys_inv_def waiters_wf_def)

text \<open>A step that fires the waiters.\<close>

lemma sys_inv_fire:
  assumes "sys_inv y" and "state_wf s" and "waitChan s = fresh_chan (ws_chans y)"
  shows "sys_inv (y\<lparr>ws_state := s, ws_chans := (ws_chans y)\<lparr>
     closed_chans := finsert (waitChan (ws_state y)) (closed_chans (ws_chans y)),
     fresh_chan := Suc (fresh_chan (ws_chans y))\<rparr>\<rparr>)"
  using assms by (auto simp: sys_inv_def chan_wf_def waiters_wf_def)

lemma sys_step_inv: "sys_step y z \<Longrightarrow> sys_inv y \<Longrightarrow> sys_inv z"
proof (induction rule: sys_step.induct)
  case (enter_stop y w t)
  then show ?case by (intro sys_inv_waiter) (auto simp: WaitStop_enter_def split: if_splits)
next
  case (enter_ctx y w)
  then show ?case by (intro sys_inv_waiter) (auto simp: WaitWithContext_enter_def split: if_splits)
next
  case (select y w a b)
  then show ?case by (intro sys_inv_waiter) (auto elim: wait_select.cases)
next
  case (leave y w k)
  then show ?case by (intro sys_inv_waiter) (cases k; simp)+
next
  case (stopped now e y s h)
  from stopped.prems have "chan_wf (ws_state y) (ws_chans y)" by (simp add: sys_inv_def)
  with stopped show ?case
    by (auto simp: SetStopped_eq state_wf_def intro!: sys_inv_fire)
next
  case (restarting now e y s h)
  from restarting.prems have "chan_wf (ws_state y) (ws_chans y)" by (simp add: sys_inv_def)
  with restarting show ?case
    by (auto simp: SetRestarting_eq state_wf_def intro!: sys_inv_fire)
qed (auto intro: sys_inv_flags flag_ops_wf)

interpretation life: transition_system "\<lambda>y. y = init_sys" sys_step sys_inv
  by unfold_locales (auto simp: sys_inv_init intro: sys_step_inv)

section \<open>Properties\<close>

text \<open>
  C17. In every reachable state, stopping the container succeeds (its wait channel is still open, so
  closing it does not panic), leaves the state stopped with the given exit code, and lets every
  caller that is still blocked in \<open>WaitStop\<close> or \<open>WaitWithContext\<close> proceed: no wake-up is lost.
\<close>

theorem SetStopped_wakes_waiters:
  assumes "sys_step\<^sup>*\<^sup>* init_sys y"
  shows "\<exists>s h. SetStopped now e (ws_state y) (ws_chans y) = Some (s, h) \<and>
      \<not> Running s \<and> Pid s = 0 \<and> ExitCode s = es_ExitCode e \<and>
      (\<forall>w c k. fmlookup (ws_waiters y) w = Some (WBlocked c k) \<longrightarrow> wait_select h (WBlocked c k) (WWoken k))"
proof -
  have inv: "sys_inv y" using life.reachable_inv [OF refl assms] .
  then have "chan_wf (ws_state y) (ws_chans y)" by (simp add: sys_inv_def)
  moreover have "c = waitChan (ws_state y) \<or> c |\<in>| closed_chans (ws_chans y)"
    if "fmlookup (ws_waiters y) w = Some (WBlocked c k)" for w c k
    using inv that by (auto simp: sys_inv_def waiters_wf_def)
  ultimately show ?thesis
    by (auto simp: SetStopped_eq ExitCode_def intro!: wait_select.woken)
qed

theorem SetStopped_wakes_waiters_witness:
  "\<exists>s h. SetStopped 5 \<lparr>es_ExitCode = 3, es_OOMKilled = False\<rparr> (ws_state init_sys) (ws_chans init_sys) = Some (s, h) \<and>
      \<not> Running s \<and> Pid s = 0 \<and> ExitCode s = 3 \<and>
      (\<forall>w c k. fmlookup (ws_waiters init_sys) w = Some (WBlocked c k) \<longrightarrow> wait_select h (WBlocked c k) (WWoken k))"
  using SetStopped_wakes_waiters [of init_sys 5 "\<lparr>es_ExitCode = 3, es_OOMKilled = False\<rparr>"] by simp

text \<open>
  The guards of pause and unpause agree with the reported state: pausing is refused before any
  call to containerd exactly when \<open>StateString\<close> is not \<^verbatim>\<open>running\<close>, unpausing exactly when it is not
  \<^verbatim>\<open>paused\<close>, and a refused call leaves the state alone.
\<close>

lemma pause_guards_match_StateString:
  "(fst (containerPause (\<lambda>t. (None, t)) s) = None \<longleftrightarrow> StateString s = ''running'') \<and>
   (fst (containerUnpause (\<lambda>t. (None, t)) s) = None \<longleftrightarrow> StateString s = ''paused'') \<and>
   (StateString s \<noteq> ''running'' \<longrightarrow> snd (containerPause cd s) = s) \<and>
   (StateString s \<noteq> ''paused'' \<longrightarrow> snd (containerUnpause cd s) = s)"
  by (simp add: containerPause_def containerUnpause_def StateString_def)

lemma pause_guards_match_StateString_witness:
  "StateString (ws_state init_sys) = ''created'' \<and>
   snd (containerPause (\<lambda>t. (None, SetDead t)) (ws_state init_sys)) = ws_state init_sys"
  using pause_guards_match_StateString [of "ws_state init_sys" "\<lambda>t. (None, SetDead t)"]
  by (simp add: init_sys_def NewState_def make_chan_def StateString_def)

text \<open>
  C35. \<open>WaitStop\<close> reads the exit code only after it has the lock again, and the code may have
  changed by then: from any reachable state with a caller blocked on the current channel, the
  container can stop with any code and be started again before the caller reads, and the caller
  then returns 0, the value \<open>SetRunning\<close> wrote, whatever code was passed to \<open>SetStopped\<close>.
\<close>

theorem WaitStop_may_miss_exit_code:
  assumes "sys_step\<^sup>*\<^sup>* init_sys y"
    and "fmlookup (ws_waiters y) w = Some (WBlocked (waitChan (ws_state y)) (KStop t))"
  shows "\<exists>s h z. SetStopped now e (ws_state y) (ws_chans y) = Some (s, h) \<and>
      sys_step\<^sup>*\<^sup>* (y\<lparr>ws_state := s, ws_chans := h\<rparr>) z \<and>
      fmlookup (ws_waiters z) w = Some (WDone (StopCode 0))"
proof -
  have "chan_wf (ws_state y) (ws_chans y)"
    using life.reachable_inv [OF refl assms(1)] by (simp add: sys_inv_def)
  note stop = SetStopped_eq [OF this, of now e]
  let ?p = "the (SetStopped now e (ws_state y) (ws_chans y))"
  define y1 where "y1 = y\<lparr>ws_state := fst ?p, ws_chans := snd ?p\<rparr>"
  define y2 where "y2 = y1\<lparr>ws_state := SetRunning now 1 True (ws_state y1)\<rparr>"
  define y3 where "y3 = y2\<lparr>ws_waiters := fmupd w (WWoken (KStop t)) (ws_waiters y2)\<rparr>"
  define y4 where "y4 = y3\<lparr>ws_waiters := fmupd w (wait_leave (ws_state y3) (KStop t)) (ws_waiters y3)\<rparr>"
  have "sys_step y1 y2" unfolding y2_def by (rule sys_step.running)
  moreover have "sys_step y2 y3"
    unfolding y3_def
    by (rule sys_step.select [where a = "WBlocked (waitChan (ws_state y)) (KStop t)"])
      (simp_all add: y2_def y1_def stop assms(2) wait_select.woken)
  moreover have "sys_step y3 y4"
    unfolding y4_def by (rule sys_step.leave) (simp add: y3_def)
  ultimately have "sys_step\<^sup>*\<^sup>* y1 y4"
    by (meson converse_rtranclp_into_rtranclp rtranclp.rtrancl_refl)
  moreover have "fmlookup (ws_waiters y4) w = Some (WDone (StopCode 0))"
    by (simp add: y4_def y3_def y2_def ExitCode_def SetRunning_def Let_def)
  moreover have "SetStopped now e (ws_state y) (ws_chans y) = Some (fst ?p, snd ?p)"
    using stop by simp
  ultimately show ?thesis unfolding y1_def by blast
qed

definition running_waiter_sys :: wait_sys where
  "running_waiter_sys =
     (let y = init_sys\<lparr>ws_state := SetRunning 1 42 True (ws_state init_sys)\<rparr>
      in y\<lparr>ws_waiters := fmupd 0 (WaitStop_enter (-1) (ws_state y)) (ws_waiters y)\<rparr>)"

lemma running_waiter_reachable: "sys_step\<^sup>*\<^sup>* init_sys running_waiter_sys"
proof -
  let ?y = "init_sys\<lparr>ws_state := SetRunning 1 42 True (ws_state init_sys)\<rparr>"
  have "sys_step init_sys ?y" by (rule sys_step.running)
  moreover have "sys_step ?y (?y\<lparr>ws_waiters := fmupd 0 (WaitStop_enter (-1) (ws_state ?y)) (ws_waiters ?y)\<rparr>)"
    by (rule sys_step.enter_stop) (simp add: init_sys_def NewState_def make_chan_def)
  ultimately show ?thesis
    unfolding running_waiter_sys_def Let_def
    by (meson converse_rtranclp_into_rtranclp rtranclp.rtrancl_refl)
qed

theorem WaitStop_may_miss_exit_code_witness:
  "\<exists>s h z. SetStopped 9 \<lparr>es_ExitCode = 137, es_OOMKilled = True\<rparr>
        (ws_state running_waiter_sys) (ws_chans running_waiter_sys) = Some (s, h) \<and>
      sys_step\<^sup>*\<^sup>* (running_waiter_sys\<lparr>ws_state := s, ws_chans := h\<rparr>) z \<and>
      fmlookup (ws_waiters z) 0 = Some (WDone (StopCode 0))"
  by (rule WaitStop_may_miss_exit_code [OF running_waiter_reachable, where t = "-1"])
    (simp add: running_waiter_sys_def init_sys_def NewState_def make_chan_def WaitStop_enter_def
      SetRunning_def Let_def)

end
