(* ===== verification/DaemonNames.thy ===== *)
theory DaemonNames
  imports Registrar TruncIndex Links NamesGenerator ContainerState
begin

text \<open>
  Containers by identifier, name and prefix: the memory store (\<^verbatim>\<open>src/container/memory_store.go\<close>,
  \<^verbatim>\<open>history.go\<close>) and the daemon's three indexes over it (\<^verbatim>\<open>src/daemon/names.go\<close>, \<^verbatim>\<open>container.go\<close>,
  \<^verbatim>\<open>rename.go\<close>, \<^verbatim>\<open>delete.go\<close>, \<^verbatim>\<open>daemon.go\<close>).

  A container pointer is identified by the container's identifier. \<open>write_container\<close> is a write through
  the pointer: it shows in the memory store while the container is stored there. The outcomes of disk
  writes, of the network controller and of the runtime are arguments, so that a theorem quantifies over
  all of them.
\<close>

section \<open>Containers and the memory store\<close>

record container =
  c_ID :: string
  c_Name :: string
  c_Created :: int
  c_State :: State
  c_IsAnonymousEndpoint :: bool
  c_SandboxID :: string
  c_RWLayer :: bool

type_synonym memoryStore = "(string, container) fmap"

definition NewMemoryStore :: memoryStore where "NewMemoryStore = fmempty"

definition memoryStore_Add :: "string \<Rightarrow> container \<Rightarrow> memoryStore \<Rightarrow> memoryStore" where
  "memoryStore_Add i c s = fmupd i c s"

definition memoryStore_Get :: "string \<Rightarrow> memoryStore \<Rightarrow> container option" where
  "memoryStore_Get i s = fmlookup s i"

definition memoryStore_Delete :: "string \<Rightarrow> memoryStore \<Rightarrow> memoryStore" where
  "memoryStore_Delete i s = fmdrop i s"

definition memoryStore_Size :: "memoryStore \<Rightarrow> nat" where
  "memoryStore_Size s = fcard (fmdom s)"

text \<open>\<open>order\<close> is the sequence in which Go's range delivers the keys of the map.\<close>

definition memoryStore_all :: "string list \<Rightarrow> memoryStore \<Rightarrow> container list" where
  "memoryStore_all order s = List.map_filter (fmlookup s) order"

definition History_Less :: "container list \<Rightarrow> nat \<Rightarrow> nat \<Rightarrow> bool" where
  "History_Less h i j \<longleftrightarrow> c_Created (h ! j) < c_Created (h ! i)"

definition History_sort :: "container list \<Rightarrow> container list" where
  "History_sort h = sort_key (\<lambda>c. - c_Created c) h"

definition memoryStore_List :: "string list \<Rightarrow> memoryStore \<Rightarrow> container list" where
  "memoryStore_List order s = History_sort (memoryStore_all order s)"

definition memoryStore_First :: "string list \<Rightarrow> (container \<Rightarrow> bool) \<Rightarrow> memoryStore \<Rightarrow> container option" where
  "memoryStore_First order filt s = List.find filt (memoryStore_all order s)"

section \<open>The daemon's indexes and lookups\<close>

datatype daemon_error =
    NoContainerSupplied
  | NoNameSupplied
  | NoSuchContainer string
  | PrefixError truncindex_error
  | NoEntity string
  | NoContainerForEntity string
  | AlreadyLoaded
  | InvalidEmptyId
  | NameIndexError registrar_error
  | InvalidContainerName string
  | NameConflict string string
  | EmptyRenameName
  | SameNameRename
  | AllocatingName daemon_error
  | DiskError
  | SandboxError
  | DefaultNameConflict
  | NoParent string string
  | RunningConflict string
  | KillFailed string
  | StopFailed
  | RemoveAllFailed string
  | DriverRemoveFailed string
  | NilDereference

record 't daemon =
  d_containers :: memoryStore
  d_idIndex :: "'t trunc_index"
  d_nameIndex :: registrar
  d_linkIndex :: "string linkIndex"
  d_disk :: "(string, string) fmap"

definition write_container :: "container \<Rightarrow> 't daemon \<Rightarrow> 't daemon" where
  "write_container c d =
     (case fmlookup (d_containers d) (c_ID c) of
        None \<Rightarrow> d
      | Some _ \<Rightarrow> d\<lparr>d_containers := fmupd (c_ID c) c (d_containers d)\<rparr>)"

text \<open>
  The statement \<^verbatim>\<open>if name[0] != '/' { name = "/" + name }\<close>, which every caller runs on a non-empty
  name only.
\<close>

definition slash_name :: "string \<Rightarrow> string" where
  "slash_name n = (case n of c # _ \<Rightarrow> if c \<noteq> CHR ''/'' then CHR ''/'' # n else n | [] \<Rightarrow> n)"

definition GetByName :: "string \<Rightarrow> 't daemon \<Rightarrow> daemon_error + container" where
  "GetByName name d =
     (if name = [] then Inl NoNameSupplied
      else (case Registrar_Get (slash_name name) (d_nameIndex d) of
              Inl _ \<Rightarrow> Inl (NoEntity name)
            | Inr i \<Rightarrow> (case memoryStore_Get i (d_containers d) of
                           None \<Rightarrow> Inl (NoContainerForEntity i)
                         | Some e \<Rightarrow> Inr e)))"

text \<open>\<open>Inr None\<close> is the pair \<^verbatim>\<open>nil, nil\<close>.\<close>

definition GetContainer :: "'t trie_ops \<Rightarrow> string \<Rightarrow> 't daemon \<Rightarrow> daemon_error + container option" where
  "GetContainer ops prefixOrName d =
     (if prefixOrName = [] then Inl NoContainerSupplied
      else (case memoryStore_Get prefixOrName (d_containers d) of
              Some c \<Rightarrow> Inr (Some c)
            | None \<Rightarrow>
                (case GetByName prefixOrName d of
                   Inr c \<Rightarrow> Inr (Some c)
                 | Inl _ \<Rightarrow>
                     (case TruncIndex_Get ops prefixOrName (d_idIndex d) of
                        Inl err \<Rightarrow> if err = ErrNotExist then Inl (NoSuchContainer prefixOrName) else Inl (PrefixError err)
                      | Inr containerID \<Rightarrow> Inr (memoryStore_Get containerID (d_containers d))))))"

definition Exists :: "'t trie_ops \<Rightarrow> string \<Rightarrow> 't daemon \<Rightarrow> bool" where
  "Exists ops i d = (case GetContainer ops i d of Inr (Some _) \<Rightarrow> True | _ \<Rightarrow> False)"

definition daemon_IsPaused :: "'t trie_ops \<Rightarrow> string \<Rightarrow> 't daemon \<Rightarrow> daemon_error + bool" where
  "daemon_IsPaused ops i d =
     (case GetContainer ops i d of Inr (Some c) \<Rightarrow> Inr (IsPaused (c_State c)) | _ \<Rightarrow> Inl NilDereference)"

definition Register :: "'t trie_ops \<Rightarrow> container \<Rightarrow> 't daemon \<Rightarrow> 't daemon" where
  "Register ops c d =
     (let d1 = d\<lparr>d_containers := memoryStore_Add (c_ID c) c (d_containers d)\<rparr>
      in d1\<lparr>d_idIndex := snd (TruncIndex_Add ops (c_ID c) (d_idIndex d1))\<rparr>)"

section \<open>Names\<close>

definition validateID :: "string \<Rightarrow> daemon_error option" where
  "validateID i = (if i = [] then Some InvalidEmptyId else None)"

definition shortLen :: nat where "shortLen = 12"

definition TruncateID :: "string \<Rightarrow> string" where
  "TruncateID i =
     (let i' = (case index_char CHR '':'' i of Some k \<Rightarrow> drop (k + 1) i | None \<Rightarrow> i);
          trimTo = (if length i' < shortLen then length i' else shortLen)
      in take trimTo i')"

definition reserveName :: "string \<Rightarrow> string \<Rightarrow> registrar \<Rightarrow> (daemon_error + string) \<times> registrar" where
  "reserveName i name r =
     (if \<not> RestrictedNamePattern name then (Inl (InvalidContainerName name), r)
      else
        (let name = slash_name name
         in case Registrar_Reserve name i r of
              (None, r') \<Rightarrow> (Inr name, r')
            | (Some err, r') \<Rightarrow>
                if err = ErrNameReserved then
                  (case Registrar_Get name r' of
                     Inl e \<Rightarrow> (Inl (NameIndexError e), r')
                   | Inr k \<Rightarrow> (Inl (NameConflict name k), r'))
                else (Inl (NameIndexError err), r')))"

definition releaseName :: "string \<Rightarrow> registrar \<Rightarrow> registrar" where
  "releaseName name r = Registrar_Release name r"

text \<open>
  \<open>rname i\<close> is the name the generator returns for the \<open>i\<close>-th attempt. \<open>try_names\<close> is the loop, over the
  attempts that are left.
\<close>

fun try_names :: "(nat \<Rightarrow> string) \<Rightarrow> string \<Rightarrow> nat list \<Rightarrow> registrar \<Rightarrow> (registrar_error + string) option \<times> registrar" where
  "try_names rname i [] r = (None, r)"
| "try_names rname i (k # ks) r =
     (case Registrar_Reserve (slash_name (rname k)) i r of
        (None, r') \<Rightarrow> (Some (Inr (slash_name (rname k))), r')
      | (Some err, r') \<Rightarrow>
          if err = ErrNameReserved then try_names rname i ks r' else (Some (Inl err), r'))"

definition generateNewName :: "(nat \<Rightarrow> string) \<Rightarrow> string \<Rightarrow> registrar \<Rightarrow> (daemon_error + string) \<times> registrar" where
  "generateNewName rname i r =
     (case try_names rname i [0..<6] r of
        (Some (Inr name), r') \<Rightarrow> (Inr name, r')
      | (Some (Inl err), r') \<Rightarrow> (Inl (NameIndexError err), r')
      | (None, r') \<Rightarrow>
          (let name = CHR ''/'' # TruncateID i
           in case Registrar_Reserve name i r' of
                (Some err, r'') \<Rightarrow> (Inl (NameIndexError err), r'')
              | (None, r'') \<Rightarrow> (Inr name, r'')))"

text \<open>\<open>i\<close> is the fresh random identifier.\<close>

definition generateIDAndName :: "(nat \<Rightarrow> string) \<Rightarrow> string \<Rightarrow> string \<Rightarrow> registrar
    \<Rightarrow> (daemon_error + string \<times> string) \<times> registrar" where
  "generateIDAndName rname i name r =
     (case (if name = [] then generateNewName rname i r else reserveName i name r) of
        (Inl err, r') \<Rightarrow> (Inl err, r')
      | (Inr name', r') \<Rightarrow> (Inr (i, name'), r'))"

text \<open>
  Saving a container writes two files, the configuration through an atomic writer that its deferred
  \<^verbatim>\<open>Close\<close> commits, then the host configuration. An error may therefore leave the new configuration
  on disk; and since the error of the deferred \<^verbatim>\<open>Close\<close> is dropped, a commit that fails goes unreported.
  \<open>d_disk\<close> records the name in the stored configuration.
\<close>

datatype disk_outcome = DiskOK | DiskUnwritten | DiskWrittenThenError | DiskCommitLost

definition ToDisk :: "disk_outcome \<Rightarrow> container \<Rightarrow> 't daemon \<Rightarrow> daemon_error option \<times> 't daemon" where
  "ToDisk out c d =
     (let d' = d\<lparr>d_disk := fmupd (c_ID c) (c_Name c) (d_disk d)\<rparr>
      in case out of DiskOK \<Rightarrow> (None, d') | DiskUnwritten \<Rightarrow> (Some DiskError, d) | DiskWrittenThenError \<Rightarrow> (Some DiskError, d')
         | DiskCommitLost \<Rightarrow> (None, d))"

definition registerName :: "'t trie_ops \<Rightarrow> (nat \<Rightarrow> string) \<Rightarrow> disk_outcome \<Rightarrow> container \<Rightarrow> 't daemon
    \<Rightarrow> daemon_error option \<times> container \<times> 't daemon" where
  "registerName ops rname out c d =
     (if Exists ops (c_ID c) d then (Some AlreadyLoaded, c, d)
      else (case validateID (c_ID c) of
        Some err \<Rightarrow> (Some err, c, d)
      | None \<Rightarrow>
         let (err, c', d') =
           (if c_Name c = [] then
              (case generateNewName rname (c_ID c) (d_nameIndex d) of
                 (Inl err, r) \<Rightarrow> (Some err, c, d\<lparr>d_nameIndex := r\<rparr>)
               | (Inr name, r) \<Rightarrow>
                   let c' = c\<lparr>c_Name := name\<rparr> in (None, c', snd (ToDisk out c' (d\<lparr>d_nameIndex := r\<rparr>))))
            else (None, c, d))
         in case err of
              Some e \<Rightarrow> (Some e, c', d')
            | None \<Rightarrow> (case Registrar_Reserve (c_Name c') (c_ID c') (d_nameIndex d') of
                         (e, r) \<Rightarrow> (map_option NameIndexError e, c', d'\<lparr>d_nameIndex := r\<rparr>))))"

section \<open>Renaming\<close>

text \<open>
  The environment of a rename: the outcomes of the two saves, whether there is a network controller,
  and whether it finds and renames the sandbox.
\<close>

record rename_env =
  re_disk :: disk_outcome
  re_disk_rollback :: disk_outcome
  re_netController :: bool
  re_SandboxByID :: bool
  re_sb_Rename :: bool

text \<open>The two deferred functions, run in reverse order when an error is set.\<close>

definition rename_defer1 :: "container \<Rightarrow> string \<Rightarrow> string \<Rightarrow> bool \<Rightarrow> 't daemon \<Rightarrow> 't daemon" where
  "rename_defer1 c oldName newName oldAnon d =
     (let d = write_container (c\<lparr>c_Name := oldName, c_IsAnonymousEndpoint := oldAnon\<rparr>) d;
          d = d\<lparr>d_nameIndex := snd (reserveName (c_ID c) oldName (d_nameIndex d))\<rparr>
      in d\<lparr>d_nameIndex := releaseName newName (d_nameIndex d)\<rparr>)"

definition rename_defer2 :: "disk_outcome \<Rightarrow> container \<Rightarrow> string \<Rightarrow> bool \<Rightarrow> 't daemon \<Rightarrow> 't daemon" where
  "rename_defer2 out c oldName oldAnon d =
     (let c' = c\<lparr>c_Name := oldName, c_IsAnonymousEndpoint := oldAnon\<rparr>
      in snd (ToDisk out c' (write_container c' d)))"

definition rename_network :: "rename_env \<Rightarrow> daemon_error option" where
  "rename_network env =
     (if re_netController env then
        if \<not> re_SandboxByID env then Some SandboxError
        else if \<not> re_sb_Rename env then Some SandboxError else None
      else None)"

text \<open>The rest of the handler once the new name is reserved, in the name index \<open>r\<close>.\<close>

definition rename_reserved :: "rename_env \<Rightarrow> container \<Rightarrow> string \<Rightarrow> registrar \<Rightarrow> 't daemon
    \<Rightarrow> daemon_error option \<times> 't daemon" where
  "rename_reserved env c newName r d =
     (let oldName = c_Name c; oldAnon = c_IsAnonymousEndpoint c;
          c1 = c\<lparr>c_Name := newName, c_IsAnonymousEndpoint := False\<rparr>;
          d1 = write_container c1 (d\<lparr>d_nameIndex := r\<rparr>);
          d2 = d1\<lparr>d_nameIndex := releaseName oldName (d_nameIndex d1)\<rparr>
      in case ToDisk (re_disk env) c1 d2 of
           (Some err, d3) \<Rightarrow> (Some err, rename_defer1 c1 oldName newName oldAnon d3)
         | (None, d3) \<Rightarrow>
             if \<not> Running (c_State c1) then (None, d3)
             else (case rename_network env of
                     None \<Rightarrow> (None, d3)
                   | Some err \<Rightarrow>
                       (Some err, rename_defer1 c1 oldName newName oldAnon
                         (rename_defer2 (re_disk_rollback env) c1 oldName oldAnon d3))))"

definition ContainerRename :: "'t trie_ops \<Rightarrow> rename_env \<Rightarrow> string \<Rightarrow> string \<Rightarrow> 't daemon
    \<Rightarrow> daemon_error option \<times> 't daemon" where
  "ContainerRename ops env oldName newName d =
     (if oldName = [] \<or> newName = [] then (Some EmptyRenameName, d)
      else
        (let newName = slash_name newName
         in case GetContainer ops oldName d of
              Inl err \<Rightarrow> (Some err, d)
            | Inr None \<Rightarrow> (Some NilDereference, d)
            | Inr (Some c) \<Rightarrow>
                if c_Name c = newName then (Some SameNameRename, d)
                else (case reserveName (c_ID c) newName (d_nameIndex d) of
                        (Inl err, r) \<Rightarrow> (Some (AllocatingName err), d\<lparr>d_nameIndex := r\<rparr>)
                      | (Inr newName, r) \<Rightarrow> rename_reserved env c newName r d)))"

section \<open>Links and removal\<close>

definition registerLink :: "container \<Rightarrow> container \<Rightarrow> string \<Rightarrow> 't daemon \<Rightarrow> daemon_error option \<times> 't daemon" where
  "registerLink parent child alias d =
     (let fullName = path_join (c_Name parent) alias
      in case Registrar_Reserve fullName (c_ID child) (d_nameIndex d) of
           (Some err, r) \<Rightarrow>
             if err = ErrNameReserved then (None, d\<lparr>d_nameIndex := r\<rparr>)
             else (Some (NameIndexError err), d\<lparr>d_nameIndex := r\<rparr>)
         | (None, r) \<Rightarrow>
             (None, d\<lparr>d_nameIndex := r, d_linkIndex := linkIndex_link (c_ID parent) (c_ID child) fullName (d_linkIndex d)\<rparr>))"

text \<open>\<open>strings.TrimSuffix(parent, "/")\<close> on the directory part, which ends in a slash.\<close>

definition trim_slash :: "string \<Rightarrow> string" where
  "trim_slash s = (if s \<noteq> [] \<and> last s = CHR ''/'' then butlast s else s)"

definition rmLink :: "'t trie_ops \<Rightarrow> container \<Rightarrow> string \<Rightarrow> 't daemon \<Rightarrow> daemon_error option \<times> 't daemon" where
  "rmLink ops c name d =
     (let name = slash_name name; (parent, n) = path_split name
      in if parent = ''/'' then (Some DefaultNameConflict, d)
         else
           (let parent = trim_slash parent
            in case Registrar_Get parent (d_nameIndex d) of
                 Inl _ \<Rightarrow> (Some (NoParent parent name), d)
               | Inr pe \<Rightarrow>
                   (let d = d\<lparr>d_nameIndex := releaseName name (d_nameIndex d)\<rparr>
                    in case GetContainer ops pe d of
                         Inr (Some parentContainer) \<Rightarrow>
                           (None, d\<lparr>d_linkIndex := linkIndex_unlink name (c_ID c) (c_ID parentContainer) (d_linkIndex d)\<rparr>)
                       | _ \<Rightarrow> (None, d))))"

text \<open>
  The environment of a removal: what killing and stopping do to the run state, the save's outcome,
  whether the files could be removed, and what releasing the writable layer returned.
\<close>

datatype release_outcome = ReleaseOK | ReleaseNoMount | ReleaseFailed

record rm_env =
  rm_Kill :: "State \<Rightarrow> bool \<times> State"
  rm_containerStop :: "State \<Rightarrow> bool \<times> State"
  rm_disk :: disk_outcome
  rm_RemoveAll :: bool
  rm_ReleaseRWLayer :: release_outcome

definition unregister_container :: "'t trie_ops \<Rightarrow> container \<Rightarrow> 't daemon \<Rightarrow> 't daemon" where
  "unregister_container ops c d =
     d\<lparr>d_nameIndex := Registrar_Delete (c_ID c) (d_nameIndex d),
       d_linkIndex := linkIndex_delete (c_ID c) (d_linkIndex d),
       d_idIndex := snd (TruncIndex_Delete ops (c_ID c) (d_idIndex d)),
       d_containers := memoryStore_Delete (c_ID c) (d_containers d)\<rparr>"

text \<open>Removing the files and the writable layer, after which the deferred function runs.\<close>

definition remove_storage :: "rm_env \<Rightarrow> container \<Rightarrow> daemon_error option" where
  "remove_storage env c =
     (if \<not> rm_RemoveAll env then Some (RemoveAllFailed (c_ID c))
      else if c_RWLayer c \<and> rm_ReleaseRWLayer env = ReleaseFailed then Some (DriverRemoveFailed (c_ID c))
      else None)"

definition cleanupContainer :: "'t trie_ops \<Rightarrow> rm_env \<Rightarrow> container \<Rightarrow> bool \<Rightarrow> 't daemon
    \<Rightarrow> daemon_error option \<times> container \<times> 't daemon" where
  "cleanupContainer ops env c forceRemove d =
     (if IsRunning (c_State c) \<and> \<not> forceRemove then (Some (RunningConflict (c_ID c)), c, d)
      else
        (let (killed, s1) = (if IsRunning (c_State c) then rm_Kill env (c_State c) else (True, c_State c));
             c1 = c\<lparr>c_State := s1\<rparr>; d1 = write_container c1 d
         in if \<not> killed then (Some (KillFailed (c_ID c)), c1, d1)
            else
              (let (stopped, s2) = rm_containerStop env s1; c2 = c\<lparr>c_State := s2\<rparr>; d2 = write_container c2 d1
               in if \<not> stopped then (Some StopFailed, c2, d2)
                  else
                    (let c3 = c\<lparr>c_State := SetDead s2\<rparr>;
                         d3 = snd (ToDisk (rm_disk env) c3 (write_container c3 d2));
                         err = remove_storage env c3
                     in if err = None \<or> forceRemove then (err, c3, unregister_container ops c3 d3)
                        else (err, c3, d3)))))"

definition ContainerRm :: "'t trie_ops \<Rightarrow> rm_env \<Rightarrow> string \<Rightarrow> bool \<Rightarrow> bool \<Rightarrow> 't daemon
    \<Rightarrow> daemon_error option \<times> 't daemon" where
  "ContainerRm ops env name forceRemove removeLink d =
     (case GetContainer ops name d of
        Inl err \<Rightarrow> (Some err, d)
      | Inr None \<Rightarrow> (Some NilDereference, d)
      | Inr (Some c) \<Rightarrow>
          (let (inProgress, s) = SetRemovalInProgress (c_State c); c1 = c\<lparr>c_State := s\<rparr>; d1 = write_container c1 d
           in if inProgress then (None, d1)
              else if memoryStore_Get (c_ID c1) (d_containers d1) = None then (None, d1)
              else if removeLink then
                (case rmLink ops c1 name d1 of (err, d2) \<Rightarrow>
                   (err, write_container (c1\<lparr>c_State := ResetRemovalInProgress (c_State c1)\<rparr>) d2))
              else
                (case cleanupContainer ops env c1 forceRemove d1 of (err, c2, d2) \<Rightarrow>
                   (err, write_container (c2\<lparr>c_State := ResetRemovalInProgress (c_State c2)\<rparr>) d2))))"

section \<open>Effects on the owner map\<close>

text \<open>The form of a container's own name: one slash, in front.\<close>

definition plain_name :: "string \<Rightarrow> bool" where
  "plain_name n = (case n of c # m \<Rightarrow> c = CHR ''/'' \<and> matches_restricted m | [] \<Rightarrow> False)"

lemma is_name_char_slash: "\<not> is_name_char CHR ''/''"
  by (simp add: is_name_char_def char_classes)

lemma matches_restricted_slash: "matches_restricted m \<Longrightarrow> CHR ''/'' \<notin> set m"
  using is_name_char_slash
  by (auto simp: matches_restricted_def is_name_char_def list_all_iff split: list.splits)

lemma plain_name_slash: "RestrictedNamePattern n \<Longrightarrow> plain_name (slash_name n)"
  using matches_restricted_slash [of n]
  by (auto simp: RestrictedNamePattern_def plain_name_def slash_name_def matches_restricted_def
      split: list.splits if_splits)

lemma plain_name_id: "plain_name n \<Longrightarrow> slash_name n = n \<and> RestrictedNamePattern n \<and> n \<noteq> []"
  by (auto simp: RestrictedNamePattern_def plain_name_def slash_name_def split: list.splits)

lemma plain_name_split: "plain_name n \<Longrightarrow> fst (path_split n) = ''/''"
  using path_split_plain [of "tl n" "[]"] matches_restricted_slash [of "tl n"]
  by (auto simp: plain_name_def split: list.splits)

lemma slash_name_idem [simp]: "slash_name (slash_name n) = slash_name n"
  by (simp add: slash_name_def split: list.splits)

lemma reserveName_cases:
  obtains (ok) "reserveName i n r = (Inr (slash_name n), snd (Registrar_Reserve (slash_name n) i r))"
      "RestrictedNamePattern n" "fst (Registrar_Reserve (slash_name n) i r) = None"
    | (invalid) "reserveName i n r = (Inl (InvalidContainerName n), r)" "\<not> RestrictedNamePattern n"
    | (conflict) k where "reserveName i n r = (Inl (NameConflict (slash_name n) k), r)"
      "RestrictedNamePattern n" "reg_owner r (slash_name n) = Some k" "k \<noteq> i"
proof (cases "RestrictedNamePattern n")
  case True
  show thesis
  proof (cases "fst (Registrar_Reserve (slash_name n) i r) = None")
    case free: True
    then have "reserveName i n r = (Inr (slash_name n), snd (Registrar_Reserve (slash_name n) i r))"
      using True by (cases "Registrar_Reserve (slash_name n) i r") (simp add: reserveName_def Let_def)
    then show thesis using True free by (rule ok)
  next
    case False
    from reg_names.reserve_fail [OF this] obtain k where
      k: "Registrar_Reserve (slash_name n) i r = (Some ErrNameReserved, r)"
        "reg_owner r (slash_name n) = Some k" "k \<noteq> i" by blast
    then have "Registrar_Get (slash_name n) r = Inr k" by (simp add: Registrar_Get_owner)
    then have "reserveName i n r = (Inl (NameConflict (slash_name n) k), r)"
      using True k by (simp add: reserveName_def Let_def)
    then show thesis using True k(2,3) by (rule conflict)
  qed
qed (auto intro: invalid simp: reserveName_def)

lemma reserveName_ok:
  assumes "reserveName i n r = (Inr n', r')" and "registrar_inv r"
  shows "n' = slash_name n \<and> plain_name n' \<and> registrar_inv r' \<and> reg_owner r n' \<in> {None, Some i} \<and>
    reg_owner r' = (reg_owner r)(n' \<mapsto> i)"
  using assms reg_names.reserve_ok_iff [of "slash_name n" i r]
  by (cases rule: reserveName_cases [of i n r])
    (auto intro: registrar_inv_Reserve plain_name_slash reg_names.owner_reserve_ok)

lemma reserveName_fail: "reserveName i n r = (Inl e, r') \<Longrightarrow> r' = r"
  by (cases rule: reserveName_cases [of i n r]) auto

lemma reserveName_free:
  assumes "plain_name n" and "reg_owner r n = None"
  shows "reserveName i n r = (Inr n, snd (Registrar_Reserve n i r))"
  using assms plain_name_id [OF assms(1)] reg_names.reserve_ok_iff [of n i r]
  by (cases rule: reserveName_cases [of i n r]) auto

lemma try_names_result:
  "try_names rname i ks r = (res, r') \<Longrightarrow> case res of
     None \<Rightarrow> r' = r \<and> (\<forall>k\<in>set ks. reg_owner r (slash_name (rname k)) \<notin> {None, Some i})
   | Some (Inr n) \<Rightarrow> (\<exists>k\<in>set ks. n = slash_name (rname k)) \<and> Registrar_Reserve n i r = (None, r')
   | Some (Inl _) \<Rightarrow> False"
proof (induction ks arbitrary: r)
  case (Cons k ks)
  show ?case
  proof (cases "fst (Registrar_Reserve (slash_name (rname k)) i r) = None")
    case True
    with Cons.prems show ?thesis by (auto split: prod.splits option.splits)
  next
    case False
    from reg_names.reserve_fail [OF this] Cons show ?thesis
      by (fastforce split: option.splits sum.splits)
  qed
qed simp

text \<open>
  The generated name, or the identifier's short form when all six attempts are taken; the error is
  left when the short form is taken too.
\<close>

lemma generateNewName_ok:
  assumes "generateNewName rname i r = (Inr n, r')"
  shows "n \<in> slash_name ` rname ` {0..<6} \<union> {CHR ''/'' # TruncateID i} \<and> Registrar_Reserve n i r = (None, r')"
  using assms try_names_result [of rname i "[0..<6]" r]
  by (auto simp: generateNewName_def Let_def split: prod.splits option.splits sum.splits)

lemma generateNewName_fail:
  assumes "generateNewName rname i r = (Inl e, r')"
  shows "r' = r \<and> e = NameIndexError ErrNameReserved \<and> reg_owner r (CHR ''/'' # TruncateID i) \<notin> {None, Some i} \<and>
    (\<forall>k<6. reg_owner r (slash_name (rname k)) \<notin> {None, Some i})"
proof (cases "try_names rname i [0..<6] r")
  case (Pair res r1)
  from try_names_result [OF this] assms Pair have res: "res = None" "r1 = r"
      "\<forall>k<6. reg_owner r (slash_name (rname k)) \<notin> {None, Some i}"
    by (auto simp: generateNewName_def split: option.splits sum.splits)
  then have "fst (Registrar_Reserve (CHR ''/'' # TruncateID i) i r) \<noteq> None"
    using assms Pair by (auto simp: generateNewName_def Let_def split: prod.splits option.splits)
  from reg_names.reserve_fail [OF this] res assms Pair show ?thesis
    by (auto simp: generateNewName_def Let_def)
qed

section \<open>The indexes agree\<close>

definition daemon_inv :: "('t \<Rightarrow> bool) \<Rightarrow> ('t \<Rightarrow> string fset) \<Rightarrow> 't daemon \<Rightarrow> bool" where
  "daemon_inv valid keys d \<longleftrightarrow>
     registrar_inv (d_nameIndex d) \<and> trunc_inv valid keys (d_idIndex d) \<and>
     ti_ids (d_idIndex d) = fmdom (d_containers d) \<and>
     (\<forall>i c. fmlookup (d_containers d) i = Some c \<longrightarrow>
        c_ID c = i \<and> reg_owner (d_nameIndex d) (c_Name c) = Some i \<and> plain_name (c_Name c))"

lemma daemon_inv_parts:
  assumes "daemon_inv valid keys d"
  shows "registrar_inv (d_nameIndex d)" and "trunc_inv valid keys (d_idIndex d)"
    and "ti_ids (d_idIndex d) = fmdom (d_containers d)"
  using assms by (simp_all add: daemon_inv_def)

lemma daemon_inv_container:
  assumes "daemon_inv valid keys d" and "fmlookup (d_containers d) i = Some c"
  shows "c_ID c = i" and "reg_owner (d_nameIndex d) (c_Name c) = Some i" and "plain_name (c_Name c)"
  using assms by (simp_all add: daemon_inv_def)

text \<open>A change of the name index keeps the invariant when each container keeps its own name.\<close>

lemma daemon_inv_names:
  assumes "daemon_inv valid keys d" and "registrar_inv r"
    and "\<And>i c. fmlookup (d_containers d) i = Some c \<Longrightarrow> reg_owner r (c_Name c) = Some i"
  shows "daemon_inv valid keys (d\<lparr>d_nameIndex := r\<rparr>)"
  using assms by (simp add: daemon_inv_def)

lemma daemon_inv_names_grow:
  assumes "daemon_inv valid keys d" and "registrar_inv r"
    and "reg_owner (d_nameIndex d) n \<in> {None, Some i}" and "reg_owner r = (reg_owner (d_nameIndex d))(n \<mapsto> i)"
  shows "daemon_inv valid keys (d\<lparr>d_nameIndex := r\<rparr>)"
  using assms(1,2)
proof (rule daemon_inv_names)
  fix j c
  assume "fmlookup (d_containers d) j = Some c"
  from daemon_inv_container(2) [OF assms(1) this] assms(3,4)
  show "reg_owner r (c_Name c) = Some j" by auto
qed

lemma daemon_inv_frame [simp]:
  "daemon_inv valid keys (d\<lparr>d_linkIndex := l\<rparr>) = daemon_inv valid keys d"
  "daemon_inv valid keys (d\<lparr>d_disk := k\<rparr>) = daemon_inv valid keys d"
  by (simp_all add: daemon_inv_def)

lemma ToDisk_frame [simp]:
  "d_containers (snd (ToDisk out c d)) = d_containers d"
  "d_idIndex (snd (ToDisk out c d)) = d_idIndex d"
  "d_nameIndex (snd (ToDisk out c d)) = d_nameIndex d"
  "d_linkIndex (snd (ToDisk out c d)) = d_linkIndex d"
  "daemon_inv valid keys (snd (ToDisk out c d)) = daemon_inv valid keys d"
  by (simp_all add: ToDisk_def Let_def split: disk_outcome.splits)

lemma write_container_frame [simp]:
  "d_idIndex (write_container c d) = d_idIndex d" "d_nameIndex (write_container c d) = d_nameIndex d"
  "d_linkIndex (write_container c d) = d_linkIndex d" "d_disk (write_container c d) = d_disk d"
  by (simp_all add: write_container_def split: option.splits)

lemma write_container_stored:
  "fmlookup (d_containers d) (c_ID c) = Some c0 \<Longrightarrow>
     write_container c d = d\<lparr>d_containers := fmupd (c_ID c) c (d_containers d)\<rparr>"
  by (simp add: write_container_def)

text \<open>Writing a container whose name it owns keeps the invariant.\<close>

lemma daemon_inv_write:
  assumes inv: "daemon_inv valid keys d" and own: "reg_owner (d_nameIndex d) (c_Name c) = Some (c_ID c)"
    and plain: "plain_name (c_Name c)"
  shows "daemon_inv valid keys (write_container c d)"
proof (cases "fmlookup (d_containers d) (c_ID c)")
  case None
  with inv show ?thesis by (simp add: write_container_def)
next
  case (Some c0)
  then have "c_ID c |\<in>| fmdom (d_containers d)" by (rule fmdomI)
  then show ?thesis
    unfolding write_container_stored [OF Some] using inv own plain
    by (simp add: daemon_inv_def finsert_absorb)
qed

text \<open>Writing another run state through a stored pointer.\<close>

lemma daemon_inv_write_state:
  assumes inv: "daemon_inv valid keys d" and c: "fmlookup (d_containers d) (c_ID c) = Some c0"
    and "c_Name c' = c_Name c0" "c_ID c' = c_ID c"
  shows "daemon_inv valid keys (write_container c' d)"
  using daemon_inv_container [OF inv c] assms(3,4) by (intro daemon_inv_write [OF inv]) simp_all

section \<open>Lookups\<close>

lemma GetByName_found:
  "GetByName n d = Inr c \<longleftrightarrow> n \<noteq> [] \<and> (\<exists>i. reg_owner (d_nameIndex d) (slash_name n) = Some i \<and>
     fmlookup (d_containers d) i = Some c)"
  by (auto simp: GetByName_def memoryStore_Get_def Registrar_Get_def reg_owner_def split: option.splits)

lemma GetContainer_by_id:
  assumes "daemon_inv valid keys d" and "fmlookup (d_containers d) i = Some c"
  shows "GetContainer ops i d = Inr (Some c)"
proof -
  have "i |\<in>| ti_ids (d_idIndex d)"
    using assms daemon_inv_parts(3) [OF assms(1)] by (simp add: fmdomI)
  then have "i \<noteq> []" using daemon_inv_parts(2) [OF assms(1)] by (auto simp: trunc_inv_def)
  then show ?thesis using assms(2) by (simp add: GetContainer_def memoryStore_Get_def)
qed

lemma GetContainer_result:
  assumes c: "trie_contract ops valid keys" and inv: "daemon_inv valid keys d"
    and "GetContainer ops s d = Inr x"
  shows "\<exists>c. x = Some c \<and> fmlookup (d_containers d) (c_ID c) = Some c"
proof -
  have stored: "fmlookup (d_containers d) (c_ID k) = Some k" if "fmlookup (d_containers d) i = Some k" for i k
    using that daemon_inv_container(1) [OF inv that] by simp
  consider (id) k where "x = Some k" "fmlookup (d_containers d) s = Some k"
    | (name) k where "x = Some k" "GetByName s d = Inr k"
    | (pre) i where "TruncIndex_Get ops s (d_idIndex d) = Inr i" "x = fmlookup (d_containers d) i"
    using assms(3) by (auto simp: GetContainer_def memoryStore_Get_def split: if_splits option.splits sum.splits) metis
  then show ?thesis
  proof cases
    case pre
    then have "i \<in> matching s (d_idIndex d)"
      using TruncIndex_Get_found [OF c daemon_inv_parts(2) [OF inv]] by blast
    then have "i |\<in>| fmdom (d_containers d)"
      using daemon_inv_parts(3) [OF inv] by (simp add: matching_def)
    then show ?thesis using pre(2) by (auto simp: fmlookup_dom_iff stored)
  qed (auto simp: GetByName_found stored)
qed

section \<open>Renaming, case by case\<close>

lemma release_then_owner:
  assumes "registrar_inv r"
  shows "reg_owner (releaseName n r) = (reg_owner r)(n := None) \<and> registrar_inv (releaseName n r)"
  using assms reg_owner_Release registrar_inv_Release by (simp add: releaseName_def)

lemma rename_defer1_effect:
  assumes inv: "registrar_inv (d_nameIndex d)" and st: "fmlookup (d_containers d) (c_ID c) = Some c0"
    and old: "plain_name old" "reg_owner (d_nameIndex d) old = None" and "old \<noteq> new"
    and d'_def: "d' = rename_defer1 c old new anon d"
  shows "d_containers d' = fmupd (c_ID c) (c\<lparr>c_Name := old, c_IsAnonymousEndpoint := anon\<rparr>) (d_containers d)"
    and "d_idIndex d' = d_idIndex d" and "d_linkIndex d' = d_linkIndex d" and "d_disk d' = d_disk d"
    and "registrar_inv (d_nameIndex d')"
    and "reg_owner (d_nameIndex d') = (reg_owner (d_nameIndex d))(old \<mapsto> c_ID c, new := None)"
proof -
  let ?r = "snd (Registrar_Reserve old (c_ID c) (d_nameIndex d))"
  have ok: "reserveName (c_ID c) old (d_nameIndex d) = (Inr old, ?r)"
    using reserveName_free [OF old] .
  have r: "registrar_inv ?r" "reg_owner ?r = (reg_owner (d_nameIndex d))(old \<mapsto> c_ID c)"
    using reserveName_ok [OF ok inv] by simp_all
  have d': "d' = d\<lparr>d_containers := fmupd (c_ID c) (c\<lparr>c_Name := old, c_IsAnonymousEndpoint := anon\<rparr>) (d_containers d),
      d_nameIndex := releaseName new ?r\<rparr>"
    using st ok by (simp add: d'_def rename_defer1_def Let_def write_container_def)
  show "d_containers d' = fmupd (c_ID c) (c\<lparr>c_Name := old, c_IsAnonymousEndpoint := anon\<rparr>) (d_containers d)"
    "d_idIndex d' = d_idIndex d" "d_linkIndex d' = d_linkIndex d" "d_disk d' = d_disk d"
    by (simp_all add: d')
  show "registrar_inv (d_nameIndex d')"
    "reg_owner (d_nameIndex d') = (reg_owner (d_nameIndex d))(old \<mapsto> c_ID c, new := None)"
    using release_then_owner [OF r(1), of new] r(2) by (simp_all add: d')
qed

text \<open>What a rename did: nothing, the change of name, or the change and its rollback.\<close>

definition renamed :: "'t daemon \<Rightarrow> container \<Rightarrow> string \<Rightarrow> 't daemon \<Rightarrow> bool" where
  "renamed d c n d' \<longleftrightarrow>
     d_containers d' = fmupd (c_ID c) (c\<lparr>c_Name := n, c_IsAnonymousEndpoint := False\<rparr>) (d_containers d) \<and>
     d_idIndex d' = d_idIndex d \<and> d_linkIndex d' = d_linkIndex d \<and> registrar_inv (d_nameIndex d') \<and>
     reg_owner (d_nameIndex d') = (reg_owner (d_nameIndex d))(n \<mapsto> c_ID c, c_Name c := None)"

definition rolled_back :: "'t daemon \<Rightarrow> string \<Rightarrow> 't daemon \<Rightarrow> bool" where
  "rolled_back d n d' \<longleftrightarrow>
     d_containers d' = d_containers d \<and> d_idIndex d' = d_idIndex d \<and> d_linkIndex d' = d_linkIndex d \<and>
     registrar_inv (d_nameIndex d') \<and> reg_owner (d_nameIndex d') = (reg_owner (d_nameIndex d))(n := None)"

lemma renamed_inv:
  assumes inv: "daemon_inv valid keys d" and c: "fmlookup (d_containers d) (c_ID c) = Some c"
    and n: "plain_name n" "n \<noteq> c_Name c" "reg_owner (d_nameIndex d) n \<in> {None, Some (c_ID c)}"
    and "renamed d c n d'"
  shows "daemon_inv valid keys d'"
proof -
  have "fmdom (fmupd (c_ID c) (c\<lparr>c_Name := n, c_IsAnonymousEndpoint := False\<rparr>) (d_containers d)) = fmdom (d_containers d)"
    using c by (simp add: finsert_absorb fmdomI)
  moreover have "c_Name k \<noteq> c_Name c \<and> c_Name k \<noteq> n" if "fmlookup (d_containers d) i = Some k" "i \<noteq> c_ID c" for i k
    using daemon_inv_container(2) [OF inv that(1)] daemon_inv_container(2) [OF inv c] n(3) that(2) by auto
  ultimately show ?thesis
    using inv n(1,2) assms(6) by (auto simp: daemon_inv_def renamed_def)
qed

lemma rolled_back_inv:
  assumes inv: "daemon_inv valid keys d" and n: "\<And>i k. fmlookup (d_containers d) i = Some k \<Longrightarrow> c_Name k \<noteq> n"
    and "rolled_back d n d'"
  shows "daemon_inv valid keys d'"
  using assms by (auto simp: daemon_inv_def rolled_back_def)

lemma rename_reserved_effect:
  assumes inv: "daemon_inv valid keys d" and c: "fmlookup (d_containers d) (c_ID c) = Some c"
    and r: "registrar_inv r" "reg_owner r = (reg_owner (d_nameIndex d))(n \<mapsto> c_ID c)" and n: "n \<noteq> c_Name c"
    and res: "rename_reserved env c n r d = (e, d')"
  shows "if e = None then renamed d c n d' else rolled_back d n d'"
proof -
  let ?c1 = "c\<lparr>c_Name := n, c_IsAnonymousEndpoint := False\<rparr>"
  define d2 where "d2 = d\<lparr>d_containers := fmupd (c_ID c) ?c1 (d_containers d), d_nameIndex := releaseName (c_Name c) r\<rparr>"
  have w: "write_container ?c1 (d\<lparr>d_nameIndex := r\<rparr>) = d\<lparr>d_nameIndex := r, d_containers := fmupd (c_ID c) ?c1 (d_containers d)\<rparr>"
    using c by (simp add: write_container_def)
  have rel: "registrar_inv (d_nameIndex d2)" "reg_owner (d_nameIndex d2) = (reg_owner (d_nameIndex d))(n \<mapsto> c_ID c, c_Name c := None)"
    using release_then_owner [OF r(1), of "c_Name c"] r(2) by (simp_all add: d2_def)
  have undo: "rolled_back d n (rename_defer1 ?c1 (c_Name c) n (c_IsAnonymousEndpoint c) d4)"
    if d4: "d_containers d4 = fmupd (c_ID c) k (d_containers d)" "d_nameIndex d4 = d_nameIndex d2"
      "d_idIndex d4 = d_idIndex d" "d_linkIndex d4 = d_linkIndex d" for d4 k
  proof -
    have st: "fmlookup (d_containers d4) (c_ID ?c1) = Some k" using d4(1) by simp
    have own: "plain_name (c_Name c)" "reg_owner (d_nameIndex d4) (c_Name c) = None" "c_Name c \<noteq> n" "registrar_inv (d_nameIndex d4)"
      using daemon_inv_container(3) [OF inv c] rel n d4(2) by simp_all
    note eff = rename_defer1_effect [OF own(4) st own(1,2,3) refl, of "c_IsAnonymousEndpoint c"]
    have "c\<lparr>c_Name := n, c_IsAnonymousEndpoint := False, c_Name := c_Name c, c_IsAnonymousEndpoint := c_IsAnonymousEndpoint c\<rparr> = c"
      by simp
    with eff rel(2) d4 daemon_inv_container(2) [OF inv c] n fmupd_same_lookup [OF c] show ?thesis
      by (simp add: rolled_back_def fun_upd_twist fun_upd_idem fmupd_idem)
  qed
  obtain e3 d3 where d3: "ToDisk (re_disk env) ?c1 d2 = (e3, d3)" by fastforce
  have d3': "d3 = snd (ToDisk (re_disk env) ?c1 d2)" using d3 by simp
  have f: "d_containers d3 = fmupd (c_ID c) ?c1 (d_containers d)" "d_nameIndex d3 = d_nameIndex d2"
      "d_idIndex d3 = d_idIndex d" "d_linkIndex d3 = d_linkIndex d"
    unfolding d3' by (simp_all add: d2_def)
  let ?d4 = "rename_defer2 (re_disk_rollback env) ?c1 (c_Name c) (c_IsAnonymousEndpoint c) d3"
  have g: "d_containers ?d4 = fmupd (c_ID c) c (d_containers d)" "d_nameIndex ?d4 = d_nameIndex d2"
      "d_idIndex ?d4 = d_idIndex d" "d_linkIndex ?d4 = d_linkIndex d"
    using f by (simp_all add: rename_defer2_def Let_def write_container_def)
  have "rename_reserved env c n r d = (case e3 of
       Some err \<Rightarrow> (Some err, rename_defer1 ?c1 (c_Name c) n (c_IsAnonymousEndpoint c) d3)
     | None \<Rightarrow> if \<not> Running (c_State c) then (None, d3) else
         (case rename_network env of None \<Rightarrow> (None, d3)
          | Some err \<Rightarrow> (Some err, rename_defer1 ?c1 (c_Name c) n (c_IsAnonymousEndpoint c) ?d4)))"
    using d3 by (simp add: rename_reserved_def Let_def w d2_def split: option.splits)
  then show ?thesis
    using res undo [OF f] undo [OF g] f rel
    by (auto simp: renamed_def split: option.splits if_splits)
qed

lemma ContainerRename_cases [consumes 3]:
  assumes inv: "daemon_inv valid keys d" and con: "trie_contract ops valid keys"
    and res: "ContainerRename ops env old new d = (e, d')"
  obtains (refused) "e \<noteq> None" "d' = d"
    | (ok) c where "e = None" "GetContainer ops old d = Inr (Some c)" "fmlookup (d_containers d) (c_ID c) = Some c"
      "plain_name (slash_name new)" "slash_name new \<noteq> c_Name c"
      "reg_owner (d_nameIndex d) (slash_name new) \<in> {None, Some (c_ID c)}" "renamed d c (slash_name new) d'"
    | (failed) c where "e \<noteq> None" "fmlookup (d_containers d) (c_ID c) = Some c" "slash_name new \<noteq> c_Name c"
      "reg_owner (d_nameIndex d) (slash_name new) \<in> {None, Some (c_ID c)}" "rolled_back d (slash_name new) d'"
proof (cases "old = [] \<or> new = []")
  case True
  with res show thesis by (intro refused) (auto simp: ContainerRename_def)
next
  case ne: False
  show thesis
  proof (cases "GetContainer ops old d")
    case (Inl err)
    with res ne show thesis by (intro refused) (auto simp: ContainerRename_def Let_def)
  next
    case Inr': (Inr x)
    from GetContainer_result [OF con inv this] obtain c where
      x: "x = Some c" and c: "fmlookup (d_containers d) (c_ID c) = Some c" by blast
    let ?n = "slash_name new" and ?r = "d_nameIndex d"
    show thesis
    proof (cases "c_Name c = ?n")
      case True
      with res ne Inr' x show thesis by (intro refused) (auto simp: ContainerRename_def Let_def)
    next
      case diff: False
      show thesis
      proof (cases "reserveName (c_ID c) ?n ?r")
        case (Pair q r')
        show thesis
        proof (cases q)
          case (Inl err)
          with reserveName_fail Pair have "r' = ?r" by blast
          with res ne Inr' x diff Pair Inl show thesis
            by (intro refused) (auto simp: ContainerRename_def Let_def)
        next
          case (Inr n')
          have reg: "registrar_inv ?r" using daemon_inv_parts(1) [OF inv] .
          have n': "n' = ?n" "plain_name ?n" "registrar_inv r'" "reg_owner ?r ?n \<in> {None, Some (c_ID c)}"
              "reg_owner r' = (reg_owner ?r)(?n \<mapsto> c_ID c)"
            using reserveName_ok [OF Pair [unfolded Inr] reg] by auto
          have "rename_reserved env c ?n r' d = (e, d')"
            using res ne Inr x diff Pair Inr n'(1) Inr' by (simp add: ContainerRename_def Let_def)
          from rename_reserved_effect [OF inv c n'(3,5) diff [symmetric] this] show thesis
            using ok [OF _ Inr' [unfolded x] c n'(2) diff [symmetric] n'(4)] failed [OF _ c diff [symmetric] n'(4)]
            by (cases e) simp_all
        qed
      qed
    qed
  qed
qed

section \<open>Every handler keeps the indexes in agreement\<close>

lemma unregister_ids:
  assumes "trie_contract ops valid keys" and "daemon_inv valid keys d"
  shows "ti_ids (snd (TruncIndex_Delete ops i (d_idIndex d))) = fmdom (d_containers d) |-| {|i|}"
proof (cases "i |\<in>| ti_ids (d_idIndex d)")
  case True
  from TruncIndex_Delete_known [OF assms(1) daemon_inv_parts(2) [OF assms(2)] this] obtain x'
    where "TruncIndex_Delete ops i (d_idIndex d) = (None, x')" "ti_ids x' = ti_ids (d_idIndex d) |-| {|i|}" by blast
  then show ?thesis using daemon_inv_parts(3) [OF assms(2)] by simp
next
  case False
  then have "TruncIndex_Delete ops i (d_idIndex d) = (Some (ErrNoSuchId i), d_idIndex d)"
    by (simp add: TruncIndex_Delete_def)
  with False show ?thesis using daemon_inv_parts(3) [OF assms(2)] by simp
qed

lemma unregister_inv:
  assumes con: "trie_contract ops valid keys" and inv: "daemon_inv valid keys d"
  shows "daemon_inv valid keys (unregister_container ops c d)"
proof -
  have "reg_owner (Registrar_Delete (c_ID c) (d_nameIndex d)) (c_Name k) = Some i"
    if "fmlookup (d_containers d) i = Some k" "i \<noteq> c_ID c" for i k
    using daemon_inv_container(2) [OF inv that(1)] reg_owner_Delete [OF daemon_inv_parts(1) [OF inv], of "c_ID c"] that(2)
    by simp
  then show ?thesis
    using registrar_inv_Delete [OF daemon_inv_parts(1) [OF inv], of "c_ID c"] unregister_ids [OF con inv, of "c_ID c"]
      TruncIndex_Delete_inv [OF con daemon_inv_parts(2) [OF inv], of "c_ID c"] inv
    by (auto simp: daemon_inv_def unregister_container_def memoryStore_Delete_def split: if_splits)
qed

lemma rmLink_effect:
  assumes inv: "daemon_inv valid keys d"
  shows "daemon_inv valid keys (snd (rmLink ops c name d)) \<and> d_containers (snd (rmLink ops c name d)) = d_containers d"
proof -
  have rel: "daemon_inv valid keys (d\<lparr>d_nameIndex := releaseName n (d_nameIndex d)\<rparr>)"
    if "fst (path_split n) \<noteq> ''/''" for n
  proof (rule daemon_inv_names [OF inv])
    note own = release_then_owner [OF daemon_inv_parts(1) [OF inv], of n]
    show "registrar_inv (releaseName n (d_nameIndex d))" using own by blast
    fix i k
    assume k: "fmlookup (d_containers d) i = Some k"
    then have "c_Name k \<noteq> n" using that plain_name_split [OF daemon_inv_container(3) [OF inv k]] by auto
    then show "reg_owner (releaseName n (d_nameIndex d)) (c_Name k) = Some i"
      using own daemon_inv_container(2) [OF inv k] by simp
  qed
  from inv rel [of "slash_name name"] show ?thesis
    by (cases "path_split (slash_name name)")
      (auto simp: rmLink_def Let_def split: sum.splits option.splits)
qed

lemma cleanupContainer_effect:
  assumes con: "trie_contract ops valid keys" and inv: "daemon_inv valid keys d"
    and c: "reg_owner (d_nameIndex d) (c_Name c) = Some (c_ID c)" "plain_name (c_Name c)"
    and res: "cleanupContainer ops env c force d = (e, c', d')"
  shows "daemon_inv valid keys d' \<and> c_Name c' = c_Name c \<and> c_ID c' = c_ID c \<and>
    (d_nameIndex d' = d_nameIndex d \<or> fmlookup (d_containers d') (c_ID c) = None)"
proof -
  have w: "daemon_inv valid keys (write_container (c\<lparr>c_State := s\<rparr>) k)"
    if "daemon_inv valid keys k" "d_nameIndex k = d_nameIndex d" for s k
    using that c by (intro daemon_inv_write) simp_all
  obtain killed s1 where k: "(if IsRunning (c_State c) then rm_Kill env (c_State c) else (True, c_State c)) = (killed, s1)"
    by fastforce
  obtain stopped s2 where s: "rm_containerStop env s1 = (stopped, s2)" by fastforce
  define d1 where "d1 = write_container (c\<lparr>c_State := s1\<rparr>) d"
  define d2 where "d2 = write_container (c\<lparr>c_State := s2\<rparr>) d1"
  define d3 where "d3 = snd (ToDisk (rm_disk env) (c\<lparr>c_State := SetDead s2\<rparr>) (write_container (c\<lparr>c_State := SetDead s2\<rparr>) d2))"
  have i: "daemon_inv valid keys d1" "daemon_inv valid keys d2" "daemon_inv valid keys d3"
    using w inv by (simp_all add: d1_def d2_def d3_def)
  have n: "d_nameIndex d1 = d_nameIndex d" "d_nameIndex d2 = d_nameIndex d" "d_nameIndex d3 = d_nameIndex d"
    by (simp_all add: d1_def d2_def d3_def)
  have gone: "fmlookup (d_containers (unregister_container ops (c\<lparr>c_State := x\<rparr>) k)) (c_ID c) = None" for x k
    by (simp add: unregister_container_def memoryStore_Delete_def)
  show ?thesis
    using res inv i n gone unregister_inv [OF con i(3)]
    by (auto simp: cleanupContainer_def Let_def k s d1_def [symmetric] d2_def [symmetric] d3_def [symmetric]
        split: if_splits)
qed

lemma ContainerRm_inv:
  assumes con: "trie_contract ops valid keys" and inv: "daemon_inv valid keys d"
  shows "daemon_inv valid keys (snd (ContainerRm ops env name force rml d))"
proof (cases "GetContainer ops name d")
  case (Inl err)
  with inv show ?thesis by (simp add: ContainerRm_def)
next
  case (Inr x)
  from GetContainer_result [OF con inv this] obtain c where
    x: "x = Some c" and c: "fmlookup (d_containers d) (c_ID c) = Some c" by blast
  obtain p s where s: "SetRemovalInProgress (c_State c) = (p, s)" by fastforce
  let ?c1 = "c\<lparr>c_State := s\<rparr>" and ?reset = "\<lambda>k. k\<lparr>c_State := ResetRemovalInProgress (c_State k)\<rparr>"
  define d1 where "d1 = write_container ?c1 d"
  have i1: "daemon_inv valid keys d1"
    unfolding d1_def by (rule daemon_inv_write_state [OF inv c]) simp_all
  have c1: "fmlookup (d_containers d1) (c_ID c) = Some ?c1"
    using c by (simp add: d1_def write_container_def)
  have link: "daemon_inv valid keys (write_container (?reset ?c1) d2)" if "rmLink ops ?c1 name d1 = (e, d2)" for e d2
  proof -
    have "daemon_inv valid keys d2" "d_containers d2 = d_containers d1"
      using rmLink_effect [OF i1, of ops ?c1 name] that by simp_all
    then show ?thesis using c1 by (intro daemon_inv_write_state [of valid keys d2 c ?c1]) simp_all
  qed
  have clean: "daemon_inv valid keys (write_container (?reset c2) d2)"
    if "cleanupContainer ops env ?c1 force d1 = (e, c2, d2)" for e c2 d2
  proof -
    note own = daemon_inv_container [OF i1 c1]
    from cleanupContainer_effect [OF con i1 _ _ that] own
    have "daemon_inv valid keys d2" "c_Name c2 = c_Name c" "c_ID c2 = c_ID c"
      "d_nameIndex d2 = d_nameIndex d1 \<or> fmlookup (d_containers d2) (c_ID c) = None" by simp_all
    then show ?thesis
      using own daemon_inv_write [of valid keys d2 "?reset c2"] by (auto simp: write_container_def)
  qed
  show ?thesis
    using Inr x s i1 link clean
    by (auto simp: ContainerRm_def Let_def d1_def [symmetric] split: prod.splits)
qed

lemma Register_inv:
  assumes con: "trie_contract ops valid keys" and inv: "daemon_inv valid keys d"
    and c: "reg_owner (d_nameIndex d) (c_Name c) = Some (c_ID c)" "plain_name (c_Name c)"
    and i: "c_ID c \<noteq> []" "CHR '' '' \<notin> set (c_ID c)"
  shows "daemon_inv valid keys (Register ops c d)"
proof -
  have "ti_ids (snd (TruncIndex_Add ops (c_ID c) (d_idIndex d))) = finsert (c_ID c) (ti_ids (d_idIndex d))"
  proof (cases "c_ID c |\<in>| ti_ids (d_idIndex d)")
    case True
    then show ?thesis using i by (simp add: TruncIndex_Add_eq addID_def finsert_absorb)
  next
    case False
    from addID_fresh [OF con daemon_inv_parts(2) [OF inv] i this] show ?thesis
      by (elim exE conjE) (simp add: TruncIndex_Add_eq)
  qed
  moreover have "trunc_inv valid keys (snd (TruncIndex_Add ops (c_ID c) (d_idIndex d)))"
    using addID_inv [OF con daemon_inv_parts(2) [OF inv]] by (simp add: TruncIndex_Add_eq)
  ultimately show ?thesis
    using inv c by (simp add: daemon_inv_def Register_def Let_def memoryStore_Add_def)
qed

lemma daemon_inv_Reserve:
  assumes inv: "daemon_inv valid keys d"
  shows "daemon_inv valid keys (d\<lparr>d_nameIndex := snd (Registrar_Reserve n i (d_nameIndex d))\<rparr>)"
proof (cases "fst (Registrar_Reserve n i (d_nameIndex d)) = None")
  case True
  show ?thesis
    using True reg_names.reserve_ok_iff [of n i "d_nameIndex d"] reg_names.owner_reserve_ok [OF True]
    by (intro daemon_inv_names_grow [OF inv registrar_inv_Reserve [OF daemon_inv_parts(1) [OF inv]], of n i]) simp_all
next
  case False
  from reg_names.reserve_fail [OF this] inv show ?thesis by simp
qed

lemma generateNewName_snd:
  "snd (generateNewName rname i r) = r \<or> (\<exists>n. snd (generateNewName rname i r) = snd (Registrar_Reserve n i r))"
proof (cases "generateNewName rname i r")
  case (Pair q r')
  show ?thesis
  proof (cases q)
    case (Inl e)
    with Pair generateNewName_fail [of rname i r e r'] show ?thesis by simp
  next
    case (Inr n)
    with Pair generateNewName_ok [of rname i r n r'] have "Registrar_Reserve n i r = (None, r')" by simp
    then have "snd (generateNewName rname i r) = snd (Registrar_Reserve n i r)" using Pair by simp
    then show ?thesis by blast
  qed
qed

lemma reserveName_snd:
  "snd (reserveName i n r) = r \<or> snd (reserveName i n r) = snd (Registrar_Reserve (slash_name n) i r)"
  by (cases rule: reserveName_cases [of i n r]) auto

lemma generateIDAndName_inv:
  assumes inv: "daemon_inv valid keys d"
  shows "daemon_inv valid keys (d\<lparr>d_nameIndex := snd (generateIDAndName rname i n (d_nameIndex d))\<rparr>)"
proof -
  have "snd (generateIDAndName rname i n r) =
      (if n = [] then snd (generateNewName rname i r) else snd (reserveName i n r))" for r
    by (simp add: generateIDAndName_def split: prod.splits sum.splits)
  then show ?thesis
    using inv daemon_inv_Reserve [OF inv] generateNewName_snd [of rname i "d_nameIndex d"]
      reserveName_snd [of i n "d_nameIndex d"] by (cases "n = []") auto
qed

lemma registerLink_inv:
  assumes inv: "daemon_inv valid keys d"
  shows "daemon_inv valid keys (snd (registerLink p c a d))"
  using daemon_inv_Reserve [OF inv, of "path_join (c_Name p) a" "c_ID c"]
  by (cases "Registrar_Reserve (path_join (c_Name p) a) (c_ID c) (d_nameIndex d)")
    (auto simp: registerLink_def Let_def daemon_inv_def split: option.splits)

lemma ContainerRename_inv:
  assumes "trie_contract ops valid keys" and inv: "daemon_inv valid keys d"
  shows "daemon_inv valid keys (snd (ContainerRename ops env old new d))"
proof -
  obtain e d' where res: "ContainerRename ops env old new d = (e, d')" by fastforce
  from inv assms(1) res show ?thesis
  proof (cases rule: ContainerRename_cases)
    case refused
    then show ?thesis using inv res by simp
  next
    case (ok c)
    from renamed_inv [OF inv ok(3-7)] show ?thesis using res by simp
  next
    case (failed c)
    have "c_Name k \<noteq> slash_name new" if "fmlookup (d_containers d) i = Some k" for i k
      using daemon_inv_container(2) [OF inv that] daemon_inv_container(2) [OF inv failed(2)] failed(2,3,4) that by auto
    from rolled_back_inv [OF inv this failed(5)] show ?thesis using res by simp
  qed
qed

section \<open>The daemon's steps\<close>

definition empty_daemon :: "'t trie_ops \<Rightarrow> 't daemon" where
  "empty_daemon ops = \<lparr>d_containers = NewMemoryStore, d_idIndex = NewTruncIndex ops [], d_nameIndex = NewRegistrar,
     d_linkIndex = newLinkIndex, d_disk = fmempty\<rparr>"

text \<open>
  Creating a container allocates its name, then registers it; a rename, a removal, a link and a change of
  a run state may come in any order between.
\<close>

inductive daemon_step :: "'t trie_ops \<Rightarrow> 't daemon \<Rightarrow> 't daemon \<Rightarrow> bool" for ops where
  allocate: "daemon_step ops d (d\<lparr>d_nameIndex := snd (generateIDAndName rname i n (d_nameIndex d))\<rparr>)"
| register: "reg_owner (d_nameIndex d) (c_Name c) = Some (c_ID c) \<Longrightarrow> plain_name (c_Name c) \<Longrightarrow>
    c_ID c \<noteq> [] \<Longrightarrow> CHR '' '' \<notin> set (c_ID c) \<Longrightarrow> daemon_step ops d (Register ops c d)"
| rename: "daemon_step ops d (snd (ContainerRename ops env old new d))"
| remove: "daemon_step ops d (snd (ContainerRm ops renv name force rml d))"
| link: "daemon_step ops d (snd (registerLink p c a d))"
| run_state: "fmlookup (d_containers d) i = Some c \<Longrightarrow> daemon_step ops d (write_container (c\<lparr>c_State := s\<rparr>) d)"

lemma daemon_step_inv:
  assumes "daemon_step ops d d'" and "trie_contract ops valid keys" and "daemon_inv valid keys d"
  shows "daemon_inv valid keys d'"
  using assms
proof (cases rule: daemon_step.cases)
  case (run_state i c s)
  then show ?thesis
    using daemon_inv_container [OF assms(3) run_state(2)] daemon_inv_write [OF assms(3), of "c\<lparr>c_State := s\<rparr>"]
    by simp
qed (use assms in \<open>auto intro: generateIDAndName_inv Register_inv ContainerRename_inv ContainerRm_inv registerLink_inv\<close>)

lemma empty_daemon_inv: "trie_contract ops valid keys \<Longrightarrow> daemon_inv valid keys (empty_daemon ops)"
  using NewTruncIndex_inv [of ops valid keys "[]"] registrar_inv_new
  by (simp add: daemon_inv_def empty_daemon_def NewMemoryStore_def NewTruncIndex_def)

lemma daemon_reachable_inv:
  assumes "trie_contract ops valid keys" and "(daemon_step ops)\<^sup>*\<^sup>* (empty_daemon ops) d"
  shows "daemon_inv valid keys d"
  using assms(2) by (induction rule: rtranclp_induct) (use assms(1) empty_daemon_inv daemon_step_inv in blast)+

section \<open>Properties\<close>

definition demo_container :: "string \<Rightarrow> string \<Rightarrow> container" where
  "demo_container i n = \<lparr>c_ID = i, c_Name = n, c_Created = 0,
     c_State = fst (NewState \<lparr>closed_chans = {||}, fresh_chan = 0\<rparr>),
     c_IsAnonymousEndpoint = False, c_SandboxID = '''', c_RWLayer = True\<rparr>"

definition demo_alloc :: "string list daemon" where
  "demo_alloc = (empty_daemon list_trie)\<lparr>d_nameIndex :=
     snd (generateIDAndName (\<lambda>_. ''x'') ''c1'' ''web'' (d_nameIndex (empty_daemon list_trie)))\<rparr>"

definition demo :: "string list daemon" where
  "demo = Register list_trie (demo_container ''c1'' ''/web'') demo_alloc"

lemma demo_reachable: "(daemon_step list_trie)\<^sup>*\<^sup>* (empty_daemon list_trie) demo"
proof -
  have 1: "daemon_step list_trie (empty_daemon list_trie) demo_alloc"
    unfolding demo_alloc_def by (rule daemon_step.allocate)
  have "reg_owner (d_nameIndex demo_alloc) ''/web'' = Some ''c1''" by code_simp
  moreover have "plain_name ''/web''" by code_simp
  ultimately have "daemon_step list_trie demo_alloc demo"
    unfolding demo_def by (intro daemon_step.register) (simp_all add: demo_container_def)
  with 1 show ?thesis by (meson r_into_rtranclp rtranclp.rtrancl_into_rtrancl)
qed




definition failing_save :: rename_env where
  "failing_save = \<lparr>re_disk = DiskWrittenThenError, re_disk_rollback = DiskOK, re_netController = True,
     re_SandboxByID = True, re_sb_Rename = True\<rparr>"




text \<open>
  \<open>GetContainer\<close> reads the prefix index and then the memory store without a lock over both. Here the
  second read sees a later state \<open>d'\<close>.
\<close>

definition GetContainer_interrupted :: "'t trie_ops \<Rightarrow> string \<Rightarrow> 't daemon \<Rightarrow> 't daemon \<Rightarrow> daemon_error + container option" where
  "GetContainer_interrupted ops s d d' =
     (if s = [] then Inl NoContainerSupplied
      else (case memoryStore_Get s (d_containers d) of
              Some c \<Rightarrow> Inr (Some c)
            | None \<Rightarrow>
                (case GetByName s d of
                   Inr c \<Rightarrow> Inr (Some c)
                 | Inl _ \<Rightarrow>
                     (case TruncIndex_Get ops s (d_idIndex d) of
                        Inl err \<Rightarrow> if err = ErrNotExist then Inl (NoSuchContainer s) else Inl (PrefixError err)
                      | Inr i \<Rightarrow> Inr (memoryStore_Get i (d_containers d'))))))"



text \<open>
  C39. Removing a container leaves the names of its links reserved: after a parent with a link is removed and
  a new container takes its name, linking another child under the same alias reports success and
  changes nothing.
\<close>
theorem stale_link_name_blocks_link:
  assumes "trie_contract ops valid keys" and "(daemon_step ops)\<^sup>*\<^sup>* (empty_daemon ops) d"
    and "Registrar_Get (path_join (c_Name p) a) (d_nameIndex d) = Inl ErrNameNotReserved"
    and "c_ID p \<noteq> c_ID c" "c_ID c' \<noteq> c_ID c" "c_Name p' = c_Name p"
  shows "let d2 = unregister_container ops p (snd (registerLink p c a d))
    in registerLink p' c' a d2 = (None, d2)"
proof -
  let ?n = "path_join (c_Name p) a"
  have inv: "registrar_inv (d_nameIndex d)"
    using daemon_inv_parts(1) [OF daemon_reachable_inv [OF assms(1,2)]] .
  have free: "reg_owner (d_nameIndex d) ?n = None"
    using assms(3) by (simp add: Registrar_Get_def reg_owner_def split: option.splits)
  obtain r where r: "Registrar_Reserve ?n (c_ID c) (d_nameIndex d) = (None, r)" "registrar_inv r"
      "reg_owner r ?n = Some (c_ID c)"
    using reg_names.reserve_free [OF free, of "c_ID c"] registrar_inv_Reserve [OF inv, of ?n "c_ID c"]
    by (cases "Registrar_Reserve ?n (c_ID c) (d_nameIndex d)") simp
  define d2 where "d2 = unregister_container ops p (snd (registerLink p c a d))"
  have "d_nameIndex d2 = Registrar_Delete (c_ID p) r"
    using r(1) by (simp add: d2_def unregister_container_def registerLink_def Let_def)
  then have "reg_owner (d_nameIndex d2) ?n = Some (c_ID c)"
    using reg_owner_Delete [OF r(2), of "c_ID p"] r(3) assms(4) by simp
  from reg_names.reserve_taken [OF this, of "c_ID c'"] assms(5,6)
  have "registerLink p' c' a d2 = (None, d2)" by (simp add: registerLink_def Let_def)
  then show ?thesis by (simp add: d2_def Let_def)
qed

theorem stale_link_name_blocks_link_witness:
  "let d2 = unregister_container list_trie (demo_container ''c1'' ''/web'')
       (snd (registerLink (demo_container ''c1'' ''/web'') (demo_container ''c2'' ''/db'') ''sql'' demo))
   in registerLink (demo_container ''c3'' ''/web'') (demo_container ''c4'' ''/db2'') ''sql'' d2 = (None, d2)"
proof -
  have "Registrar_Get (path_join (c_Name (demo_container ''c1'' ''/web'')) ''sql'') (d_nameIndex demo) = Inl ErrNameNotReserved"
    by code_simp
  from stale_link_name_blocks_link [OF list_trie_contract demo_reachable this] show ?thesis
    by (simp add: demo_container_def)
qed

end
