(* ===== verification/Reference.thy ===== *)
theory Reference
  imports GoStrings
begin

text \<open>
  Image references (\<^verbatim>\<open>src/reference/reference.go\<close>) and the parts of the vendored packages they are built on:
  the reference grammar (\<^verbatim>\<open>distribution/reference\<close>) and the validation of digests (\<^verbatim>\<open>distribution/digest\<close>).

  A regular expression of the source is a recogniser here, written along the structure of the
  expression. The expression for a whole reference has three groups, and the positions of their
  separators are determined (a name has no \<^verbatim>\<open>@\<close>, and a colon after its last slash starts the tag), so
  \<open>dist_Parse\<close> splits at the separators and checks the parts.
\<close>

section \<open>The grammar\<close>

text \<open>
  A name component: alphanumeric runs separated by a period, one or two underscores, or dashes.
  \<open>component_rest\<close> reads what may follow a run's first character.
\<close>

function component_rest :: "string \<Rightarrow> bool" and component_run :: "string \<Rightarrow> bool" where
  "component_rest [] = True"
| "component_rest (c # cs) =
     (if lower_alnum c then component_rest cs
      else if c = CHR ''.'' then component_run cs
      else if c = CHR ''_'' then
        (case cs of d # ds \<Rightarrow> if d = CHR ''_'' then component_run ds else component_run cs | [] \<Rightarrow> False)
      else if c = CHR ''-'' then component_run (dropWhile (\<lambda>d. d = CHR ''-'') cs)
      else False)"
| "component_run [] = False"
| "component_run (c # cs) = (lower_alnum c \<and> component_rest cs)"
  by pat_completeness auto

termination
proof (relation "measure (case_sum length length)")
  show "(Inr (dropWhile (\<lambda>d. d = CHR ''-'') cs), Inl (c # cs)) \<in> measure (case_sum length length)" for c cs
    using length_dropWhile_le [of "\<lambda>d. d = CHR ''-''" cs] by simp
qed auto

definition is_hostname_component :: "string \<Rightarrow> bool" where
  "is_hostname_component s \<longleftrightarrow> s \<noteq> [] \<and> alnum (hd s) \<and> alnum (last s) \<and> list_all (\<lambda>c. alnum c \<or> c = CHR ''-'') s"

definition is_hostname :: "string \<Rightarrow> bool" where
  "is_hostname s =
     (case index_char CHR '':'' s of
        None \<Rightarrow> list_all is_hostname_component (split_char CHR ''.'' s)
      | Some i \<Rightarrow> list_all is_hostname_component (split_char CHR ''.'' (take i s)) \<and>
          drop (i + 1) s \<noteq> [] \<and> list_all is_digit (drop (i + 1) s))"

definition NameRegexp :: "string \<Rightarrow> bool" where
  "NameRegexp s =
     (case split_char CHR ''/'' s of
        e # es \<Rightarrow> list_all component_run (e # es) \<or> es \<noteq> [] \<and> is_hostname e \<and> list_all component_run es
      | [] \<Rightarrow> False)"

definition TagRegexp :: "string \<Rightarrow> bool" where
  "TagRegexp s = (case s of c # cs \<Rightarrow> word_char c \<and>
     list_all (\<lambda>d. word_char d \<or> d = CHR ''.'' \<or> d = CHR ''-'') cs \<and> length cs \<le> 127 | [] \<Rightarrow> False)"

text \<open>The algorithm part of a digest: letters and digits, in parts joined by one of four separators.\<close>

fun algorithm_rest :: "string \<Rightarrow> bool" where
  "algorithm_rest [] = True"
| "algorithm_rest (c # cs) =
     (if alnum c then algorithm_rest cs
      else c \<in> set ''-_+.'' \<and> (case cs of d # ds \<Rightarrow> alnum d \<and> \<not> is_digit d \<and> algorithm_rest ds | [] \<Rightarrow> False))"

definition ref_DigestRegexp :: "string \<Rightarrow> bool" where
  "ref_DigestRegexp s =
     (case index_char CHR '':'' s of
        None \<Rightarrow> False
      | Some i \<Rightarrow> (case take i s of c # cs \<Rightarrow> alnum c \<and> \<not> is_digit c \<and> algorithm_rest cs | [] \<Rightarrow> False) \<and>
          32 \<le> length (drop (i + 1) s) \<and> list_all is_xdigit (drop (i + 1) s))"

section \<open>Digests\<close>

datatype ref_error =
    ErrReferenceInvalidFormat
  | ErrTagInvalidFormat
  | ErrDigestInvalidFormat
  | ErrNameEmpty
  | ErrNameTooLong
  | DigestInvalidFormat
  | DigestInvalidLength
  | DigestUnsupported
  | ErrParsingReference string
  | ErrNotLowercase
  | ErrHexName string

definition Algorithm_Size :: "string \<Rightarrow> nat" where
  "Algorithm_Size a = (if a = ''sha256'' then 32 else if a = ''sha384'' then 48 else if a = ''sha512'' then 64 else 0)"

definition DigestRegexpAnchored :: "string \<Rightarrow> bool" where
  "DigestRegexpAnchored s =
     (case index_char CHR '':'' s of
        None \<Rightarrow> False
      | Some i \<Rightarrow> i \<noteq> 0 \<and> list_all (\<lambda>c. alnum c \<or> c \<in> set ''-_+.'') (take i s) \<and>
          drop (i + 1) s \<noteq> [] \<and> list_all is_xdigit (drop (i + 1) s))"

definition Digest_Validate :: "string \<Rightarrow> ref_error option" where
  "Digest_Validate s =
     (if \<not> DigestRegexpAnchored s then Some DigestInvalidFormat
      else (case index_char CHR '':'' s of
              None \<Rightarrow> Some DigestInvalidFormat
            | Some i \<Rightarrow>
                if i + 1 = length s then Some DigestInvalidFormat
                else if take i s \<in> {''sha256'', ''sha384'', ''sha512''} then
                  if Algorithm_Size (take i s) * 2 \<noteq> length (drop (i + 1) s) then Some DigestInvalidLength else None
                else Some DigestUnsupported))"

definition ParseDigest :: "string \<Rightarrow> ref_error + string" where
  "ParseDigest s = (case Digest_Validate s of Some e \<Rightarrow> Inl e | None \<Rightarrow> Inr s)"

section \<open>References of the distribution package\<close>

datatype dist_ref =
    DistRepository string
  | DistTagged string string
  | DistCanonical string string
  | DistReference string string string

definition NameTotalLengthMax :: nat where "NameTotalLengthMax = 255"

text \<open>Where the groups of \<^verbatim>\<open>ReferenceRegexp\<close> lie.\<close>

definition split_digest :: "string \<Rightarrow> string \<times> string option" where
  "split_digest s = (case index_char CHR ''@'' s of None \<Rightarrow> (s, None) | Some i \<Rightarrow> (take i s, Some (drop (i + 1) s)))"

definition split_tag :: "string \<Rightarrow> string \<times> string option" where
  "split_tag s =
     (let t = rev (takeWhile (\<lambda>c. c \<noteq> CHR '':'' \<and> c \<noteq> CHR ''/'') (rev s)); rest = take (length s - length t) s
      in if rest \<noteq> [] \<and> last rest = CHR '':'' then (butlast rest, Some t) else (s, None))"

definition ReferenceRegexp :: "string \<Rightarrow> (string \<times> string option \<times> string option) option" where
  "ReferenceRegexp s =
     (let (body, dgst) = split_digest s; (name, tag) = split_tag body
      in if NameRegexp name \<and> (case tag of None \<Rightarrow> True | Some t \<Rightarrow> TagRegexp t) \<and>
           (case dgst of None \<Rightarrow> True | Some d \<Rightarrow> ref_DigestRegexp d)
         then Some (name, tag, dgst) else None)"

definition getBestReferenceType :: "string \<Rightarrow> string option \<Rightarrow> string option \<Rightarrow> dist_ref" where
  "getBestReferenceType name tag dgst =
     (case tag of
        None \<Rightarrow> (case dgst of Some d \<Rightarrow> DistCanonical name d | None \<Rightarrow> DistRepository name)
      | Some t \<Rightarrow> (case dgst of None \<Rightarrow> DistTagged name t | Some d \<Rightarrow> DistReference name t d))"

definition dist_Parse :: "string \<Rightarrow> ref_error + dist_ref" where
  "dist_Parse s =
     (case ReferenceRegexp s of
        None \<Rightarrow> if s = [] then Inl ErrNameEmpty else Inl ErrReferenceInvalidFormat
      | Some (name, tag, dgst) \<Rightarrow>
          if NameTotalLengthMax < length name then Inl ErrNameTooLong
          else (case dgst of
                  None \<Rightarrow> Inr (getBestReferenceType name tag None)
                | Some d \<Rightarrow> (case ParseDigest d of Inl e \<Rightarrow> Inl e | Inr d' \<Rightarrow> Inr (getBestReferenceType name tag (Some d')))))"

fun dist_Name :: "dist_ref \<Rightarrow> string" where
  "dist_Name (DistRepository n) = n"
| "dist_Name (DistTagged n t) = n"
| "dist_Name (DistCanonical n d) = n"
| "dist_Name (DistReference n t d) = n"

fun dist_String :: "dist_ref \<Rightarrow> string" where
  "dist_String (DistRepository n) = n"
| "dist_String (DistTagged n t) = n @ '':'' @ t"
| "dist_String (DistCanonical n d) = n @ ''@'' @ d"
| "dist_String (DistReference n t d) = n @ '':'' @ t @ ''@'' @ d"

definition dist_WithName :: "string \<Rightarrow> ref_error + string" where
  "dist_WithName name =
     (if NameTotalLengthMax < length name then Inl ErrNameTooLong
      else if \<not> NameRegexp name then Inl ErrReferenceInvalidFormat else Inr name)"

definition dist_WithTag :: "string \<Rightarrow> string \<Rightarrow> ref_error + dist_ref" where
  "dist_WithTag name tag = (if \<not> TagRegexp tag then Inl ErrTagInvalidFormat else Inr (DistTagged name tag))"

definition dist_WithDigest :: "string \<Rightarrow> string \<Rightarrow> ref_error + dist_ref" where
  "dist_WithDigest name d = (if \<not> ref_DigestRegexp d then Inl ErrDigestInvalidFormat else Inr (DistCanonical name d))"

section \<open>References of the engine\<close>

text \<open>The three types that implement \<open>Named\<close>, over the distribution reference each wraps.\<close>

datatype named =
    NamedRef string
  | TaggedRef string string
  | CanonicalRef string string

fun ref_Name :: "named \<Rightarrow> string" where
  "ref_Name (NamedRef n) = n"
| "ref_Name (TaggedRef n t) = n"
| "ref_Name (CanonicalRef n d) = n"

fun ref_String :: "named \<Rightarrow> string" where
  "ref_String (NamedRef n) = n"
| "ref_String (TaggedRef n t) = n @ '':'' @ t"
| "ref_String (CanonicalRef n d) = n @ ''@'' @ d"

definition DefaultTag :: string where "DefaultTag = ''latest''"
definition DefaultHostname :: string where "DefaultHostname = ''docker.io''"
definition LegacyDefaultHostname :: string where "LegacyDefaultHostname = ''index.docker.io''"
definition DefaultRepoPrefix :: string where "DefaultRepoPrefix = ''library/''"

definition splitHostname :: "string \<Rightarrow> string \<times> string" where
  "splitHostname name =
     (let (hostname, remoteName) =
        (case index_char CHR ''/'' name of
           None \<Rightarrow> (DefaultHostname, name)
         | Some i \<Rightarrow>
             if \<not> contains_any (take i name) ''.:'' \<and> take i name \<noteq> ''localhost'' then (DefaultHostname, name)
             else (take i name, drop (i + 1) name));
        hostname = (if hostname = LegacyDefaultHostname then DefaultHostname else hostname);
        remoteName = (if hostname = DefaultHostname \<and> CHR ''/'' \<notin> set remoteName then DefaultRepoPrefix @ remoteName else remoteName)
      in (hostname, remoteName))"

definition FullName :: "named \<Rightarrow> string" where
  "FullName r = (let (hostname, remoteName) = splitHostname (ref_Name r) in hostname @ ''/'' @ remoteName)"

definition Hostname :: "named \<Rightarrow> string" where "Hostname r = fst (splitHostname (ref_Name r))"

definition RemoteName :: "named \<Rightarrow> string" where "RemoteName r = snd (splitHostname (ref_Name r))"

definition normalize :: "string \<Rightarrow> ref_error + string" where
  "normalize name =
     (let (host, remoteName) = splitHostname name
      in if to_lower remoteName \<noteq> remoteName then Inl ErrNotLowercase
         else if host = DefaultHostname then
           if prefix DefaultRepoPrefix remoteName then Inr (trim_prefix DefaultRepoPrefix remoteName)
           else Inr remoteName
         else Inr name)"

text \<open>\<open>v1.ValidateID\<close>: 64 lower-case hexadecimal digits.\<close>

definition v1_ValidateID :: "string \<Rightarrow> bool" where
  "v1_ValidateID s \<longleftrightarrow> length s = 64 \<and> list_all (\<lambda>c. is_xdigit c \<and> \<not> is_upper c) s"

definition validateName :: "string \<Rightarrow> ref_error option" where
  "validateName name = (if v1_ValidateID name then Some (ErrHexName name) else None)"

definition WithName :: "string \<Rightarrow> ref_error + named" where
  "WithName name =
     (case normalize name of
        Inl e \<Rightarrow> Inl e
      | Inr name \<Rightarrow>
          (case validateName name of
             Some e \<Rightarrow> Inl e
           | None \<Rightarrow> (case dist_WithName name of Inl e \<Rightarrow> Inl e | Inr n \<Rightarrow> Inr (NamedRef n))))"

definition WithTag :: "named \<Rightarrow> string \<Rightarrow> ref_error + named" where
  "WithTag name tag = (case dist_WithTag (ref_Name name) tag of Inl e \<Rightarrow> Inl e | Inr _ \<Rightarrow> Inr (TaggedRef (ref_Name name) tag))"

definition WithDigest :: "named \<Rightarrow> string \<Rightarrow> ref_error + named" where
  "WithDigest name d = (case dist_WithDigest (ref_Name name) d of Inl e \<Rightarrow> Inl e | Inr _ \<Rightarrow> Inr (CanonicalRef (ref_Name name) d))"

definition ref_ParseNamed :: "string \<Rightarrow> ref_error + named" where
  "ref_ParseNamed s =
     (case dist_Parse s of
        Inl _ \<Rightarrow> Inl (ErrParsingReference s)
      | Inr named \<Rightarrow>
          (case WithName (dist_Name named) of
             Inl e \<Rightarrow> Inl e
           | Inr r \<Rightarrow>
               (case named of
                  DistCanonical _ d \<Rightarrow> WithDigest r d
                | DistReference _ _ d \<Rightarrow> WithDigest r d
                | DistTagged _ t \<Rightarrow> WithTag r t
                | DistRepository _ \<Rightarrow> Inr r)))"

definition IsNameOnly :: "named \<Rightarrow> bool" where
  "IsNameOnly r = (case r of NamedRef _ \<Rightarrow> True | _ \<Rightarrow> False)"

text \<open>The error of \<open>WithTag\<close> is dropped; it would leave a nil reference, for which there is no value here.\<close>

definition WithDefaultTag :: "named \<Rightarrow> named" where
  "WithDefaultTag r = (if IsNameOnly r then (case WithTag r DefaultTag of Inr r' \<Rightarrow> r' | Inl _ \<Rightarrow> r) else r)"

datatype id_or_ref = IsDigest string | IsRef named

definition ParseIDOrReference :: "string \<Rightarrow> ref_error + id_or_ref" where
  "ParseIDOrReference idOrRef =
     (let s = (if v1_ValidateID idOrRef then ''sha256:'' @ idOrRef else idOrRef)
      in case ParseDigest s of
           Inr d \<Rightarrow> Inr (IsDigest d)
         | Inl _ \<Rightarrow> (case ref_ParseNamed s of Inl e \<Rightarrow> Inl e | Inr r \<Rightarrow> Inr (IsRef r)))"

section \<open>The split is the grammar's\<close>

lemma in_set_dropWhile_or: "x \<in> set xs \<Longrightarrow> x \<in> set (dropWhile P xs) \<or> P x"
  by (induction xs) auto

lemma component_chars:
  "component_rest s \<Longrightarrow> list_all (\<lambda>c. lower_alnum c \<or> c \<in> set ''._-'') s"
  "component_run s \<Longrightarrow> list_all (\<lambda>c. lower_alnum c \<or> c \<in> set ''._-'') s"
proof (induction s and s rule: component_rest_component_run.induct)
  case (2 c cs)
  have "list_all (\<lambda>c. lower_alnum c \<or> c \<in> set ''._-'') cs"
    if "list_all (\<lambda>c. lower_alnum c \<or> c \<in> set ''._-'') (dropWhile (\<lambda>d. d = CHR ''-'') cs)"
    unfolding list_all_iff
  proof
    fix x
    assume "x \<in> set cs"
    from in_set_dropWhile_or [OF this, of "\<lambda>d. d = CHR ''-''"] that
    show "lower_alnum x \<or> x \<in> set ''._-''" by (auto simp: list_all_iff)
  qed
  with 2 show ?case by (auto split: if_splits list.splits)
qed auto

lemma special_chars [simp]:
  "\<not> lower_alnum CHR ''@''" "\<not> lower_alnum CHR '':''" "\<not> lower_alnum CHR ''/''"
  "\<not> alnum CHR ''@''" "\<not> alnum CHR '':''" "\<not> alnum CHR ''/''" "\<not> word_char CHR '':''" "\<not> word_char CHR ''/''"
  "\<not> word_char CHR ''@''" "\<not> is_digit CHR ''@''" "\<not> is_xdigit CHR ''@''" "\<not> is_xdigit CHR '':''" "\<not> is_digit CHR ''/''"
  by (simp_all add: char_classes)

lemma component_no_special: "component_run s \<Longrightarrow> CHR ''@'' \<notin> set s \<and> CHR '':'' \<notin> set s \<and> CHR ''/'' \<notin> set s"
  using component_chars(2) [of s] by (auto simp: list_all_iff)

lemma hostname_component_no_at: "is_hostname_component e \<Longrightarrow> CHR ''@'' \<notin> set e"
  by (auto simp: is_hostname_component_def list_all_iff)

lemma hostname_components_no_at:
  "list_all is_hostname_component (split_char CHR ''.'' u) \<Longrightarrow> CHR ''@'' \<notin> set u"
  using split_char_covers [of "CHR ''@''" u "CHR ''.''"] hostname_component_no_at by (auto simp: list_all_iff)

lemma hostname_no_at:
  assumes h: "is_hostname s"
  shows "CHR ''@'' \<notin> set s"
proof (cases "index_char CHR '':'' s")
  case None
  with h show ?thesis by (simp add: is_hostname_def hostname_components_no_at)
next
  case (Some i)
  then have "CHR ''@'' \<notin> set (take i s)" "CHR ''@'' \<notin> set (drop (Suc i) s)"
    using h hostname_components_no_at [of "take i s"] by (auto simp: is_hostname_def list_all_iff)
  then have "CHR ''@'' \<notin> set (take i s @ CHR '':'' # drop (Suc i) s)" by simp
  then show ?thesis using index_char_split(1) [OF Some] by simp
qed

lemma NameRegexp_elems:
  assumes "NameRegexp s"
  obtains es where "split_char CHR ''/'' s = es" "component_run (last es)"
    "\<And>e. e \<in> set es \<Longrightarrow> CHR ''@'' \<notin> set e" "es \<noteq> []"
proof -
  obtain e es where es: "split_char CHR ''/'' s = e # es" by (cases "split_char CHR ''/'' s") auto
  with assms have "component_run (last (e # es))" "\<forall>f\<in>set (e # es). CHR ''@'' \<notin> set f"
    using component_no_special hostname_no_at by (auto simp: NameRegexp_def list_all_iff)
  with es show thesis by (intro that) auto
qed

lemma NameRegexp_no_at: "NameRegexp s \<Longrightarrow> CHR ''@'' \<notin> set s"
  by (erule NameRegexp_elems) (use split_char_covers [of "CHR ''@''" s "CHR ''/''"] in auto)

lemma split_tag_append:
  assumes "CHR '':'' \<notin> set t" "CHR ''/'' \<notin> set t"
  shows "a \<noteq> [] \<Longrightarrow> last a = CHR '':'' \<Longrightarrow> split_tag (a @ t) = (butlast a, Some t)"
    and "a = [] \<or> last a = CHR ''/'' \<Longrightarrow> split_tag (a @ t) = (a @ t, None)"
proof -
  let ?P = "\<lambda>c. c \<noteq> CHR '':'' \<and> c \<noteq> CHR ''/''"
  have tw: "takeWhile ?P (rev (a @ t)) = rev t" if "a = [] \<or> \<not> ?P (last a)"
  proof (cases a rule: rev_cases)
    case (snoc b c)
    have "takeWhile ?P (rev t @ c # rev b) = rev t"
      using that assms snoc by (subst takeWhile_append2) auto
    with snoc show ?thesis by simp
  qed (use assms in \<open>auto simp: takeWhile_eq_all_conv\<close>)
  show "split_tag (a @ t) = (butlast a, Some t)" if "a \<noteq> []" "last a = CHR '':''"
    using that tw unfolding split_tag_def Let_def by simp
  assume a: "a = [] \<or> last a = CHR ''/''"
  then have eq: "takeWhile ?P (rev (a @ t)) = rev t" by (intro tw) auto
  show "split_tag (a @ t) = (a @ t, None)"
    unfolding split_tag_def Let_def eq using a by auto
qed

lemma split_tag_name: "NameRegexp n \<Longrightarrow> split_tag n = (n, None)"
proof (erule NameRegexp_elems)
  fix es
  assume es: "split_char CHR ''/'' n = es" "component_run (last es)"
  from split_char_last [of n "CHR ''/''"] es obtain a where "n = a @ last es" "a = [] \<or> last a = CHR ''/''" by auto
  with split_tag_append(2) [of "last es" a] component_no_special [OF es(2)] show ?thesis by simp
qed

lemma TagRegexp_no_special:
  assumes "TagRegexp t"
  shows "CHR '':'' \<notin> set t" "CHR ''/'' \<notin> set t" "CHR ''@'' \<notin> set t"
proof -
  have "\<forall>c\<in>set t. word_char c \<or> c = CHR ''.'' \<or> c = CHR ''-''"
    using assms by (auto simp: TagRegexp_def list_all_iff split: list.splits)
  from bspec [OF this, of "CHR '':''"] bspec [OF this, of "CHR ''/''"] bspec [OF this, of "CHR ''@''"]
  show "CHR '':'' \<notin> set t" "CHR ''/'' \<notin> set t" "CHR ''@'' \<notin> set t" by auto
qed

lemma split_tag_tagged: "TagRegexp t \<Longrightarrow> split_tag (n @ '':'' @ t) = (n, Some t)"
  using split_tag_append(1) [of t "n @ '':''"] TagRegexp_no_special by simp

lemma split_tag_sound: "split_tag s = (n, t) \<Longrightarrow> s = n @ (case t of None \<Rightarrow> [] | Some t \<Rightarrow> '':'' @ t)"
proof -
  define t' where "t' = rev (takeWhile (\<lambda>c. c \<noteq> CHR '':'' \<and> c \<noteq> CHR ''/'') (rev s))"
  have "suffix t' s"
    unfolding t'_def suffix_def using takeWhile_dropWhile_id [of _ "rev s"] by (metis rev_append rev_rev_ident)
  then obtain r where s: "s = r @ t'" by (auto simp: suffix_def)
  assume "split_tag s = (n, t)"
  then have "(n, t) = (if r \<noteq> [] \<and> last r = CHR '':'' then (butlast r, Some t') else (s, None))"
    unfolding split_tag_def Let_def t'_def [symmetric] using s by (auto split: if_splits)
  then show ?thesis using s by (cases r rule: rev_cases) (auto split: if_splits)
qed

lemma split_digest_name: "CHR ''@'' \<notin> set b \<Longrightarrow> split_digest b = (b, None)"
  and split_digest_at: "CHR ''@'' \<notin> set b \<Longrightarrow> split_digest (b @ ''@'' @ d) = (b, Some d)"
  using index_char_append [of "CHR ''@''" b d] index_char_None [of "CHR ''@''" b] by (simp_all add: split_digest_def)

lemma split_digest_sound: "split_digest s = (b, d) \<Longrightarrow> s = b @ (case d of None \<Rightarrow> [] | Some d \<Rightarrow> ''@'' @ d)"
  by (auto simp: split_digest_def index_char_split(1) split: option.splits)

text \<open>The whole expression: a name, then optionally a colon and a tag, then optionally an at sign and a digest.\<close>

definition reference_grammar :: "string \<Rightarrow> string \<Rightarrow> string option \<Rightarrow> string option \<Rightarrow> bool" where
  "reference_grammar s n t d \<longleftrightarrow>
     s = n @ (case t of None \<Rightarrow> [] | Some t \<Rightarrow> '':'' @ t) @ (case d of None \<Rightarrow> [] | Some d \<Rightarrow> ''@'' @ d) \<and>
     NameRegexp n \<and> (case t of None \<Rightarrow> True | Some t \<Rightarrow> TagRegexp t) \<and> (case d of None \<Rightarrow> True | Some d \<Rightarrow> ref_DigestRegexp d)"

lemma ReferenceRegexp_grammar: "ReferenceRegexp s = Some (n, t, d) \<longleftrightarrow> reference_grammar s n t d"
proof
  assume "ReferenceRegexp s = Some (n, t, d)"
  then obtain b where b: "split_digest s = (b, d)" "split_tag b = (n, t)" "NameRegexp n"
      "case t of None \<Rightarrow> True | Some t \<Rightarrow> TagRegexp t" "case d of None \<Rightarrow> True | Some d \<Rightarrow> ref_DigestRegexp d"
    by (auto simp: ReferenceRegexp_def Let_def split: prod.splits if_splits)
  from split_digest_sound [OF b(1)] split_tag_sound [OF b(2)] b(3-5) show "reference_grammar s n t d"
    by (simp add: reference_grammar_def)
next
  assume g: "reference_grammar s n t d"
  let ?b = "n @ (case t of None \<Rightarrow> [] | Some t \<Rightarrow> '':'' @ t)"
  have "CHR ''@'' \<notin> set ?b"
    using g NameRegexp_no_at [of n] TagRegexp_no_special(3) by (auto simp: reference_grammar_def split: option.splits)
  then have "split_digest s = (?b, d)"
    using g split_digest_name [of ?b] split_digest_at [of ?b] by (auto simp: reference_grammar_def split: option.splits)
  moreover have "split_tag ?b = (n, t)"
    using g split_tag_name [of n] split_tag_tagged [of _ n] by (auto simp: reference_grammar_def split: option.splits)
  ultimately show "ReferenceRegexp s = Some (n, t, d)"
    using g by (simp add: ReferenceRegexp_def reference_grammar_def)
qed

section \<open>Round trips\<close>

definition valid_name :: "string \<Rightarrow> bool" where
  "valid_name n \<longleftrightarrow> NameRegexp n \<and> length n \<le> NameTotalLengthMax"

definition valid_digest :: "string \<Rightarrow> bool" where
  "valid_digest d \<longleftrightarrow> ref_DigestRegexp d \<and> Digest_Validate d = None"

text \<open>A reference the constructors can produce, and whose name is its own normal form.\<close>

definition wf_ref :: "named \<Rightarrow> bool" where
  "wf_ref r \<longleftrightarrow> valid_name (ref_Name r) \<and> \<not> v1_ValidateID (ref_Name r) \<and> normalize (ref_Name r) = Inr (ref_Name r) \<and>
     (case r of NamedRef _ \<Rightarrow> True | TaggedRef _ t \<Rightarrow> TagRegexp t | CanonicalRef _ d \<Rightarrow> valid_digest d)"

lemma WithName_fixed:
  "valid_name n \<Longrightarrow> \<not> v1_ValidateID n \<Longrightarrow> normalize n = Inr n \<Longrightarrow> WithName n = Inr (NamedRef n)"
  by (simp add: WithName_def validateName_def dist_WithName_def valid_name_def)

lemma WithName_ok: "WithName n = Inr r \<Longrightarrow> \<exists>m. r = NamedRef m \<and> normalize n = Inr m \<and> valid_name m \<and> \<not> v1_ValidateID m"
  by (auto simp: WithName_def validateName_def dist_WithName_def valid_name_def split: sum.splits if_splits option.splits)

lemma dist_Parse_grammar:
  "reference_grammar s n t d \<Longrightarrow> length n \<le> NameTotalLengthMax \<Longrightarrow>
     dist_Parse s = (case d of
       None \<Rightarrow> Inr (getBestReferenceType n t None)
     | Some d \<Rightarrow> (case Digest_Validate d of Some e \<Rightarrow> Inl e | None \<Rightarrow> Inr (getBestReferenceType n t (Some d))))"
  unfolding ReferenceRegexp_grammar [symmetric]
  by (simp add: dist_Parse_def ParseDigest_def split: option.splits)

lemma ref_ParseNamed_String:
  assumes "wf_ref r"
  shows "ref_ParseNamed (ref_String r) = Inr r"
proof -
  have n: "valid_name (ref_Name r)" "WithName (ref_Name r) = Inr (NamedRef (ref_Name r))"
    using assms WithName_fixed by (simp_all add: wf_ref_def)
  show ?thesis
  proof (cases r)
    case (NamedRef n)
    then have "reference_grammar (ref_String r) n None None" using n by (simp add: reference_grammar_def valid_name_def)
    from dist_Parse_grammar [OF this] NamedRef n show ?thesis
      by (simp add: ref_ParseNamed_def getBestReferenceType_def valid_name_def)
  next
    case (TaggedRef n t)
    with assms have t: "TagRegexp t" by (simp add: wf_ref_def)
    with TaggedRef n have "reference_grammar (ref_String r) n (Some t) None" by (simp add: reference_grammar_def valid_name_def)
    from dist_Parse_grammar [OF this] TaggedRef n t show ?thesis
      by (simp add: ref_ParseNamed_def getBestReferenceType_def valid_name_def WithTag_def dist_WithTag_def)
  next
    case (CanonicalRef n d)
    with assms have d: "valid_digest d" by (simp add: wf_ref_def)
    with CanonicalRef n have "reference_grammar (ref_String r) n None (Some d)"
      by (simp add: reference_grammar_def valid_name_def valid_digest_def)
    from dist_Parse_grammar [OF this] CanonicalRef n d show ?thesis
      by (simp add: ref_ParseNamed_def getBestReferenceType_def valid_name_def valid_digest_def WithDigest_def dist_WithDigest_def)
  qed
qed

lemma ref_ParseNamed_ok:
  assumes "ref_ParseNamed s = Inr r"
  shows "\<exists>n t d. reference_grammar s n t d \<and> normalize n = Inr (ref_Name r) \<and> valid_name (ref_Name r) \<and>
    \<not> v1_ValidateID (ref_Name r) \<and>
    (case d of Some d \<Rightarrow> valid_digest d \<and> r = CanonicalRef (ref_Name r) d
     | None \<Rightarrow> (case t of Some t \<Rightarrow> TagRegexp t \<and> r = TaggedRef (ref_Name r) t | None \<Rightarrow> r = NamedRef (ref_Name r)))"
proof -
  from assms obtain named m where p: "dist_Parse s = Inr named" "WithName (dist_Name named) = Inr m"
    by (auto simp: ref_ParseNamed_def split: sum.splits)
  from p(1) obtain n t d where g: "ReferenceRegexp s = Some (n, t, d)" and named: "named = getBestReferenceType n t d"
      and d: "\<forall>x. d = Some x \<longrightarrow> Digest_Validate x = None"
    by (auto simp: dist_Parse_def ParseDigest_def split: option.splits if_splits prod.splits)
  have name: "dist_Name named = n" by (simp add: named getBestReferenceType_def split: option.splits)
  from WithName_ok [OF p(2)] obtain k where k: "m = NamedRef k" "normalize n = Inr k" "valid_name k" "\<not> v1_ValidateID k"
    by (auto simp: name)
  note gr = g [unfolded ReferenceRegexp_grammar]
  have "ref_Name r = k \<and> (case d of Some d \<Rightarrow> valid_digest d \<and> r = CanonicalRef k d
     | None \<Rightarrow> (case t of Some t \<Rightarrow> TagRegexp t \<and> r = TaggedRef k t | None \<Rightarrow> r = NamedRef k))"
    using assms p gr d unfolding ref_ParseNamed_def named
    by (auto simp: reference_grammar_def getBestReferenceType_def WithDigest_def WithTag_def dist_WithDigest_def
        dist_WithTag_def valid_digest_def k(1) split: option.splits)
  with gr k show ?thesis by auto
qed

text \<open>What a parsed reference is made of makes it well formed, but for the fixed point of the name.\<close>

lemma ref_ParseNamed_wf:
  assumes "ref_ParseNamed s = Inr r" and "normalize (ref_Name r) = Inr (ref_Name r)"
  shows "wf_ref r"
  using ref_ParseNamed_ok [OF assms(1)] assms(2) by (cases r) (auto simp: wf_ref_def split: option.splits)

lemma ref_String_inj:
  assumes "wf_ref a" "wf_ref b" "ref_String a = ref_String b"
  shows "a = b"
proof -
  have "Inr a = (Inr b :: ref_error + named)"
    unfolding ref_ParseNamed_String [OF assms(1), symmetric] ref_ParseNamed_String [OF assms(2), symmetric] assms(3) ..
  then show ?thesis by simp
qed

section \<open>Normal forms\<close>

text \<open>Whether \<open>splitHostname\<close> takes the first element of a path for a host.\<close>

definition host_like :: "string \<Rightarrow> bool" where
  "host_like p \<longleftrightarrow> contains_any p ''.:'' \<or> p = ''localhost''"

lemma splitHostname_plain:
  "CHR ''/'' \<notin> set n \<Longrightarrow> splitHostname n = (DefaultHostname, DefaultRepoPrefix @ n)"
proof -
  assume "CHR ''/'' \<notin> set n"
  moreover from this have "index_char CHR ''/'' n = None" by (rule index_char_None [THEN iffD2])
  ultimately show ?thesis by (simp add: splitHostname_def DefaultHostname_def LegacyDefaultHostname_def)
qed

lemma splitHostname_path:
  assumes "CHR ''/'' \<notin> set p"
  shows "\<not> host_like p \<Longrightarrow> splitHostname (p @ CHR ''/'' # q) = (DefaultHostname, p @ CHR ''/'' # q)"
    and "host_like p \<Longrightarrow> p \<notin> {DefaultHostname, LegacyDefaultHostname} \<Longrightarrow> splitHostname (p @ CHR ''/'' # q) = (p, q)"
    and "p \<in> {DefaultHostname, LegacyDefaultHostname} \<Longrightarrow> splitHostname (p @ CHR ''/'' # q) =
      (DefaultHostname, if CHR ''/'' \<in> set q then q else DefaultRepoPrefix @ q)"
  using index_char_append [OF assms, of q]
  by (auto simp: splitHostname_def host_like_def DefaultHostname_def LegacyDefaultHostname_def contains_any_def)

lemma normalize_default:
  assumes "splitHostname n = (DefaultHostname, rem)" and "normalize n = Inr m"
  shows "(prefix DefaultRepoPrefix rem \<and> rem = DefaultRepoPrefix @ m) \<or> (\<not> prefix DefaultRepoPrefix rem \<and> m = rem)"
  using assms by (auto simp: normalize_def trim_prefix_def prefix_def split: if_splits)

text \<open>
  C24. The groups the reference expression captures are exactly the grammar's: a string splits into a name,
  a tag and a digest in this way exactly when it is their concatenation with the separators and each
  part matches its own expression. In particular the reading of a string is unique.
\<close>
theorem ReferenceRegexp_is_grammar:
  "ReferenceRegexp s = Some (n, t, d) \<longleftrightarrow>
     s = n @ (case t of None \<Rightarrow> [] | Some t \<Rightarrow> '':'' @ t) @ (case d of None \<Rightarrow> [] | Some d \<Rightarrow> ''@'' @ d) \<and>
     NameRegexp n \<and> (case t of None \<Rightarrow> True | Some t \<Rightarrow> TagRegexp t) \<and> (case d of None \<Rightarrow> True | Some d \<Rightarrow> ref_DigestRegexp d)"
  unfolding ReferenceRegexp_grammar reference_grammar_def ..

text \<open>
  C10. Printing and parsing a reference are inverse: when a parsed reference has a name that is its own
  normal form, parsing its string gives the same reference again, tag and digest included; and two
  such references with the same string are equal.
\<close>
theorem reference_round_trip:
  assumes "ref_ParseNamed s = Inr r" and "normalize (ref_Name r) = Inr (ref_Name r)"
  shows "ref_ParseNamed (ref_String r) = Inr r \<and>
    (\<forall>s' r'. ref_ParseNamed s' = Inr r' \<and> normalize (ref_Name r') = Inr (ref_Name r') \<and> ref_String r' = ref_String r \<longrightarrow> r' = r)"
proof -
  have wf: "wf_ref r" using ref_ParseNamed_wf [OF assms] .
  then show ?thesis
    using ref_ParseNamed_String [OF wf] ref_String_inj [OF _ wf] ref_ParseNamed_wf by blast
qed

theorem reference_round_trip_witness:
  "ref_ParseNamed ''docker.io/library/ubuntu:14.04'' = Inr (TaggedRef ''ubuntu'' ''14.04'') \<and>
   ref_ParseNamed ''ubuntu:14.04'' = Inr (TaggedRef ''ubuntu'' ''14.04'')"
proof -
  have p: "ref_ParseNamed ''docker.io/library/ubuntu:14.04'' = Inr (TaggedRef ''ubuntu'' ''14.04'')" by code_simp
  have n: "normalize (ref_Name (TaggedRef ''ubuntu'' ''14.04'')) = Inr (ref_Name (TaggedRef ''ubuntu'' ''14.04''))" by code_simp
  from p reference_round_trip [OF p n] show ?thesis by simp
qed

text \<open>
  C26. Normalising a name keeps what it refers to, the registry host and the path on it, and the result is its
  own normal form, when the name has a host other than the default one, or is an official image
  \<^verbatim>\<open>library/x\<close>, or has a path that starts with neither \<^verbatim>\<open>library/\<close> nor an element that reads as a host.
\<close>
theorem normalize_keeps_target:
  assumes "normalize n = Inr m" and "splitHostname n = (host, rem)"
    and "host \<noteq> DefaultHostname \<or> (\<exists>x. rem = DefaultRepoPrefix @ x \<and> CHR ''/'' \<notin> set x) \<or>
      (\<exists>p q. rem = p @ CHR ''/'' # q \<and> CHR ''/'' \<notin> set p \<and> \<not> host_like p \<and> p \<noteq> ''library'')"
  shows "splitHostname m = (host, rem) \<and> normalize m = Inr m"
proof -
  have low: "to_lower rem = rem" using assms(1,2) by (auto simp: normalize_def split: if_splits)
  consider (other) "host \<noteq> DefaultHostname"
    | (official) x where "host = DefaultHostname" "rem = DefaultRepoPrefix @ x" "CHR ''/'' \<notin> set x"
    | (path) p q where "host = DefaultHostname" "rem = p @ CHR ''/'' # q" "CHR ''/'' \<notin> set p" "\<not> host_like p" "p \<noteq> ''library''"
    using assms(3) by blast
  then show ?thesis
  proof cases
    case other
    then have "m = n" using assms(1,2) by (simp add: normalize_def split: if_splits)
    with assms(1,2) show ?thesis by simp
  next
    case official
    then have "m = x" using normalize_default [of n rem m] assms(1,2) by (auto simp: prefix_def)
    with official low splitHostname_plain [of m] show ?thesis by (simp add: normalize_def)
  next
    case path
    have "\<not> prefix DefaultRepoPrefix rem"
    proof
      assume "prefix DefaultRepoPrefix rem"
      then obtain x where "p @ CHR ''/'' # q = ''library'' @ CHR ''/'' # x"
        using path(2) by (auto simp: prefix_def DefaultRepoPrefix_def)
      moreover have "CHR ''/'' \<notin> set ''library''" by simp
      ultimately show False using path(3,5) by (metis split_char_append list.inject)
    qed
    then have "m = rem" using normalize_default [of n rem m] assms(1,2) path(1) by auto
    with path low splitHostname_path(1) [of p q] \<open>\<not> prefix DefaultRepoPrefix rem\<close> show ?thesis
      by (simp add: normalize_def)
  qed
qed

theorem normalize_keeps_target_witness:
  "normalize ''index.docker.io/library/redis'' = Inr ''redis'' \<and>
   splitHostname ''redis'' = (''docker.io'', ''library/redis'') \<and> normalize ''redis'' = Inr ''redis''"
proof -
  have n: "normalize ''index.docker.io/library/redis'' = Inr ''redis''" by code_simp
  have s: "splitHostname ''index.docker.io/library/redis'' = (''docker.io'', ''library/redis'')" by code_simp
  have "\<exists>x. ''library/redis'' = DefaultRepoPrefix @ x \<and> CHR ''/'' \<notin> set x"
    by (rule exI [of _ "''redis''"]) (simp add: DefaultRepoPrefix_def)
  with n normalize_keeps_target [OF n s] show ?thesis by simp
qed

text \<open>
  Outside that condition normalisation may redirect a reference to another registry: a name on the
  default registry whose first path element reads as a host normalises to a name whose host is that
  element.
\<close>
lemma normalize_redirects_host:
  assumes "CHR ''/'' \<notin> set p" and "host_like p" and "p \<notin> {DefaultHostname, LegacyDefaultHostname}"
    and "to_lower (p @ ''/'' @ q) = p @ ''/'' @ q"
  shows "splitHostname (DefaultHostname @ ''/'' @ p @ ''/'' @ q) = (DefaultHostname, p @ ''/'' @ q) \<and>
    normalize (DefaultHostname @ ''/'' @ p @ ''/'' @ q) = Inr (p @ ''/'' @ q) \<and>
    splitHostname (p @ ''/'' @ q) = (p, q)"
proof -
  have d: "CHR ''/'' \<notin> set DefaultHostname" by (simp add: DefaultHostname_def)
  have s: "splitHostname (DefaultHostname @ ''/'' @ p @ ''/'' @ q) = (DefaultHostname, p @ ''/'' @ q)"
    using splitHostname_path(3) [OF d, of "p @ ''/'' @ q"] by simp
  have "\<not> prefix DefaultRepoPrefix (p @ ''/'' @ q)"
  proof
    assume "prefix DefaultRepoPrefix (p @ ''/'' @ q)"
    then obtain x where "p @ CHR ''/'' # q = ''library'' @ CHR ''/'' # x" by (auto simp: prefix_def DefaultRepoPrefix_def)
    moreover have "CHR ''/'' \<notin> set ''library''" by simp
    ultimately have "p = ''library''" using assms(1) by (metis split_char_append list.inject)
    with assms(2) show False by (simp add: host_like_def contains_any_def)
  qed
  with s assms(4) have "normalize (DefaultHostname @ ''/'' @ p @ ''/'' @ q) = Inr (p @ ''/'' @ q)"
    by (simp add: normalize_def)
  with s splitHostname_path(2) [OF assms(1-3), of q] show ?thesis by simp
qed

lemma normalize_redirects_host_witness:
  "normalize ''docker.io/evil.com/tool'' = Inr ''evil.com/tool'' \<and> splitHostname ''evil.com/tool'' = (''evil.com'', ''tool'')"
  using normalize_redirects_host [of "''evil.com''" "''tool''"]
  by (simp add: host_like_def contains_any_def DefaultHostname_def LegacyDefaultHostname_def to_lower_def to_lower_char_def)

end
