(* ===== verification/ReferenceStore.thy ===== *)
theory ReferenceStore
  imports Reference "HOL-Library.Char_ord" "HOL-Library.List_Lexorder"
begin

text \<open>
  The store of tags and digests (\<^verbatim>\<open>src/reference/store.go\<close>): \<open>Repositories\<close> maps a repository name and a
  reference string to an image identifier, \<open>referencesByIDCache\<close> an identifier back to its references.
  Only \<open>Repositories\<close> is written to disk (as JSON, here the map itself in \<open>rs_disk\<close>); loading rebuilds the
  cache by parsing the strings. Every method holds the store's lock, so each is one step. Whether a
  write to disk succeeds is an argument.
\<close>

section \<open>Data and operations\<close>

datatype refstore_error =
    ErrDoesNotExist
  | ErrTagWithDigest
  | ErrAmbiguousName
  | ErrOverwriteDigest string
  | ErrTagConflict string string
  | ErrSave

type_synonym repositories = "(string, (string, string) fmap) fmap"

record ref_store =
  Repositories :: repositories
  referencesByIDCache :: "(string, (string, named) fmap) fmap"
  rs_disk :: "repositories option"

definition refstore_save :: "bool \<Rightarrow> ref_store \<Rightarrow> refstore_error option \<times> ref_store" where
  "refstore_save ok s = (if ok then (None, s\<lparr>rs_disk := Some (Repositories s)\<rparr>) else (Some ErrSave, s))"

text \<open>Dropping an entry of the cache, and the identifier with it when it was the last one.\<close>

definition cache_drop :: "string \<Rightarrow> string \<Rightarrow> (string, (string, 'r) fmap) fmap \<Rightarrow> (string, (string, 'r) fmap) fmap" where
  "cache_drop i k m =
     (case fmlookup m i of
        None \<Rightarrow> m
      | Some inner \<Rightarrow> (let inner' = fmdrop k inner in if inner' = fmempty then fmdrop i m else fmupd i inner' m))"

definition cache_put :: "string \<Rightarrow> string \<Rightarrow> 'r \<Rightarrow> (string, (string, 'r) fmap) fmap \<Rightarrow> (string, (string, 'r) fmap) fmap" where
  "cache_put i k r m = fmupd i (fmupd k r (map_get fmempty m i)) m"

definition addReference :: "bool \<Rightarrow> named \<Rightarrow> string \<Rightarrow> bool \<Rightarrow> ref_store \<Rightarrow> refstore_error option \<times> ref_store" where
  "addReference ok ref i force s =
     (if ref_Name ref = ''sha256'' then (Some ErrAmbiguousName, s)
      else
        (let repository = map_get fmempty (Repositories s) (ref_Name ref);
             s1 = s\<lparr>Repositories := fmupd (ref_Name ref) repository (Repositories s)\<rparr>;
             refStr = ref_String ref;
             put = (\<lambda>cache. refstore_save ok (s1\<lparr>
               Repositories := fmupd (ref_Name ref) (fmupd refStr i repository) (Repositories s1),
               referencesByIDCache := cache_put i refStr ref cache\<rparr>))
         in case fmlookup repository refStr of
              None \<Rightarrow> put (referencesByIDCache s)
            | Some oldID \<Rightarrow>
                (case ref of
                   CanonicalRef _ d \<Rightarrow> (Some (ErrOverwriteDigest d), s1)
                 | _ \<Rightarrow>
                     if \<not> force then (Some (ErrTagConflict refStr oldID), s1)
                     else put (cache_drop oldID refStr (referencesByIDCache s)))))"

definition AddTag :: "bool \<Rightarrow> named \<Rightarrow> string \<Rightarrow> bool \<Rightarrow> ref_store \<Rightarrow> refstore_error option \<times> ref_store" where
  "AddTag ok ref i force s =
     (case ref of
        CanonicalRef _ _ \<Rightarrow> (Some ErrTagWithDigest, s)
      | _ \<Rightarrow> addReference ok (WithDefaultTag ref) i force s)"

definition AddDigest :: "bool \<Rightarrow> named \<Rightarrow> string \<Rightarrow> bool \<Rightarrow> ref_store \<Rightarrow> refstore_error option \<times> ref_store" where
  "AddDigest ok ref i force s = addReference ok ref i force s"

definition refstore_Delete :: "bool \<Rightarrow> named \<Rightarrow> ref_store \<Rightarrow> (bool \<times> refstore_error option) \<times> ref_store" where
  "refstore_Delete ok ref s =
     (let ref = WithDefaultTag ref; repoName = ref_Name ref; refStr = ref_String ref
      in case fmlookup (Repositories s) repoName of
           None \<Rightarrow> ((False, Some ErrDoesNotExist), s)
         | Some repository \<Rightarrow>
             (case fmlookup repository refStr of
                None \<Rightarrow> ((False, Some ErrDoesNotExist), s)
              | Some i \<Rightarrow>
                  (let repository' = fmdrop refStr repository;
                       repos = (if repository' = fmempty then fmdrop repoName (Repositories s)
                                else fmupd repoName repository' (Repositories s));
                       (err, s') = refstore_save ok (s\<lparr>Repositories := repos,
                         referencesByIDCache := cache_drop i refStr (referencesByIDCache s)\<rparr>)
                   in ((True, err), s'))))"

definition refstore_Get :: "named \<Rightarrow> ref_store \<Rightarrow> refstore_error + string" where
  "refstore_Get ref s =
     (let ref = WithDefaultTag ref
      in case fmlookup (Repositories s) (ref_Name ref) of
           None \<Rightarrow> Inl ErrDoesNotExist
         | Some repository \<Rightarrow>
             (case fmlookup repository (ref_String ref) of None \<Rightarrow> Inl ErrDoesNotExist | Some i \<Rightarrow> Inr i))"

text \<open>
  The order in which Go ranges over a map does not matter here, since the result is sorted by the
  references' strings, which are the map's keys.
\<close>

definition References :: "string \<Rightarrow> ref_store \<Rightarrow> named list" where
  "References i s =
     (let m = map_get fmempty (referencesByIDCache s) i
      in sort_key ref_String (List.map_filter (fmlookup m) (sorted_list_of_fset (fmdom m))))"

fun parse_all :: "(string, string) fmap \<Rightarrow> string list \<Rightarrow> (named \<times> string) list option" where
  "parse_all m [] = Some []"
| "parse_all m (k # ks) =
     (case ref_ParseNamed k of
        Inl _ \<Rightarrow> None
      | Inr ref \<Rightarrow> map_option (Cons (ref, map_get '''' m k)) (parse_all m ks))"

definition ReferencesByName :: "named \<Rightarrow> ref_store \<Rightarrow> (named \<times> string) list" where
  "ReferencesByName ref s =
     (case fmlookup (Repositories s) (ref_Name ref) of
        None \<Rightarrow> []
      | Some repository \<Rightarrow>
          (case parse_all repository (sorted_list_of_fset (fmdom repository)) of
             None \<Rightarrow> []
           | Some as \<Rightarrow> sort_key (\<lambda>(r, _). ref_String r) as))"

text \<open>Loading: the entries of the decoded map, in any order, are parsed into the cache.\<close>

fun reload_entries :: "(string \<times> string) list \<Rightarrow> (string, (string, named) fmap) fmap \<Rightarrow> (string, (string, named) fmap) fmap" where
  "reload_entries [] cache = cache"
| "reload_entries ((refStr, refID) # es) cache =
     (case ref_ParseNamed refStr of
        Inl _ \<Rightarrow> reload_entries es cache
      | Inr ref \<Rightarrow> reload_entries es (cache_put refID refStr ref cache))"

definition repo_entries :: "repositories \<Rightarrow> (string \<times> string) list" where
  "repo_entries repos = concat (map (\<lambda>n. let m = map_get fmempty repos n in
     map (\<lambda>k. (k, map_get '''' m k)) (sorted_list_of_fset (fmdom m))) (sorted_list_of_fset (fmdom repos)))"

definition refstore_reload :: "repositories \<Rightarrow> ref_store \<Rightarrow> ref_store" where
  "refstore_reload decoded s =
     s\<lparr>Repositories := decoded, referencesByIDCache := reload_entries (repo_entries decoded) (referencesByIDCache s)\<rparr>"

text \<open>Opening the store: the file is read if it exists and created otherwise.\<close>

definition NewReferenceStore :: "bool \<Rightarrow> repositories option \<Rightarrow> refstore_error + ref_store" where
  "NewReferenceStore ok disk =
     (let s = \<lparr>Repositories = fmempty, referencesByIDCache = fmempty, rs_disk = disk\<rparr>
      in case disk of
           Some decoded \<Rightarrow> Inr (refstore_reload decoded s)
         | None \<Rightarrow> (case refstore_save ok s of (Some e, _) \<Rightarrow> Inl e | (None, s') \<Rightarrow> Inr s'))"

section \<open>Two-level maps\<close>

definition look :: "('a, ('b, 'v) fmap) fmap \<Rightarrow> 'a \<Rightarrow> 'b \<Rightarrow> 'v option" where
  "look m a b = fmlookup (map_get fmempty m a) b"

text \<open>No empty inner maps, so the outer map is determined by the lookups.\<close>

definition tidy :: "('a, ('b, 'v) fmap) fmap \<Rightarrow> bool" where
  "tidy m \<longleftrightarrow> (\<forall>a inner. fmlookup m a = Some inner \<longrightarrow> inner \<noteq> fmempty)"

lemma look_empty [simp]: "look fmempty a b = None"
  by (simp add: look_def)

lemma look_cache_put [simp]:
  "look (cache_put i k r m) i' k' = (if i' = i \<and> k' = k then Some r else look m i' k')"
  by (auto simp: look_def cache_put_def)

lemma look_cache_drop [simp]:
  "look (cache_drop i k m) i' k' = (if i' = i \<and> k' = k then None else look m i' k')"
proof (cases "fmlookup m i")
  case None
  then show ?thesis by (simp add: look_def cache_drop_def map_get_def)
next
  case (Some inner)
  show ?thesis
  proof (cases "fmdrop k inner = fmempty")
    case True
    then have "fmlookup inner k' = None" if "k' \<noteq> k" for k'
      using that fmlookup_drop [of k inner k'] by simp
    with Some True show ?thesis by (auto simp: look_def cache_drop_def Let_def map_get_def)
  next
    case False
    with Some show ?thesis by (auto simp: look_def cache_drop_def Let_def map_get_def)
  qed
qed

lemma tidy_empty [simp]: "tidy fmempty" by (simp add: tidy_def)

lemma tidy_cache_put [simp]: "tidy m \<Longrightarrow> tidy (cache_put i k r m)"
  by (simp add: tidy_def cache_put_def)

lemma tidy_cache_drop [simp]: "tidy m \<Longrightarrow> tidy (cache_drop i k m)"
  by (simp add: tidy_def cache_drop_def Let_def split: option.splits)

lemma look_None_lookup: "look m a b = None \<longleftrightarrow> (\<forall>inner. fmlookup m a = Some inner \<longrightarrow> fmlookup inner b = None)"
  by (simp add: look_def map_get_def split: option.splits)

lemma tidy_eqI:
  assumes "tidy m" "tidy m'" "\<And>a b. look m a b = look m' a b"
  shows "m = m'"
proof (rule fmap_ext)
  fix a
  have eq: "map_get fmempty m a = map_get fmempty m' a"
    using assms(3) [of a] by (intro fmap_ext) (simp add: look_def)
  show "fmlookup m a = fmlookup m' a"
    using eq assms(1,2) by (cases "fmlookup m a"; cases "fmlookup m' a") (auto simp: map_get_def tidy_def)
qed

section \<open>The invariant\<close>

definition stored_ref :: "named \<Rightarrow> bool" where
  "stored_ref r \<longleftrightarrow> wf_ref r \<and> \<not> IsNameOnly r"

definition tag_of :: "ref_store \<Rightarrow> named \<Rightarrow> string option" where
  "tag_of s r = look (Repositories s) (ref_Name r) (ref_String r)"

definition refstore_inv :: "ref_store \<Rightarrow> bool" where
  "refstore_inv s \<longleftrightarrow> tidy (Repositories s) \<and> tidy (referencesByIDCache s) \<and>
     (\<forall>i k r. look (referencesByIDCache s) i k = Some r \<longleftrightarrow> stored_ref r \<and> k = ref_String r \<and> tag_of s r = Some i) \<and>
     (\<forall>n k i. look (Repositories s) n k = Some i \<longrightarrow> (\<exists>r. stored_ref r \<and> ref_Name r = n \<and> ref_String r = k))"

lemma refstore_invD:
  assumes "refstore_inv s"
  shows "tidy (Repositories s)" "tidy (referencesByIDCache s)"
    "\<And>i k r. look (referencesByIDCache s) i k = Some r \<longleftrightarrow> stored_ref r \<and> k = ref_String r \<and> tag_of s r = Some i"
    "\<And>n k i. look (Repositories s) n k = Some i \<Longrightarrow> \<exists>r. stored_ref r \<and> ref_Name r = n \<and> ref_String r = k"
  using assms unfolding refstore_inv_def by simp_all

lemma stored_ref_inj: "stored_ref a \<Longrightarrow> stored_ref b \<Longrightarrow> ref_String a = ref_String b \<Longrightarrow> a = b"
  by (simp add: stored_ref_def ref_String_inj)

lemma TagRegexp_DefaultTag: "TagRegexp DefaultTag"
  by (simp add: TagRegexp_def DefaultTag_def char_classes)

lemma WithDefaultTag_eq: "WithDefaultTag r = (case r of NamedRef n \<Rightarrow> TaggedRef n DefaultTag | _ \<Rightarrow> r)"
  by (cases r) (simp_all add: WithDefaultTag_def IsNameOnly_def WithTag_def dist_WithTag_def TagRegexp_DefaultTag)

lemma stored_WithDefaultTag: "wf_ref r \<Longrightarrow> stored_ref (WithDefaultTag r)"
  by (cases r) (simp_all add: stored_ref_def wf_ref_def WithDefaultTag_eq IsNameOnly_def TagRegexp_DefaultTag)

text \<open>The store with the reference set, and with it removed.\<close>

definition set_ref :: "named \<Rightarrow> string \<Rightarrow> ref_store \<Rightarrow> ref_store" where
  "set_ref r i s = s\<lparr>Repositories := cache_put (ref_Name r) (ref_String r) i (Repositories s),
     referencesByIDCache := cache_put i (ref_String r) r
       (case tag_of s r of None \<Rightarrow> referencesByIDCache s | Some old \<Rightarrow> cache_drop old (ref_String r) (referencesByIDCache s))\<rparr>"

definition unset_ref :: "named \<Rightarrow> string \<Rightarrow> ref_store \<Rightarrow> ref_store" where
  "unset_ref r i s = s\<lparr>Repositories := cache_drop (ref_Name r) (ref_String r) (Repositories s),
     referencesByIDCache := cache_drop i (ref_String r) (referencesByIDCache s)\<rparr>"

lemma tag_of_set_ref:
  assumes "stored_ref r" "stored_ref r'"
  shows "tag_of (set_ref r i s) r' = (if r' = r then Some i else tag_of s r')"
  using stored_ref_inj [OF assms(2,1)] by (auto simp: tag_of_def set_ref_def)

lemma tag_of_unset_ref:
  assumes "stored_ref r" "stored_ref r'"
  shows "tag_of (unset_ref r i s) r' = (if r' = r then None else tag_of s r')"
  using stored_ref_inj [OF assms(2,1)] by (auto simp: tag_of_def unset_ref_def)

lemma cache_only_under_tag:
  assumes "refstore_inv s" "stored_ref r" "tag_of s r \<noteq> Some i"
  shows "look (referencesByIDCache s) i (ref_String r) = None"
proof (rule ccontr)
  assume "look (referencesByIDCache s) i (ref_String r) \<noteq> None"
  then obtain q where "look (referencesByIDCache s) i (ref_String r) = Some q" by blast
  with refstore_invD(3) [OF assms(1)] have q: "stored_ref q" "ref_String r = ref_String q" "tag_of s q = Some i" by blast+
  with stored_ref_inj [OF assms(2) q(1)] assms(3) show False by simp
qed

lemma set_ref_inv:
  assumes inv: "refstore_inv s" and r: "stored_ref r"
  shows "refstore_inv (set_ref r i s)"
proof -
  let ?k = "ref_String r"
  have c: "look (referencesByIDCache (set_ref r i s)) i' k' =
      (if k' = ?k then if i' = i then Some r else None else look (referencesByIDCache s) i' k')" for i' k'
  proof (cases "tag_of s r = Some i'")
    case True
    then show ?thesis by (simp add: set_ref_def)
  next
    case False
    from cache_only_under_tag [OF inv r False] show ?thesis by (cases "tag_of s r") (simp_all add: set_ref_def)
  qed
  have "look (referencesByIDCache (set_ref r i s)) i' k' = Some q \<longleftrightarrow>
      stored_ref q \<and> k' = ref_String q \<and> tag_of (set_ref r i s) q = Some i'" for i' k' q
  proof (cases "k' = ?k")
    case True
    have q: "stored_ref q \<and> ?k = ref_String q \<longleftrightarrow> q = r" using stored_ref_inj [OF r, of q] r by blast
    show ?thesis
      unfolding c True using q tag_of_set_ref [OF r r, of i s] by (cases "q = r") (simp_all, blast)
  next
    case False
    then have "q = r \<Longrightarrow> k' \<noteq> ref_String q" by simp
    with False show ?thesis
      unfolding c using refstore_invD(3) [OF inv, of i' k' q] tag_of_set_ref [OF r, of q i s] by (cases "q = r") auto
  qed
  moreover have "\<exists>q. stored_ref q \<and> ref_Name q = n \<and> ref_String q = k"
    if "look (Repositories (set_ref r i s)) n k = Some j" for n k j
    using that refstore_invD(4) [OF inv, of n k j] r by (auto simp: set_ref_def split: if_splits)
  ultimately show ?thesis
    using refstore_invD(1,2) [OF inv] unfolding refstore_inv_def by (simp add: set_ref_def split: option.splits)
qed

lemma unset_ref_inv:
  assumes inv: "refstore_inv s" and r: "stored_ref r" and i: "tag_of s r = Some i"
  shows "refstore_inv (unset_ref r i s)"
proof -
  let ?k = "ref_String r"
  have c: "look (referencesByIDCache (unset_ref r i s)) i' k' =
      (if k' = ?k then None else look (referencesByIDCache s) i' k')" for i' k'
    using cache_only_under_tag [OF inv r, of i'] i by (cases "i' = i") (simp_all add: unset_ref_def)
  have "look (referencesByIDCache (unset_ref r i s)) i' k' = Some q \<longleftrightarrow>
      stored_ref q \<and> k' = ref_String q \<and> tag_of (unset_ref r i s) q = Some i'" for i' k' q
  proof (cases "k' = ?k")
    case True
    have q: "stored_ref q \<and> ?k = ref_String q \<longleftrightarrow> q = r" using stored_ref_inj [OF r, of q] r by blast
    show ?thesis
      unfolding c True using q tag_of_unset_ref [OF r r, of i s] by (cases "q = r") (simp_all, blast)
  next
    case False
    then have "q = r \<Longrightarrow> k' \<noteq> ref_String q" by simp
    with False show ?thesis
      unfolding c using refstore_invD(3) [OF inv, of i' k' q] tag_of_unset_ref [OF r, of q i s] by (cases "q = r") auto
  qed
  moreover have "\<exists>q. stored_ref q \<and> ref_Name q = n \<and> ref_String q = k"
    if "look (Repositories (unset_ref r i s)) n k = Some j" for n k j
    using that refstore_invD(4) [OF inv, of n k j] by (auto simp: unset_ref_def split: if_splits)
  ultimately show ?thesis
    using refstore_invD(1,2) [OF inv] unfolding refstore_inv_def by (simp add: unset_ref_def)
qed

section \<open>The operations on the abstract map\<close>

lemma refstore_save_frame [simp]:
  "Repositories (snd (refstore_save ok s)) = Repositories s"
  "referencesByIDCache (snd (refstore_save ok s)) = referencesByIDCache s"
  "tag_of (snd (refstore_save ok s)) r = tag_of s r"
  "refstore_inv (snd (refstore_save ok s)) = refstore_inv s"
  by (simp_all add: refstore_save_def refstore_inv_def tag_of_def)

lemma addReference_eq:
  "addReference ok r i force s =
     (if ref_Name r = ''sha256'' then (Some ErrAmbiguousName, s)
      else (case tag_of s r of
              None \<Rightarrow> refstore_save ok (set_ref r i s)
            | Some old \<Rightarrow>
                (case r of
                   CanonicalRef _ d \<Rightarrow> (Some (ErrOverwriteDigest d), s)
                 | _ \<Rightarrow> if \<not> force then (Some (ErrTagConflict (ref_String r) old), s) else refstore_save ok (set_ref r i s))))"
proof -
  let ?n = "ref_Name r"
  have same: "s\<lparr>Repositories := fmupd ?n (map_get fmempty (Repositories s) ?n) (Repositories s)\<rparr> = s"
    if "tag_of s r = Some old" for old
  proof -
    from that have "fmlookup (Repositories s) ?n = Some (map_get fmempty (Repositories s) ?n)"
      by (auto simp: tag_of_def look_def map_get_def split: option.splits)
    then show ?thesis by (simp add: fmupd_same_lookup)
  qed
  have repo: "fmlookup (map_get fmempty (Repositories s) ?n) (ref_String r) = tag_of s r"
    by (simp add: tag_of_def look_def)
  show ?thesis
  proof (cases "tag_of s r")
    case None
    then show ?thesis by (simp add: addReference_def Let_def repo set_ref_def cache_put_def fmupd_idem)
  next
    case (Some old)
    show ?thesis
      unfolding addReference_def Let_def repo set_ref_def cache_put_def Some option.case same [OF Some] ..
  qed
qed

lemma refstore_Get_eq:
  "refstore_Get r s = (case tag_of s (WithDefaultTag r) of None \<Rightarrow> Inl ErrDoesNotExist | Some i \<Rightarrow> Inr i)"
  by (simp add: refstore_Get_def tag_of_def look_def map_get_def Let_def split: option.splits)

lemma refstore_Delete_eq:
  "refstore_Delete ok r s =
     (case tag_of s (WithDefaultTag r) of
        None \<Rightarrow> ((False, Some ErrDoesNotExist), s)
      | Some i \<Rightarrow> (case refstore_save ok (unset_ref (WithDefaultTag r) i s) of (e, s') \<Rightarrow> ((True, e), s')))"
  by (simp add: refstore_Delete_def tag_of_def look_def map_get_def Let_def unset_ref_def cache_drop_def split: option.splits)

text \<open>The daemon's references come out of the parser and are normal, so they are well formed.\<close>

inductive refstore_step :: "ref_store \<Rightarrow> ref_store \<Rightarrow> bool" where
  add_tag: "wf_ref r \<Longrightarrow> refstore_step s (snd (AddTag ok r i force s))"
| add_digest: "wf_ref (CanonicalRef n d) \<Longrightarrow> refstore_step s (snd (AddDigest ok (CanonicalRef n d) i force s))"
| delete: "wf_ref r \<Longrightarrow> refstore_step s (snd (refstore_Delete ok r s))"

definition empty_refstore :: ref_store where
  "empty_refstore = \<lparr>Repositories = fmempty, referencesByIDCache = fmempty, rs_disk = Some fmempty\<rparr>"

lemma addReference_inv:
  assumes "refstore_inv s" "stored_ref r"
  shows "refstore_inv (snd (addReference ok r i force s))"
  using assms set_ref_inv [OF assms] by (auto simp: addReference_eq split: option.splits named.splits)

lemma refstore_step_inv:
  assumes "refstore_step s s'" and inv: "refstore_inv s"
  shows "refstore_inv s'"
  using assms
proof (cases rule: refstore_step.cases)
  case (add_tag r ok i force)
  then show ?thesis
    using inv addReference_inv [OF inv stored_WithDefaultTag [OF add_tag(2)]] by (auto simp: AddTag_def split: named.splits)
next
  case (add_digest n d ok i force)
  then have "stored_ref (CanonicalRef n d)" by (simp add: stored_ref_def IsNameOnly_def)
  from addReference_inv [OF inv this] add_digest show ?thesis by (simp add: AddDigest_def)
next
  case (delete r ok)
  then show ?thesis
    using inv unset_ref_inv [OF inv stored_WithDefaultTag [OF delete(2)]]
    by (auto simp: refstore_Delete_eq refstore_save_def refstore_inv_def tag_of_def split: option.splits)
qed

lemma empty_refstore_inv: "refstore_inv empty_refstore"
  by (simp add: refstore_inv_def empty_refstore_def tag_of_def)

interpretation refs: transition_system "\<lambda>s. s = empty_refstore" refstore_step refstore_inv
  by unfold_locales (auto simp: empty_refstore_inv intro: refstore_step_inv)

section \<open>Listing and reloading\<close>

lemma References_set:
  assumes "refstore_inv s"
  shows "set (References i s) = {r. stored_ref r \<and> tag_of s r = Some i}"
proof -
  let ?m = "map_get fmempty (referencesByIDCache s) i"
  have "set (References i s) = {r. \<exists>k. fmlookup ?m k = Some r}"
    by (auto simp: References_def Let_def List.map_filter_def fmdomI intro!: rev_image_eqI)
  then show ?thesis using refstore_invD(3) [OF assms, of i] by (auto simp: look_def)
qed

lemma References_sorted: "sorted (map ref_String (References i s))"
  by (simp add: References_def Let_def)

lemma References_distinct:
  assumes "refstore_inv s"
  shows "distinct (References i s)"
proof -
  let ?m = "map_get fmempty (referencesByIDCache s) i"
  have str: "fmlookup ?m k = Some r \<Longrightarrow> ref_String r = k" for k r
    using refstore_invD(3) [OF assms, of i k r] by (simp add: look_def)
  have "distinct (List.map_filter (fmlookup ?m) ks)" if "distinct ks" for ks
    using that
  proof (induction ks)
    case (Cons k ks)
    have "r \<notin> set (List.map_filter (fmlookup ?m) ks)" if r: "fmlookup ?m k = Some r" for r
    proof
      assume "r \<in> set (List.map_filter (fmlookup ?m) ks)"
      then obtain k' where "k' \<in> set ks" "fmlookup ?m k' = Some r" by (auto simp: List.map_filter_def)
      with str [OF r] str [of k' r] Cons.prems show False by simp
    qed
    with Cons show ?case by (simp add: map_filter_simps split: option.splits)
  qed (simp add: map_filter_simps)
  then show ?thesis by (simp add: References_def Let_def sorted_list_of_fset.rep_eq)
qed

lemma look_reload_entries:
  "look (reload_entries es cache) i k =
     (if (k, i) \<in> set es \<and> (\<exists>r. ref_ParseNamed k = Inr r) then Some (projr (ref_ParseNamed k)) else look cache i k)"
  by (induction es cache rule: reload_entries.induct) (auto split: sum.splits)

lemma tidy_reload_entries: "tidy cache \<Longrightarrow> tidy (reload_entries es cache)"
  by (induction es cache rule: reload_entries.induct) (auto split: sum.splits)

lemma repo_entries_set: "(k, i) \<in> set (repo_entries repos) \<longleftrightarrow> (\<exists>n. look repos n k = Some i)"
proof
  assume "(k, i) \<in> set (repo_entries repos)"
  then obtain n m where "fmlookup repos n = Some m" "fmlookup m k = Some i"
    by (auto simp: repo_entries_def Let_def fmlookup_dom_iff map_get_Some)
  then have "look repos n k = Some i" by (simp add: look_def map_get_Some)
  then show "\<exists>n. look repos n k = Some i" ..
next
  assume "\<exists>n. look repos n k = Some i"
  then obtain n where n: "look repos n k = Some i" by blast
  then obtain m where m: "fmlookup repos n = Some m" "fmlookup m k = Some i"
    by (auto simp: look_def map_get_def split: option.splits)
  then have d: "n |\<in>| fmdom repos" "k |\<in>| fmdom m" by (simp_all add: fmdomI)
  have "(k, i) \<in> (\<lambda>k. (k, map_get '''' (map_get fmempty repos n) k)) ` fset (fmdom (map_get fmempty repos n))"
    using m d(2) by (intro image_eqI [of _ _ k]) (simp_all add: map_get_Some)
  with d(1) show "(k, i) \<in> set (repo_entries repos)"
    by (auto simp: repo_entries_def Let_def)
qed

lemma refstore_reload_cache:
  assumes inv: "refstore_inv s"
  shows "reload_entries (repo_entries (Repositories s)) fmempty = referencesByIDCache s"
proof (rule tidy_eqI)
  fix i k
  show "look (reload_entries (repo_entries (Repositories s)) fmempty) i k = look (referencesByIDCache s) i k"
  proof (cases "\<exists>n. look (Repositories s) n k = Some i")
    case True
    then obtain n where n: "look (Repositories s) n k = Some i" by blast
    from refstore_invD(4) [OF inv n] obtain r where r: "stored_ref r" "ref_Name r = n" "ref_String r = k" by blast
    then have "ref_ParseNamed k = Inr r" using ref_ParseNamed_String by (auto simp: stored_ref_def)
    moreover have "look (referencesByIDCache s) i k = Some r"
      using refstore_invD(3) [OF inv, of i k r] r n by (simp add: tag_of_def)
    ultimately show ?thesis using True by (simp add: look_reload_entries repo_entries_set)
  next
    case False
    have "look (referencesByIDCache s) i k = None"
    proof (cases "look (referencesByIDCache s) i k")
      case (Some r)
      with refstore_invD(3) [OF inv, of i k r] have "look (Repositories s) (ref_Name r) k = Some i" by (simp add: tag_of_def)
      with False show ?thesis by blast
    qed
    with False show ?thesis by (simp add: look_reload_entries repo_entries_set)
  qed
qed (simp_all add: tidy_reload_entries refstore_invD(2) [OF inv])

section \<open>Properties\<close>

definition demo_tag :: named where "demo_tag = TaggedRef ''ubuntu'' ''14.04''"
definition demo_digest :: named where
  "demo_digest = CanonicalRef ''ubuntu'' (''sha256:'' @ replicate 64 CHR ''0'')"

lemma demo_wf: "wf_ref demo_tag" "wf_ref demo_digest" "wf_ref (NamedRef ''ubuntu'')"
  by code_simp+

lemma AddTag_spec:
  assumes wf: "wf_ref r" and a: "\<not> (\<exists>n d. r = CanonicalRef n d)" "AddTag ok r i force s = (e, s')"
  shows "if ref_Name r \<noteq> ''sha256'' \<and> (refstore_Get r s = Inl ErrDoesNotExist \<or> force)
    then e = (if ok then None else Some ErrSave) \<and>
      (\<forall>q. wf_ref q \<longrightarrow> refstore_Get q s' = (if WithDefaultTag q = WithDefaultTag r then Inr i else refstore_Get q s))
    else e \<noteq> None \<and> s' = s"
proof -
  let ?r = "WithDefaultTag r"
  have r: "stored_ref ?r" using stored_WithDefaultTag [OF wf] .
  have nm: "ref_Name ?r = ref_Name r" by (simp add: WithDefaultTag_eq split: named.splits)
  have nc: "\<not> (\<exists>n d. ?r = CanonicalRef n d)" and add: "addReference ok ?r i force s = (e, s')"
    using a by (auto simp: AddTag_def WithDefaultTag_eq split: named.splits)
  have get: "refstore_Get r s = Inl ErrDoesNotExist \<longleftrightarrow> tag_of s ?r = None"
    by (simp add: refstore_Get_eq split: option.splits)
  have upd: "refstore_Get q (snd (refstore_save ok (set_ref ?r i s))) = (if WithDefaultTag q = ?r then Inr i else refstore_Get q s)"
    if "wf_ref q" for q
    using tag_of_set_ref [OF r stored_WithDefaultTag [OF that]] by (simp add: refstore_Get_eq)
  show ?thesis
  proof (cases "ref_Name r \<noteq> ''sha256'' \<and> (tag_of s ?r = None \<or> force)")
    case True
    then have "addReference ok ?r i force s = refstore_save ok (set_ref ?r i s)"
      using nc nm by (auto simp: addReference_eq split: option.splits named.splits)
    with add have s': "s' = snd (refstore_save ok (set_ref ?r i s))" and e: "e = fst (refstore_save ok (set_ref ?r i s))" by simp_all
    have "e = (if ok then None else Some ErrSave)" by (simp add: e refstore_save_def)
    with True show ?thesis unfolding get s' using upd by simp
  next
    case False
    then have "e \<noteq> None \<and> s' = s"
      using add nc nm by (auto simp: addReference_eq split: option.splits named.splits if_splits)
    with False show ?thesis unfolding get by auto
  qed
qed

lemma refstore_Delete_spec:
  assumes wf: "wf_ref r" and del: "refstore_Delete ok r s = ((b, e), s')"
  shows "if refstore_Get r s = Inl ErrDoesNotExist then \<not> b \<and> s' = s
    else b \<and> e = (if ok then None else Some ErrSave) \<and>
      (\<forall>q. wf_ref q \<longrightarrow> refstore_Get q s' = (if WithDefaultTag q = WithDefaultTag r then Inl ErrDoesNotExist else refstore_Get q s))"
proof -
  let ?r = "WithDefaultTag r"
  have r: "stored_ref ?r" using stored_WithDefaultTag [OF wf] .
  have upd: "refstore_Get q (snd (refstore_save ok (unset_ref ?r i s))) =
      (if WithDefaultTag q = ?r then Inl ErrDoesNotExist else refstore_Get q s)" if "wf_ref q" for q i
    using tag_of_unset_ref [OF r stored_WithDefaultTag [OF that]] by (simp add: refstore_Get_eq)
  show ?thesis
  proof (cases "tag_of s ?r")
    case None
    with del show ?thesis by (simp add: refstore_Delete_eq refstore_Get_eq)
  next
    case (Some i)
    with del have "b" "s' = snd (refstore_save ok (unset_ref ?r i s))" "e = fst (refstore_save ok (unset_ref ?r i s))"
      by (auto simp: refstore_Delete_eq split: prod.splits)
    with Some upd show ?thesis by (simp add: refstore_Get_eq [of r s]) (simp add: refstore_save_def)
  qed
qed

text \<open>
  C9. The store behaves as one map from references to images. Setting a tag on any store succeeds
  (up to the write to disk, whose failure is reported) exactly when the name is not that of the digest
  algorithm and the tag is free or the caller forces it; it then changes what that reference resolves
  to and nothing else, and otherwise it changes nothing. Deleting a reference likewise succeeds exactly
  when it is present and removes it alone.
\<close>
theorem refstore_is_a_map:
  assumes "wf_ref r"
  shows "(\<forall>ok i force e s'. \<not> (\<exists>n d. r = CanonicalRef n d) \<and> AddTag ok r i force s = (e, s') \<longrightarrow>
      (if ref_Name r \<noteq> ''sha256'' \<and> (refstore_Get r s = Inl ErrDoesNotExist \<or> force)
       then e = (if ok then None else Some ErrSave) \<and>
         (\<forall>q. wf_ref q \<longrightarrow> refstore_Get q s' = (if WithDefaultTag q = WithDefaultTag r then Inr i else refstore_Get q s))
       else e \<noteq> None \<and> s' = s)) \<and>
    (\<forall>ok b e s'. refstore_Delete ok r s = ((b, e), s') \<longrightarrow>
      (if refstore_Get r s = Inl ErrDoesNotExist then \<not> b \<and> s' = s
       else b \<and> e = (if ok then None else Some ErrSave) \<and>
         (\<forall>q. wf_ref q \<longrightarrow> refstore_Get q s' = (if WithDefaultTag q = WithDefaultTag r then Inl ErrDoesNotExist else refstore_Get q s))))"
  using AddTag_spec [OF assms] refstore_Delete_spec [OF assms] by blast

theorem refstore_is_a_map_witness:
  "wf_ref demo_tag \<and> refstore_Get demo_tag (snd (AddTag True demo_tag ''img1'' False empty_refstore)) = Inr ''img1''"
proof -
  have a: "\<not> (\<exists>n d. demo_tag = CanonicalRef n d)" "ref_Name demo_tag \<noteq> ''sha256''"
      "refstore_Get demo_tag empty_refstore = Inl ErrDoesNotExist"
    by (simp_all add: demo_tag_def refstore_Get_eq empty_refstore_def tag_of_def)
  from refstore_is_a_map [OF demo_wf(1), of empty_refstore, THEN conjunct1, rule_format, of True "''img1''" False]
  show ?thesis using a demo_wf(1) by (cases "AddTag True demo_tag ''img1'' False empty_refstore") simp
qed

text \<open>
  C28. Listing the references of an image returns, on every reachable store, exactly the references that
  resolve to it, each once, in the order of their strings.
\<close>
theorem References_complete:
  assumes "refstore_step\<^sup>*\<^sup>* empty_refstore s"
  shows "set (References i s) = {r. wf_ref r \<and> \<not> IsNameOnly r \<and> refstore_Get r s = Inr i} \<and>
    distinct (References i s) \<and> sorted (map ref_String (References i s))"
proof -
  have inv: "refstore_inv s" using refs.reachable_inv [OF refl assms] .
  have "refstore_Get r s = Inr i \<longleftrightarrow> tag_of s r = Some i" if "\<not> IsNameOnly r" for r
    using that by (simp add: refstore_Get_eq WithDefaultTag_def split: option.splits)
  then show ?thesis
    using References_set [OF inv, of i] References_distinct [OF inv] References_sorted by (auto simp: stored_ref_def)
qed

theorem References_complete_witness:
  "demo_tag \<in> set (References ''img1'' (snd (AddTag True demo_tag ''img1'' False empty_refstore)))"
proof -
  have r: "refstore_step\<^sup>*\<^sup>* empty_refstore (snd (AddTag True demo_tag ''img1'' False empty_refstore))"
    by (rule r_into_rtranclp) (rule refstore_step.add_tag [OF demo_wf(1)])
  have g: "refstore_Get demo_tag (snd (AddTag True demo_tag ''img1'' False empty_refstore)) = Inr ''img1''" by code_simp
  have "\<not> IsNameOnly demo_tag" by (simp add: demo_tag_def IsNameOnly_def)
  with References_complete [OF r, of "''img1''"] g demo_wf(1) show ?thesis by simp
qed

text \<open>Additions only.\<close>

inductive refstore_add_step :: "ref_store \<Rightarrow> ref_store \<Rightarrow> bool" where
  tag: "wf_ref r \<Longrightarrow> refstore_add_step s (snd (AddTag ok r i force s))"
| digest: "wf_ref (CanonicalRef n d) \<Longrightarrow> refstore_add_step s (snd (AddDigest ok (CanonicalRef n d) i force s))"

lemma addReference_keeps_digest:
  assumes "stored_ref r" and d: "wf_ref (CanonicalRef n d)" "tag_of s (CanonicalRef n d) = Some i"
  shows "tag_of (snd (addReference ok r j force s)) (CanonicalRef n d) = Some i"
proof (cases "r = CanonicalRef n d")
  case True
  with d(2) show ?thesis by (auto simp: addReference_eq)
next
  case False
  have "stored_ref (CanonicalRef n d)" using d(1) by (simp add: stored_ref_def IsNameOnly_def)
  from tag_of_set_ref [OF assms(1) this] False d(2) show ?thesis
    by (auto simp: addReference_eq split: option.splits named.splits)
qed

lemma refstore_add_step_digest:
  assumes "refstore_add_step s s'" and d: "wf_ref (CanonicalRef n d)" "tag_of s (CanonicalRef n d) = Some i"
  shows "tag_of s' (CanonicalRef n d) = Some i"
  using assms(1)
proof (cases rule: refstore_add_step.cases)
  case (tag r ok j force)
  then show ?thesis
    using addReference_keeps_digest [OF stored_WithDefaultTag [OF tag(2)] d, of ok j force] d(2)
    by (auto simp: AddTag_def split: named.splits)
next
  case (digest m e ok j force)
  then have "stored_ref (CanonicalRef m e)" by (simp add: stored_ref_def IsNameOnly_def)
  from addReference_keeps_digest [OF this d] digest show ?thesis by (simp add: AddDigest_def)
qed

text \<open>
  C23. A digest is never repointed: once a digest reference resolves to an image, it still does after any
  sequence of additions of tags and digests, forced or not.
\<close>
theorem digests_are_immutable:
  assumes "wf_ref (CanonicalRef n d)" and "refstore_Get (CanonicalRef n d) s = Inr i" and "refstore_add_step\<^sup>*\<^sup>* s s'"
  shows "refstore_Get (CanonicalRef n d) s' = Inr i"
proof -
  have "tag_of s (CanonicalRef n d) = Some i"
    using assms(2) by (simp add: refstore_Get_eq WithDefaultTag_eq split: option.splits)
  with assms(3) have "tag_of s' (CanonicalRef n d) = Some i"
    by (induction rule: rtranclp_induct) (auto intro: refstore_add_step_digest [OF _ assms(1)])
  then show ?thesis by (simp add: refstore_Get_eq WithDefaultTag_eq)
qed

definition demo_digested :: ref_store where
  "demo_digested = snd (AddDigest True demo_digest ''img1'' False empty_refstore)"

theorem digests_are_immutable_witness:
  "refstore_Get demo_digest (snd (AddDigest True demo_digest ''img2'' True demo_digested)) = Inr ''img1''"
proof -
  have g: "refstore_Get demo_digest demo_digested = Inr ''img1''" by code_simp
  have "refstore_add_step\<^sup>*\<^sup>* demo_digested (snd (AddDigest True demo_digest ''img2'' True demo_digested))"
    unfolding demo_digest_def by (rule r_into_rtranclp) (rule refstore_add_step.digest [OF demo_wf(2) [unfolded demo_digest_def]])
  from digests_are_immutable [OF demo_wf(2) [unfolded demo_digest_def] g [unfolded demo_digest_def] this]
  show ?thesis by (simp add: demo_digest_def)
qed



end
