(* ===== verification/LayerMeta.thy ===== *)
theory LayerMeta
  imports Reference "HOL-Library.Char_ord" "HOL-Library.List_Lexorder"
begin

text \<open>
  The metadata of layers on disk (\<^verbatim>\<open>src/layer/filestore.go\<close>), file by file. \<open>fm_layers\<close> maps a layer
  directory, given by digest algorithm and hexadecimal part, to its files, \<open>fm_mounts\<close> a mount's
  directory to its files; a transaction is the content of its temporary directory, which \<open>Commit\<close>
  renames into place. A descriptor is identified with its JSON text.
\<close>

section \<open>Data\<close>

type_synonym files = "(string, string) fmap"

record fileMetadataStore =
  fm_layers :: "(string \<times> string, files) fmap"
  fm_mounts :: "(string, files) fmap"

datatype meta_error =
    MetaNotExist
  | MetaBadDigest ref_error
  | MetaBadSize
  | MetaBadID
  | MetaExists
  | MetaPanic

definition NewFSMetadataStore :: fileMetadataStore where
  "NewFSMetadataStore = \<lparr>fm_layers = fmempty, fm_mounts = fmempty\<rparr>"

text \<open>\<open>dgst.Algorithm()\<close> and \<open>dgst.Hex()\<close> panic on a string without a colon; \<open>None\<close> is the panic.\<close>

definition getLayerDirectory :: "string \<Rightarrow> (string \<times> string) option" where
  "getLayerDirectory layer =
     (case index_char CHR '':'' layer of None \<Rightarrow> None | Some i \<Rightarrow> Some (take i layer, drop (i + 1) layer))"

definition stringIDRegexp :: "string \<Rightarrow> bool" where
  "stringIDRegexp s \<longleftrightarrow> v1_ValidateID s \<or>
     (length s = 69 \<and> v1_ValidateID (take 64 s) \<and> drop 64 s = ''-init'')"

section \<open>Transactions\<close>

definition StartTransaction :: files where "StartTransaction = fmempty"

definition tx_SetSize :: "int \<Rightarrow> files \<Rightarrow> files" where "tx_SetSize n tx = fmupd ''size'' (itoa n) tx"
definition tx_SetParent :: "string \<Rightarrow> files \<Rightarrow> files" where "tx_SetParent p tx = fmupd ''parent'' p tx"
definition tx_SetDiffID :: "string \<Rightarrow> files \<Rightarrow> files" where "tx_SetDiffID d tx = fmupd ''diff'' d tx"
definition tx_SetCacheID :: "string \<Rightarrow> files \<Rightarrow> files" where "tx_SetCacheID c tx = fmupd ''cache-id'' c tx"
definition tx_SetDescriptor :: "string \<Rightarrow> files \<Rightarrow> files" where "tx_SetDescriptor d tx = fmupd ''descriptor.json'' d tx"
definition tx_TarSplit :: "string \<Rightarrow> files \<Rightarrow> files" where "tx_TarSplit data tx = fmupd ''tar-split.json.gz'' data tx"

text \<open>Renaming a directory onto another succeeds only when the target is missing or empty.\<close>

definition tx_Commit :: "string \<Rightarrow> files \<Rightarrow> fileMetadataStore \<Rightarrow> meta_error option \<times> fileMetadataStore" where
  "tx_Commit layer tx s =
     (case getLayerDirectory layer of
        None \<Rightarrow> (Some MetaPanic, s)
      | Some dir \<Rightarrow>
          if map_get fmempty (fm_layers s) dir \<noteq> fmempty then (Some MetaExists, s)
          else (None, s\<lparr>fm_layers := fmupd dir tx (fm_layers s)\<rparr>))"

section \<open>Reading layers\<close>

definition layer_file :: "string \<Rightarrow> string \<Rightarrow> fileMetadataStore \<Rightarrow> meta_error + string" where
  "layer_file layer filename s =
     (case getLayerDirectory layer of
        None \<Rightarrow> Inl MetaPanic
      | Some dir \<Rightarrow> (case fmlookup (map_get fmempty (fm_layers s) dir) filename of
                       None \<Rightarrow> Inl MetaNotExist | Some c \<Rightarrow> Inr c))"

definition read_digest :: "string \<Rightarrow> meta_error + string" where
  "read_digest content = (case ParseDigest (trim_space content) of Inl e \<Rightarrow> Inl (MetaBadDigest e) | Inr d \<Rightarrow> Inr d)"

definition fms_GetSize :: "string \<Rightarrow> fileMetadataStore \<Rightarrow> meta_error + int" where
  "fms_GetSize layer s =
     (case layer_file layer ''size'' s of
        Inl e \<Rightarrow> Inl e
      | Inr content \<Rightarrow> (case parse_int64 content of None \<Rightarrow> Inl MetaBadSize | Some n \<Rightarrow> Inr n))"

definition fms_GetParent :: "string \<Rightarrow> fileMetadataStore \<Rightarrow> meta_error + string" where
  "fms_GetParent layer s =
     (case layer_file layer ''parent'' s of
        Inl e \<Rightarrow> if e = MetaNotExist then Inr '''' else Inl e
      | Inr content \<Rightarrow> read_digest content)"

definition fms_GetDiffID :: "string \<Rightarrow> fileMetadataStore \<Rightarrow> meta_error + string" where
  "fms_GetDiffID layer s =
     (case layer_file layer ''diff'' s of Inl e \<Rightarrow> Inl e | Inr content \<Rightarrow> read_digest content)"

definition fms_GetCacheID :: "string \<Rightarrow> fileMetadataStore \<Rightarrow> meta_error + string" where
  "fms_GetCacheID layer s =
     (case layer_file layer ''cache-id'' s of
        Inl e \<Rightarrow> Inl e
      | Inr content \<Rightarrow> (let c = trim_space content in if \<not> stringIDRegexp c then Inl MetaBadID else Inr c))"

definition fms_GetDescriptor :: "string \<Rightarrow> fileMetadataStore \<Rightarrow> meta_error + string" where
  "fms_GetDescriptor layer s =
     (case layer_file layer ''descriptor.json'' s of
        Inl e \<Rightarrow> if e = MetaNotExist then Inr '''' else Inl e
      | Inr content \<Rightarrow> Inr content)"

definition fms_TarSplitReader :: "string \<Rightarrow> fileMetadataStore \<Rightarrow> meta_error + string" where
  "fms_TarSplitReader layer s = layer_file layer ''tar-split.json.gz'' s"

definition fms_Remove :: "string \<Rightarrow> fileMetadataStore \<Rightarrow> fileMetadataStore" where
  "fms_Remove layer s =
     (case getLayerDirectory layer of None \<Rightarrow> s | Some dir \<Rightarrow> s\<lparr>fm_layers := fmdrop dir (fm_layers s)\<rparr>)"

section \<open>Mounts\<close>

definition set_mount_file :: "string \<Rightarrow> string \<Rightarrow> string \<Rightarrow> fileMetadataStore \<Rightarrow> fileMetadataStore" where
  "set_mount_file mount filename content s =
     s\<lparr>fm_mounts := fmupd mount (fmupd filename content (map_get fmempty (fm_mounts s) mount)) (fm_mounts s)\<rparr>"

definition fms_SetMountID :: "string \<Rightarrow> string \<Rightarrow> fileMetadataStore \<Rightarrow> fileMetadataStore" where
  "fms_SetMountID mount mountID s = set_mount_file mount ''mount-id'' mountID s"
definition fms_SetInitID :: "string \<Rightarrow> string \<Rightarrow> fileMetadataStore \<Rightarrow> fileMetadataStore" where
  "fms_SetInitID mount initID s = set_mount_file mount ''init-id'' initID s"
definition fms_SetMountParent :: "string \<Rightarrow> string \<Rightarrow> fileMetadataStore \<Rightarrow> fileMetadataStore" where
  "fms_SetMountParent mount parent s = set_mount_file mount ''parent'' parent s"

definition mount_file :: "string \<Rightarrow> string \<Rightarrow> fileMetadataStore \<Rightarrow> meta_error + string" where
  "mount_file mount filename s =
     (case fmlookup (map_get fmempty (fm_mounts s) mount) filename of None \<Rightarrow> Inl MetaNotExist | Some c \<Rightarrow> Inr c)"

definition fms_GetMountID :: "string \<Rightarrow> fileMetadataStore \<Rightarrow> meta_error + string" where
  "fms_GetMountID mount s =
     (case mount_file mount ''mount-id'' s of
        Inl e \<Rightarrow> Inl e
      | Inr content \<Rightarrow> (let c = trim_space content in if \<not> stringIDRegexp c then Inl MetaBadID else Inr c))"

definition fms_GetInitID :: "string \<Rightarrow> fileMetadataStore \<Rightarrow> meta_error + string" where
  "fms_GetInitID mount s =
     (case mount_file mount ''init-id'' s of
        Inl e \<Rightarrow> if e = MetaNotExist then Inr '''' else Inl e
      | Inr content \<Rightarrow> (let c = trim_space content in if \<not> stringIDRegexp c then Inl MetaBadID else Inr c))"

definition fms_GetMountParent :: "string \<Rightarrow> fileMetadataStore \<Rightarrow> meta_error + string" where
  "fms_GetMountParent mount s =
     (case mount_file mount ''parent'' s of
        Inl e \<Rightarrow> if e = MetaNotExist then Inr '''' else Inl e
      | Inr content \<Rightarrow> read_digest content)"

definition fms_RemoveMount :: "string \<Rightarrow> fileMetadataStore \<Rightarrow> fileMetadataStore" where
  "fms_RemoveMount mount s = s\<lparr>fm_mounts := fmdrop mount (fm_mounts s)\<rparr>"

text \<open>\<open>ReadDir\<close> lists a directory in the order of the names. Only one algorithm is supported.\<close>

definition supportedAlgorithms :: "string list" where "supportedAlgorithms = [''sha256'']"

definition fms_List :: "fileMetadataStore \<Rightarrow> string list \<times> string list" where
  "fms_List s =
     (concat (map (\<lambda>alg.
        filter (\<lambda>d. Digest_Validate d = None)
          (map (\<lambda>h. alg @ '':'' @ h)
            (filter (\<lambda>h. h \<noteq> ''mounts'') (sorted_list_of_fset (snd |`| ffilter (\<lambda>(a, h). a = alg) (fmdom (fm_layers s)))))))
        supportedAlgorithms),
      sorted_list_of_fset (fmdom (fm_mounts s)))"

section \<open>Canonical digests\<close>

text \<open>The form of the digests the engine computes: the canonical algorithm, and 64 lower-case hexadecimal digits.\<close>

definition canonical :: "string \<Rightarrow> bool" where
  "canonical d \<longleftrightarrow> take 7 d = ''sha256:'' \<and> v1_ValidateID (drop 7 d)"

lemma canonicalE:
  assumes "canonical d"
  obtains hex where "d = ''sha256:'' @ hex" "v1_ValidateID hex"
  using assms append_take_drop_id [of 7 d] that [of "drop 7 d"] by (simp add: canonical_def)

lemma xdigit_not_space: "is_xdigit c \<Longrightarrow> \<not> is_space c"
  unfolding is_space_def is_xdigit_def is_digit_def Let_def by linarith

lemma ValidateID_no_space: "v1_ValidateID s \<Longrightarrow> list_all (\<lambda>c. \<not> is_space c) s"
  by (auto simp: v1_ValidateID_def list_all_iff dest: xdigit_not_space)

lemma canonical_digest:
  assumes "canonical d"
  shows "Digest_Validate d = None" "getLayerDirectory d = Some (''sha256'', drop 7 d)" "read_digest d = Inr d"
    "''sha256'' @ '':'' @ drop 7 d = d"
proof -
  obtain hex where d: "d = ''sha256:'' @ hex" "v1_ValidateID hex" using canonicalE [OF assms] .
  have i: "index_char CHR '':'' d = Some 6" by (simp add: d)
  have x: "list_all is_xdigit hex" "length hex = 64" using d(2) by (auto simp: v1_ValidateID_def list_all_iff)
  show v: "Digest_Validate d = None"
    using x by (auto simp: Digest_Validate_def DigestRegexpAnchored_def d Algorithm_Size_def char_classes)
  show "getLayerDirectory d = Some (''sha256'', drop 7 d)" by (simp add: getLayerDirectory_def d)
  have "list_all (\<lambda>c. \<not> is_space c) d" using ValidateID_no_space [OF d(2)] by (simp add: d is_space_def Let_def)
  then show "read_digest d = Inr d" using v by (simp add: read_digest_def trim_space_nospace ParseDigest_def)
  show "''sha256'' @ '':'' @ drop 7 d = d" by (simp add: d)
qed

lemma canonical_nonempty: "canonical d \<Longrightarrow> d \<noteq> ''''"
  by (auto simp: canonical_def)

end
