(* ===== verification/LayerStore.thy ===== *)
theory LayerStore
  imports LayerMeta "HOL-Library.Multiset"
begin

text \<open>
  The store of read-only layers and writable mounts (\<^verbatim>\<open>src/layer/layer_store.go\<close>, \<^verbatim>\<open>ro_layer.go\<close>,
  \<^verbatim>\<open>mounted_layer.go\<close>, \<^verbatim>\<open>layer.go\<close>).

  Layers are shared through pointers, so they live in a heap: \<open>ls_heap\<close> maps an address to a layer,
  \<open>ls_layerMap\<close> a chain identifier to the address of the registered layer. A layer is allocated after its
  parent, so a parent's address is smaller; the functions that walk the parents stop if it is not.
  A reference handed out to a caller is a fresh number, as in the code it is a fresh pointer. The graph
  driver is a set of identifiers; whether a call to it, or a write to disk, succeeds is an argument, as
  is the hash function \<open>H\<close> (\<open>digest.FromBytes\<close>).
\<close>

section \<open>Data\<close>

record roLayer =
  rl_chainID :: string
  rl_diffID :: string
  rl_parent :: "nat option"
  rl_cacheID :: string
  rl_size :: int
  rl_descriptor :: string
  rl_referenceCount :: nat
  rl_references :: "nat fset"

record mountedLayer =
  ml_name :: string
  ml_mountID :: string
  ml_initID :: string
  ml_parent :: "nat option"
  ml_references :: "nat fset"

record layerStore =
  ls_heap :: "(nat, roLayer) fmap"
  ls_layerMap :: "(string, nat) fmap"
  ls_mounts :: "(string, mountedLayer) fmap"
  ls_fresh :: nat
  ls_store :: fileMetadataStore
  ls_driver :: "string fset"

text \<open>What a caller holds: the layer's chain identifier or the mount's name, and the reference.\<close>

record layer_handle =
  lh_ChainID :: string
  lh_ref :: nat

record rw_handle =
  rw_Name :: string
  rw_ref :: nat

record layer_md =
  md_ChainID :: string
  md_DiffID :: string
  md_Size :: int
  md_DiffSize :: int

datatype layer_error =
    ErrLayerDoesNotExist
  | ErrLayerNotRetained
  | ErrMountDoesNotExist
  | ErrMountNameConflict
  | ErrMaxDepthExceeded
  | ErrDriver
  | ErrMetadata

datatype release_result = Released "layer_md list" | ReleaseError layer_error | ReleasePanic string

datatype 'h layer_result = LayerOK 'h | LayerErr layer_error | LayerPanic string

definition maxLayerDepth :: nat where "maxLayerDepth = 125"

section \<open>Chain identifiers\<close>

fun createChainIDFromParent :: "(string \<Rightarrow> string) \<Rightarrow> string \<Rightarrow> string list \<Rightarrow> string" where
  "createChainIDFromParent H parent [] = parent"
| "createChainIDFromParent H parent (d # ds) =
     (if parent = '''' then createChainIDFromParent H d ds
      else createChainIDFromParent H (H (parent @ '' '' @ d)) ds)"

definition CreateChainID :: "(string \<Rightarrow> string) \<Rightarrow> string list \<Rightarrow> string" where
  "CreateChainID H dgsts = createChainIDFromParent H '''' dgsts"

section \<open>Read-only layers\<close>

definition upd_layer :: "nat \<Rightarrow> (roLayer \<Rightarrow> roLayer) \<Rightarrow> layerStore \<Rightarrow> layerStore" where
  "upd_layer a f s =
     (case fmlookup (ls_heap s) a of None \<Rightarrow> s | Some l \<Rightarrow> s\<lparr>ls_heap := fmupd a (f l) (ls_heap s)\<rparr>)"

function layer_Size :: "(nat, roLayer) fmap \<Rightarrow> nat \<Rightarrow> int" where
  "layer_Size h a =
     (case fmlookup h a of
        None \<Rightarrow> 0
      | Some l \<Rightarrow> (case rl_parent l of None \<Rightarrow> 0 | Some p \<Rightarrow> if p < a then layer_Size h p else 0) + rl_size l)"
  by pat_completeness auto
termination by (relation "measure snd") auto

function layer_depth :: "(nat, roLayer) fmap \<Rightarrow> nat \<Rightarrow> nat" where
  "layer_depth h a =
     (case fmlookup h a of
        None \<Rightarrow> 1
      | Some l \<Rightarrow> (case rl_parent l of None \<Rightarrow> 1 | Some p \<Rightarrow> if p < a then layer_depth h p + 1 else 1))"
  by pat_completeness auto
termination by (relation "measure snd") auto

declare layer_Size.simps [simp del] layer_depth.simps [simp del]

definition getReference :: "nat \<Rightarrow> layerStore \<Rightarrow> layer_handle option \<times> layerStore" where
  "getReference a s =
     (case fmlookup (ls_heap s) a of
        None \<Rightarrow> (None, s)
      | Some l \<Rightarrow>
          (let ref = ls_fresh s
           in (Some \<lparr>lh_ChainID = rl_chainID l, lh_ref = ref\<rparr>,
               upd_layer a (\<lambda>l. l\<lparr>rl_references := finsert ref (rl_references l)\<rparr>) (s\<lparr>ls_fresh := Suc ref\<rparr>))))"

definition hasReference :: "nat \<Rightarrow> roLayer \<Rightarrow> bool" where
  "hasReference ref l \<longleftrightarrow> ref |\<in>| rl_references l"

definition hasReferences :: "roLayer \<Rightarrow> bool" where
  "hasReferences l \<longleftrightarrow> rl_references l \<noteq> {||}"

definition deleteReference :: "nat \<Rightarrow> nat \<Rightarrow> layerStore \<Rightarrow> layerStore" where
  "deleteReference a ref s = upd_layer a (\<lambda>l. l\<lparr>rl_references := rl_references l |-| {|ref|}\<rparr>) s"

definition storeLayer :: "string option \<Rightarrow> roLayer \<Rightarrow> files \<Rightarrow> files" where
  "storeLayer parentChain l tx =
     (let tx = tx_SetCacheID (rl_cacheID l) (tx_SetSize (rl_size l) (tx_SetDiffID (rl_diffID l) tx));
          tx = (if rl_descriptor l \<noteq> '''' then tx_SetDescriptor (rl_descriptor l) tx else tx)
      in case parentChain of Some p \<Rightarrow> tx_SetParent p tx | None \<Rightarrow> tx)"

definition getWithoutLock :: "string \<Rightarrow> layerStore \<Rightarrow> nat option \<times> layerStore" where
  "getWithoutLock c s =
     (case fmlookup (ls_layerMap s) c of
        None \<Rightarrow> (None, s)
      | Some a \<Rightarrow> (Some a, upd_layer a (\<lambda>l. l\<lparr>rl_referenceCount := rl_referenceCount l + 1\<rparr>) s))"

definition ls_Get :: "string \<Rightarrow> layerStore \<Rightarrow> layer_handle layer_result \<times> layerStore" where
  "ls_Get c s =
     (case getWithoutLock c s of
        (None, s') \<Rightarrow> (LayerErr ErrLayerDoesNotExist, s')
      | (Some a, s') \<Rightarrow>
          (case getReference a s' of
             (Some h, s'') \<Rightarrow> (LayerOK h, s'')
           | (None, s'') \<Rightarrow> (LayerPanic ''nil layer'', s'')))"

section \<open>Releasing\<close>

text \<open>\<open>(d, m)\<close>: whether the driver removes the layer, and whether its metadata can be removed.\<close>

definition deleteLayer :: "bool \<times> bool \<Rightarrow> nat \<Rightarrow> roLayer \<Rightarrow> layerStore \<Rightarrow> (layer_error + layer_md) \<times> layerStore" where
  "deleteLayer ok a l s =
     (if \<not> fst ok then (Inl ErrDriver, s)
      else
        (let s1 = s\<lparr>ls_driver := ls_driver s |-| {|rl_cacheID l|}\<rparr>
         in if \<not> snd ok then (Inl ErrMetadata, s1)
            else (Inr \<lparr>md_ChainID = rl_chainID l, md_DiffID = rl_diffID l, md_Size = layer_Size (ls_heap s) a,
                       md_DiffSize = rl_size l\<rparr>,
                  s1\<lparr>ls_store := fms_Remove (rl_chainID l) (ls_store s1)\<rparr>)))"

text \<open>\<open>env k\<close> is the outcome of the \<open>k\<close>-th removal of the loop.\<close>

function releaseLayer :: "(nat \<Rightarrow> bool \<times> bool) \<Rightarrow> nat \<Rightarrow> layer_md list \<Rightarrow> nat \<Rightarrow> layerStore \<Rightarrow> release_result \<times> layerStore" where
  "releaseLayer env depth removed a s =
     (case fmlookup (ls_heap s) a of
        None \<Rightarrow> (ReleasePanic ''nil layer'', s)
      | Some l \<Rightarrow>
          if rl_referenceCount l = 0 then (ReleasePanic ''layer not retained'', s)
          else
            (let s1 = upd_layer a (\<lambda>l. l\<lparr>rl_referenceCount := rl_referenceCount l - 1\<rparr>) s
             in if rl_referenceCount l - 1 \<noteq> 0 then (Released removed, s1)
                else if removed = [] \<and> 0 < depth then (ReleasePanic ''cannot remove layer with child'', s1)
                else if hasReferences l then (ReleasePanic ''cannot delete referenced layer'', s1)
                else
                  (case deleteLayer (env depth) a l s1 of
                     (Inl err, s2) \<Rightarrow> (ReleaseError err, s2)
                   | (Inr md, s2) \<Rightarrow>
                       (let s3 = s2\<lparr>ls_layerMap := fmdrop (rl_chainID l) (ls_layerMap s2)\<rparr>; removed = removed @ [md]
                        in case rl_parent l of
                             None \<Rightarrow> (Released removed, s3)
                           | Some p \<Rightarrow> if p < a then releaseLayer env (Suc depth) removed p s3 else (Released removed, s3)))))"
  by pat_completeness auto
termination by (relation "measure (\<lambda>(env, depth, removed, a, s). a)") auto

declare releaseLayer.simps [simp del]

definition ls_Release :: "(nat \<Rightarrow> bool \<times> bool) \<Rightarrow> layer_handle \<Rightarrow> layerStore \<Rightarrow> release_result \<times> layerStore" where
  "ls_Release env h s =
     (case fmlookup (ls_layerMap s) (lh_ChainID h) of
        None \<Rightarrow> (Released [], s)
      | Some a \<Rightarrow>
          (case fmlookup (ls_heap s) a of
             None \<Rightarrow> (ReleasePanic ''nil layer'', s)
           | Some l \<Rightarrow>
               if \<not> hasReference (lh_ref h) l then (ReleaseError ErrLayerNotRetained, s)
               else releaseLayer env 0 [] a (deleteReference a (lh_ref h) s)))"

section \<open>Registering a layer\<close>

text \<open>
  \<open>registerWithDescriptor\<close> takes the layer lock up to three times: to retain the parent, to publish the
  new layer, and, in a deferred function, to release the parent if the layer was not published. In
  between other calls may run. The model has the critical sections as three steps, \<open>register_begin\<close>,
  \<open>register_publish\<close> and \<open>release_parent\<close>, and the call as their composition; the flag that
  \<open>register_publish\<close> returns is the test \<open>err != nil\<close> of the deferred functions. The environment holds
  the outcome of each call to the outside, the fresh cache identifier, and what applying the stream
  computed.
\<close>

record register_env =
  re_Create :: bool
  re_StartTransaction :: bool
  re_applyTar :: "(int \<times> string \<times> string) option"
  re_storeLayer :: bool
  re_Commit :: bool
  re_cleanup_Remove :: bool
  re_cacheID :: string
  re_release :: "nat \<Rightarrow> bool \<times> bool"

definition register_begin :: "string \<Rightarrow> layerStore \<Rightarrow> (layer_error + nat option) \<times> layerStore" where
  "register_begin parent s =
     (if parent = '''' then (Inr None, s)
      else (case getWithoutLock parent s of
              (None, s') \<Rightarrow> (Inl ErrLayerDoesNotExist, s')
            | (Some p, s') \<Rightarrow> (Inr (Some p), s')))"

text \<open>The deferred release of the parent, whose error is dropped.\<close>

definition release_parent :: "(nat \<Rightarrow> bool \<times> bool) \<Rightarrow> nat option \<Rightarrow> 'h layer_result \<Rightarrow> layerStore \<Rightarrow> 'h layer_result \<times> layerStore" where
  "release_parent env p res s =
     (case p of
        None \<Rightarrow> (res, s)
      | Some a \<Rightarrow> (case releaseLayer env 0 [] a s of
                     (ReleasePanic m, s') \<Rightarrow> (LayerPanic m, s')
                   | (_, s') \<Rightarrow> (res, s')))"

text \<open>The other deferred function: the driver's layer and the transaction are discarded.\<close>

definition register_cleanup :: "register_env \<Rightarrow> layerStore \<Rightarrow> layerStore" where
  "register_cleanup env s =
     (if re_cleanup_Remove env then s\<lparr>ls_driver := ls_driver s |-| {|re_cacheID env|}\<rparr> else s)"

definition add_layer :: "roLayer \<Rightarrow> layerStore \<Rightarrow> nat \<times> layerStore" where
  "add_layer l s =
     (let a = ls_fresh s
      in (a, s\<lparr>ls_heap := fmupd a l (ls_heap s), ls_layerMap := fmupd (rl_chainID l) a (ls_layerMap s), ls_fresh := Suc a\<rparr>))"

definition chain_of :: "nat option \<Rightarrow> layerStore \<Rightarrow> string option" where
  "chain_of p s = (case p of None \<Rightarrow> None | Some a \<Rightarrow> map_option rl_chainID (fmlookup (ls_heap s) a))"

definition handle_result :: "layer_handle option \<times> layerStore \<Rightarrow> layer_handle layer_result \<times> layerStore" where
  "handle_result r = (case r of (Some h, s) \<Rightarrow> (LayerOK h, s) | (None, s) \<Rightarrow> (LayerPanic ''nil layer'', s))"

definition new_layer :: "(string \<Rightarrow> string) \<Rightarrow> register_env \<Rightarrow> string \<Rightarrow> nat option \<Rightarrow> int \<Rightarrow> string \<Rightarrow> layerStore \<Rightarrow> roLayer" where
  "new_layer H env descriptor p sz diffID s =
     \<lparr>rl_chainID = (case chain_of p s of None \<Rightarrow> diffID | Some pc \<Rightarrow> createChainIDFromParent H pc [diffID]),
      rl_diffID = diffID, rl_parent = p, rl_cacheID = re_cacheID env, rl_size = sz,
      rl_descriptor = descriptor, rl_referenceCount = 1, rl_references = {||}\<rparr>"

definition register_publish :: "(string \<Rightarrow> string) \<Rightarrow> register_env \<Rightarrow> string \<Rightarrow> nat option \<Rightarrow> layerStore
    \<Rightarrow> (bool \<times> layer_handle layer_result) \<times> layerStore" where
  "register_publish H env descriptor p s =
     (if (case p of None \<Rightarrow> False | Some a \<Rightarrow> maxLayerDepth \<le> layer_depth (ls_heap s) a) then
        ((True, LayerErr ErrMaxDepthExceeded), s)
      else if \<not> re_Create env then ((True, LayerErr ErrDriver), s)
      else
        (let s1 = s\<lparr>ls_driver := finsert (re_cacheID env) (ls_driver s)\<rparr>
         in if \<not> re_StartTransaction env then ((True, LayerErr ErrMetadata), s1)
            else (case re_applyTar env of
              None \<Rightarrow> ((True, LayerErr ErrDriver), register_cleanup env s1)
            | Some (sz, diffID, tarsplit) \<Rightarrow>
                (let l = new_layer H env descriptor p sz diffID s;
                     tx = storeLayer (chain_of p s) l (tx_TarSplit tarsplit StartTransaction)
                 in if \<not> re_storeLayer env then ((True, LayerErr ErrMetadata), register_cleanup env s1)
                    else (case getWithoutLock (rl_chainID l) s1 of
                        (Some a, s2) \<Rightarrow>
                          (case handle_result (getReference a s2) of (res, s3) \<Rightarrow> ((True, res), register_cleanup env s3))
                      | (None, s2) \<Rightarrow>
                          (case tx_Commit (rl_chainID l) tx (ls_store s2) of
                             (Some MetaPanic, _) \<Rightarrow> ((False, LayerPanic ''digest without separator''), s2)
                           | (err, meta) \<Rightarrow>
                               if err \<noteq> None \<or> \<not> re_Commit env then
                                 ((True, LayerErr ErrMetadata), register_cleanup env s2)
                               else
                                 (case add_layer l (s2\<lparr>ls_store := meta\<rparr>) of
                                    (a, s3) \<Rightarrow> (case handle_result (getReference a s3) of (res, s4) \<Rightarrow> ((False, res), s4)))))))))"

definition register_finish :: "(string \<Rightarrow> string) \<Rightarrow> register_env \<Rightarrow> string \<Rightarrow> nat option \<Rightarrow> layerStore
    \<Rightarrow> layer_handle layer_result \<times> layerStore" where
  "register_finish H env descriptor p s =
     (case register_publish H env descriptor p s of
        ((True, res), s') \<Rightarrow> release_parent (re_release env) p res s'
      | ((False, res), s') \<Rightarrow> (res, s'))"

definition registerWithDescriptor :: "(string \<Rightarrow> string) \<Rightarrow> register_env \<Rightarrow> string \<Rightarrow> string \<Rightarrow> layerStore
    \<Rightarrow> layer_handle layer_result \<times> layerStore" where
  "registerWithDescriptor H env parent descriptor s =
     (case register_begin parent s of
        (Inl err, s') \<Rightarrow> (LayerErr err, s')
      | (Inr p, s') \<Rightarrow> register_finish H env descriptor p s')"

definition ls_Register :: "(string \<Rightarrow> string) \<Rightarrow> register_env \<Rightarrow> string \<Rightarrow> layerStore \<Rightarrow> layer_handle layer_result \<times> layerStore" where
  "ls_Register H env parent s = registerWithDescriptor H env parent '''' s"

section \<open>Writable layers\<close>

definition cacheParent :: "layerStore \<Rightarrow> mountedLayer \<Rightarrow> string" where
  "cacheParent s m =
     (if ml_initID m \<noteq> '''' then ml_initID m
      else case ml_parent m of None \<Rightarrow> '''' | Some p \<Rightarrow> (case fmlookup (ls_heap s) p of None \<Rightarrow> '''' | Some l \<Rightarrow> rl_cacheID l))"

definition ml_getReference :: "mountedLayer \<Rightarrow> layerStore \<Rightarrow> rw_handle \<times> layerStore" where
  "ml_getReference m s =
     (let ref = ls_fresh s
      in (\<lparr>rw_Name = ml_name m, rw_ref = ref\<rparr>,
          s\<lparr>ls_fresh := Suc ref, ls_mounts := fmupd (ml_name m) (m\<lparr>ml_references := finsert ref (ml_references m)\<rparr>) (ls_mounts s)\<rparr>))"

record mount_env =
  me_initMount :: nat
  me_CreateReadWrite :: bool
  me_saveMount :: nat
  me_release :: "nat \<Rightarrow> bool \<times> bool"
  me_driver_Remove :: bool
  me_init_Remove :: bool
  me_RemoveMount :: bool

text \<open>
  \<open>initMount\<close> creates the initialisation layer, then mounts it, runs the function and unmounts it; \<open>n\<close> is
  0 when the creation fails and 1 when a later stage does, which leaves the created layer behind.
\<close>

definition initMount :: "nat \<Rightarrow> string \<Rightarrow> layerStore \<Rightarrow> (layer_error + string) \<times> layerStore" where
  "initMount n graphID s =
     (let initID = graphID @ ''-init''
      in if n = 0 then (Inl ErrDriver, s)
         else
           (let s1 = s\<lparr>ls_driver := finsert initID (ls_driver s)\<rparr>
            in if n = 1 then (Inl ErrDriver, s1) else (Inr initID, s1)))"

text \<open>
  \<open>saveMount\<close> writes up to three files in turn; \<open>n\<close> is the number of writes that succeed.
\<close>

definition saveMount :: "nat \<Rightarrow> mountedLayer \<Rightarrow> layerStore \<Rightarrow> layer_error option \<times> layerStore" where
  "saveMount n m s =
     (let writes = [fms_SetMountID (ml_name m) (ml_mountID m)] @
            (if ml_initID m \<noteq> '''' then [fms_SetInitID (ml_name m) (ml_initID m)] else []) @
            (case chain_of (ml_parent m) s of None \<Rightarrow> [] | Some c \<Rightarrow> [fms_SetMountParent (ml_name m) c]);
          s1 = s\<lparr>ls_store := fold (\<lambda>w. w) (take n writes) (ls_store s)\<rparr>
      in if n < length writes then (Some ErrMetadata, s1)
         else (None, s1\<lparr>ls_mounts := fmupd (ml_name m) m (ls_mounts s1)\<rparr>))"

text \<open>
  \<open>CreateRWLayer\<close> holds the lock on the mounts throughout; it takes the layer lock to retain the parent
  and, if it fails, to release it. \<open>create_mount\<close> is what comes between. \<open>mountID\<close> is the identifier
  chosen for the mount; \<open>init\<close> says whether there is an initialisation function.
\<close>

definition create_mount :: "mount_env \<Rightarrow> string \<Rightarrow> bool \<Rightarrow> string \<Rightarrow> nat option \<Rightarrow> layerStore
    \<Rightarrow> (bool \<times> rw_handle layer_result) \<times> layerStore" where
  "create_mount env name init mountID p s =
     (case (if init then initMount (me_initMount env) mountID s else (Inr '''', s)) of
        (Inl err, s2) \<Rightarrow> ((True, LayerErr err), s2)
      | (Inr initID, s2) \<Rightarrow>
          if \<not> me_CreateReadWrite env then ((True, LayerErr ErrDriver), s2)
          else
            (let s3 = s2\<lparr>ls_driver := finsert mountID (ls_driver s2)\<rparr>;
                 m = \<lparr>ml_name = name, ml_mountID = mountID, ml_initID = initID, ml_parent = p, ml_references = {||}\<rparr>
             in case saveMount (me_saveMount env) m s3 of
                  (Some err, s4) \<Rightarrow> ((True, LayerErr err), s4)
                | (None, s4) \<Rightarrow> (case ml_getReference m s4 of (h, s5) \<Rightarrow> ((False, LayerOK h), s5))))"

definition create_finish :: "mount_env \<Rightarrow> string \<Rightarrow> bool \<Rightarrow> string \<Rightarrow> nat option \<Rightarrow> layerStore \<Rightarrow> rw_handle layer_result \<times> layerStore" where
  "create_finish env name init mountID p s =
     (case create_mount env name init mountID p s of
        ((True, res), s') \<Rightarrow> release_parent (me_release env) p res s'
      | ((False, res), s') \<Rightarrow> (res, s'))"

definition CreateRWLayer :: "mount_env \<Rightarrow> string \<Rightarrow> string \<Rightarrow> bool \<Rightarrow> string \<Rightarrow> layerStore \<Rightarrow> rw_handle layer_result \<times> layerStore" where
  "CreateRWLayer env name parent init mountID s =
     (if fmlookup (ls_mounts s) name \<noteq> None then (LayerErr ErrMountNameConflict, s)
      else (case register_begin parent s of
              (Inl err, s1) \<Rightarrow> (LayerErr err, s1)
            | (Inr p, s1) \<Rightarrow> create_finish env name init mountID p s1))"

definition GetRWLayer :: "string \<Rightarrow> layerStore \<Rightarrow> rw_handle layer_result \<times> layerStore" where
  "GetRWLayer name s =
     (case fmlookup (ls_mounts s) name of
        None \<Rightarrow> (LayerErr ErrMountDoesNotExist, s)
      | Some m \<Rightarrow> (case ml_getReference m s of (h, s') \<Rightarrow> (LayerOK h, s')))"

definition GetMountID :: "string \<Rightarrow> layerStore \<Rightarrow> layer_error + string" where
  "GetMountID name s =
     (case fmlookup (ls_mounts s) name of None \<Rightarrow> Inl ErrMountDoesNotExist | Some m \<Rightarrow> Inr (ml_mountID m))"

text \<open>
  Releasing a mount holds the lock on the mounts throughout, and takes the layer lock at the end, to
  release the parent; \<open>release_mount\<close> is what comes before, and returns the parent to release.
\<close>

definition release_mount :: "mount_env \<Rightarrow> rw_handle \<Rightarrow> layerStore \<Rightarrow> (release_result + nat) \<times> layerStore" where
  "release_mount env h s =
     (case fmlookup (ls_mounts s) (rw_Name h) of
        None \<Rightarrow> (Inl (Released []), s)
      | Some m \<Rightarrow>
          if rw_ref h |\<notin>| ml_references m then (Inl (ReleaseError ErrLayerNotRetained), s)
          else
            (let m' = m\<lparr>ml_references := ml_references m |-| {|rw_ref h|}\<rparr>;
                 s1 = s\<lparr>ls_mounts := fmupd (rw_Name h) m' (ls_mounts s)\<rparr>;
                 retake = (\<lambda>t. t\<lparr>ls_mounts := fmupd (rw_Name h) (m'\<lparr>ml_references := finsert (rw_ref h) (ml_references m')\<rparr>) (ls_mounts t)\<rparr>)
             in if ml_references m' \<noteq> {||} then (Inl (Released []), s1)
                else if \<not> me_driver_Remove env then (Inl (ReleaseError ErrDriver), retake s1)
                else
                  (let s2 = s1\<lparr>ls_driver := ls_driver s1 |-| {|ml_mountID m|}\<rparr>
                   in if ml_initID m \<noteq> '''' \<and> \<not> me_init_Remove env then (Inl (ReleaseError ErrDriver), retake s2)
                      else
                        (let s3 = (if ml_initID m \<noteq> '''' then s2\<lparr>ls_driver := ls_driver s2 |-| {|ml_initID m|}\<rparr> else s2)
                         in if \<not> me_RemoveMount env then (Inl (ReleaseError ErrMetadata), retake s3)
                            else
                              (let s4 = s3\<lparr>ls_store := fms_RemoveMount (ml_name m) (ls_store s3),
                                           ls_mounts := fmdrop (ml_name m) (ls_mounts s3)\<rparr>
                               in case ml_parent m of None \<Rightarrow> (Inl (Released []), s4) | Some p \<Rightarrow> (Inr p, s4))))))"

definition ReleaseRWLayer :: "mount_env \<Rightarrow> rw_handle \<Rightarrow> layerStore \<Rightarrow> release_result \<times> layerStore" where
  "ReleaseRWLayer env h s =
     (case release_mount env h s of
        (Inl res, s') \<Rightarrow> (res, s')
      | (Inr p, s') \<Rightarrow> releaseLayer (me_release env) 0 [] p s')"

section \<open>Opening the store\<close>

text \<open>
  \<open>loadLayer\<close> loads a layer's ancestors first. Nothing in the code bounds the recursion on a metadata
  directory whose parent files form a cycle; \<open>None\<close> is running out of \<open>fuel\<close>.
\<close>

fun loadLayer :: "nat \<Rightarrow> string \<Rightarrow> layerStore \<Rightarrow> ((meta_error + nat) \<times> layerStore) option" where
  "loadLayer 0 c s = None"
| "loadLayer (Suc fuel) c s =
     (case fmlookup (ls_layerMap s) c of
        Some a \<Rightarrow> Some (Inr a, s)
      | None \<Rightarrow>
          (case fms_GetDiffID c (ls_store s) of Inl e \<Rightarrow> Some (Inl e, s) | Inr diff \<Rightarrow>
          (case fms_GetSize c (ls_store s) of Inl e \<Rightarrow> Some (Inl e, s) | Inr sz \<Rightarrow>
          (case fms_GetCacheID c (ls_store s) of Inl e \<Rightarrow> Some (Inl e, s) | Inr cacheID \<Rightarrow>
          (case fms_GetParent c (ls_store s) of Inl e \<Rightarrow> Some (Inl e, s) | Inr parent \<Rightarrow>
          (case fms_GetDescriptor c (ls_store s) of Inl e \<Rightarrow> Some (Inl e, s) | Inr descriptor \<Rightarrow>
            (let publish = (\<lambda>p t. case add_layer \<lparr>rl_chainID = c, rl_diffID = diff, rl_parent = p, rl_cacheID = cacheID,
                   rl_size = sz, rl_descriptor = descriptor, rl_referenceCount = 0, rl_references = {||}\<rparr> t
                 of (a, t') \<Rightarrow> (Inr a, t'))
             in if parent = '''' then Some (publish None s)
                else (case loadLayer fuel parent s of
                        None \<Rightarrow> None
                      | Some (Inl e, s') \<Rightarrow> Some (Inl e, s')
                      | Some (Inr p, s') \<Rightarrow> Some (publish (Some p) s')))))))))"

definition loadMount :: "nat \<Rightarrow> string \<Rightarrow> layerStore \<Rightarrow> (meta_error option \<times> layerStore) option" where
  "loadMount fuel mount s =
     (if fmlookup (ls_mounts s) mount \<noteq> None then Some (None, s)
      else
        (case fms_GetMountID mount (ls_store s) of Inl e \<Rightarrow> Some (Some e, s) | Inr mountID \<Rightarrow>
        (case fms_GetInitID mount (ls_store s) of Inl e \<Rightarrow> Some (Some e, s) | Inr initID \<Rightarrow>
        (case fms_GetMountParent mount (ls_store s) of Inl e \<Rightarrow> Some (Some e, s) | Inr parent \<Rightarrow>
          (let publish = (\<lambda>p t. (None, t\<lparr>ls_mounts := fmupd mount \<lparr>ml_name = mount, ml_mountID = mountID, ml_initID = initID,
                 ml_parent = p, ml_references = {||}\<rparr> (ls_mounts t)\<rparr>))
           in if parent = '''' then Some (publish None s)
              else (case loadLayer fuel parent s of
                      None \<Rightarrow> None
                    | Some (Inl e, s') \<Rightarrow> Some (Some e, s')
                    | Some (Inr p, s') \<Rightarrow>
                        Some (publish (Some p) (upd_layer p (\<lambda>l. l\<lparr>rl_referenceCount := rl_referenceCount l + 1\<rparr>) s'))))))))"

text \<open>The two loops of \<open>NewStoreFromGraphDriver\<close>; a layer or mount that fails to load is skipped.\<close>

fun load_layers :: "nat \<Rightarrow> string list \<Rightarrow> layerStore \<Rightarrow> layerStore option" where
  "load_layers fuel [] s = Some s"
| "load_layers fuel (c # cs) s =
     (case loadLayer fuel c s of
        None \<Rightarrow> None
      | Some (Inl _, s') \<Rightarrow> load_layers fuel cs s'
      | Some (Inr a, s') \<Rightarrow>
          load_layers fuel cs
            (case fmlookup (ls_heap s') a of
               Some l \<Rightarrow> (case rl_parent l of
                            Some p \<Rightarrow> upd_layer p (\<lambda>l. l\<lparr>rl_referenceCount := rl_referenceCount l + 1\<rparr>) s'
                          | None \<Rightarrow> s')
             | None \<Rightarrow> s'))"

fun load_mounts :: "nat \<Rightarrow> string list \<Rightarrow> layerStore \<Rightarrow> layerStore option" where
  "load_mounts fuel [] s = Some s"
| "load_mounts fuel (m # ms) s =
     (case loadMount fuel m s of None \<Rightarrow> None | Some (_, s') \<Rightarrow> load_mounts fuel ms s')"

definition NewStoreFromGraphDriver :: "nat \<Rightarrow> fileMetadataStore \<Rightarrow> string fset \<Rightarrow> layerStore option" where
  "NewStoreFromGraphDriver fuel store driver =
     (let s = \<lparr>ls_heap = fmempty, ls_layerMap = fmempty, ls_mounts = fmempty, ls_fresh = 0, ls_store = store, ls_driver = driver\<rparr>;
          (ids, mounts) = fms_List store
      in case load_layers fuel ids s of None \<Rightarrow> None | Some s' \<Rightarrow> load_mounts fuel mounts s')"

end
