(* ===== verification/ImageFS.thy ===== *)
theory ImageFS
  imports LayerStore
begin

text \<open>
  Images on disk (\<^verbatim>\<open>src/image/fs.go\<close>, \<^verbatim>\<open>image.go\<close>, \<^verbatim>\<open>rootfs.go\<close>): a content file per image, named by the
  digest of what it holds, and a directory of metadata files per image. A file or directory is given by
  the algorithm and the hexadecimal part of the digest, which the path is joined from. Whether a call of
  the operating system succeeds is an argument, \<open>fs_io\<close>; the digest function \<open>H\<close> (\<^verbatim>\<open>digest.FromBytes\<close>) and
  the decoder of an image's JSON are parameters. A panic of \<^verbatim>\<open>dgst.Algorithm()\<close> is an outcome.

  The locale \<open>image_backend\<close> is the contract of the interface \<^verbatim>\<open>StoreBackend\<close>; the file system implements
  it.
\<close>

section \<open>Images\<close>

record RootFS =
  rf_Type :: string
  rf_DiffIDs :: "string list"

record History =
  hi_Created :: string
  hi_Author :: string
  hi_CreatedBy :: string
  hi_Comment :: string
  hi_EmptyLayer :: bool

record 'c V1Image =
  v1_ID :: string
  v1_Parent :: string
  v1_Comment :: string
  v1_Created :: string
  v1_Container :: string
  v1_ContainerConfig :: 'c
  v1_DockerVersion :: string
  v1_Author :: string
  v1_Config :: "'c option"
  v1_Architecture :: string
  v1_OS :: string
  v1_Size :: int

record 'c Image = "'c V1Image" +
  im_Parent :: string
  im_RootFS :: "RootFS option"
  im_History :: "History list"
  im_OSVersion :: string
  im_OSFeatures :: "string list"
  im_rawJSON :: string
  im_computedID :: string

datatype image_error =
    FileNotExist
  | VerifyFailed
  | InvalidEmptyData
  | IOFailed
  | InvalidJSON
  | NoRootFSKey
  | TooManyLayers
  | LayerFailed layer_error
  | DigestFailed ref_error
  | UnrecognizedImage
  | UnknownParent
  | NoSuchImage string
  | AmbiguousImage

datatype 'a image_result = ImgOK 'a | ImgErr image_error | ImgPanic string

definition TypeLayers :: string where "TypeLayers = ''layers''"

definition NewRootFS :: RootFS where "NewRootFS = \<lparr>rf_Type = TypeLayers, rf_DiffIDs = []\<rparr>"

definition rootfs_Append :: "string \<Rightarrow> RootFS \<Rightarrow> RootFS" where
  "rootfs_Append diffID r = r\<lparr>rf_DiffIDs := rf_DiffIDs r @ [diffID]\<rparr>"

definition rootfs_ChainID :: "(string \<Rightarrow> string) \<Rightarrow> RootFS \<Rightarrow> string" where
  "rootfs_ChainID H r = CreateChainID H (rf_DiffIDs r)"

definition NewFromJSON :: "(string \<Rightarrow> 'c Image option) \<Rightarrow> string \<Rightarrow> 'c Image image_result" where
  "NewFromJSON unmarshal src =
     (case unmarshal src of
        None \<Rightarrow> ImgErr InvalidJSON
      | Some img \<Rightarrow> if im_RootFS img = None then ImgErr NoRootFSKey else ImgOK (img\<lparr>im_rawJSON := src\<rparr>))"

section \<open>The file system\<close>

record image_fs =
  if_content :: "(string \<times> string, string) fmap"
  if_metadata :: "(string \<times> string, files) fmap"

record fs_io =
  io_write :: bool
  io_mkdir :: bool
  io_remove :: bool
  io_removeAll :: "string \<Rightarrow> bool"
  io_readDir :: bool

definition newFSStore :: image_fs where
  "newFSStore = \<lparr>if_content = fmempty, if_metadata = fmempty\<rparr>"

definition contentFile :: "string \<Rightarrow> (string \<times> string) option" where
  "contentFile dgst =
     (case index_char CHR '':'' dgst of None \<Rightarrow> None | Some i \<Rightarrow> Some (take i dgst, drop (i + 1) dgst))"

definition metadataDir :: "string \<Rightarrow> (string \<times> string) option" where
  "metadataDir dgst =
     (case index_char CHR '':'' dgst of None \<Rightarrow> None | Some i \<Rightarrow> Some (take i dgst, drop (i + 1) dgst))"

abbreviation no_colon :: string where "no_colon \<equiv> ''could not find ':' in digest''"

text \<open>\<open>Walk\<close> calls back for these identifiers, in this order, until the callback fails.\<close>

definition fs_Walk :: "fs_io \<Rightarrow> image_fs \<Rightarrow> string list image_result" where
  "fs_Walk io s =
     (if \<not> io_readDir io then ImgErr IOFailed
      else ImgOK (filter (\<lambda>d. Digest_Validate d = None)
             (map (\<lambda>h. ''sha256'' @ '':'' @ h)
               (sorted_list_of_fset (snd |`| ffilter (\<lambda>(a, h). a = ''sha256'') (fmdom (if_content s)))))))"

definition fs_get :: "(string \<Rightarrow> string) \<Rightarrow> string \<Rightarrow> image_fs \<Rightarrow> string image_result" where
  "fs_get H dgst s =
     (case contentFile dgst of
        None \<Rightarrow> ImgPanic no_colon
      | Some f \<Rightarrow>
          (case fmlookup (if_content s) f of
             None \<Rightarrow> ImgErr FileNotExist
           | Some content \<Rightarrow> if H content \<noteq> dgst then ImgErr VerifyFailed else ImgOK content))"

definition fs_Get :: "(string \<Rightarrow> string) \<Rightarrow> string \<Rightarrow> image_fs \<Rightarrow> string image_result" where
  "fs_Get H dgst s = fs_get H dgst s"

definition fs_Set :: "(string \<Rightarrow> string) \<Rightarrow> fs_io \<Rightarrow> string \<Rightarrow> image_fs \<Rightarrow> string image_result \<times> image_fs" where
  "fs_Set H io data s =
     (if data = '''' then (ImgErr InvalidEmptyData, s)
      else
        (let dgst = H data
         in case contentFile dgst of
              None \<Rightarrow> (ImgPanic no_colon, s)
            | Some f \<Rightarrow> if \<not> io_write io then (ImgErr IOFailed, s)
                         else (ImgOK dgst, s\<lparr>if_content := fmupd f data (if_content s)\<rparr>)))"

definition fs_Delete :: "fs_io \<Rightarrow> string \<Rightarrow> image_fs \<Rightarrow> unit image_result \<times> image_fs" where
  "fs_Delete io dgst s =
     (case (metadataDir dgst, contentFile dgst) of
        (Some dir, Some f) \<Rightarrow>
          if \<not> io_removeAll io dgst then (ImgErr IOFailed, s)
          else
            (let s1 = s\<lparr>if_metadata := fmdrop dir (if_metadata s)\<rparr>
             in if fmlookup (if_content s1) f = None then (ImgErr FileNotExist, s1)
                else if \<not> io_remove io then (ImgErr IOFailed, s1)
                else (ImgOK (), s1\<lparr>if_content := fmdrop f (if_content s1)\<rparr>))
      | _ \<Rightarrow> (ImgPanic no_colon, s))"

definition fs_SetMetadata :: "(string \<Rightarrow> string) \<Rightarrow> fs_io \<Rightarrow> string \<Rightarrow> string \<Rightarrow> string \<Rightarrow> image_fs \<Rightarrow> unit image_result \<times> image_fs" where
  "fs_SetMetadata H io dgst key data s =
     (case fs_get H dgst s of
        ImgErr e \<Rightarrow> (ImgErr e, s)
      | ImgPanic m \<Rightarrow> (ImgPanic m, s)
      | ImgOK _ \<Rightarrow>
          (case metadataDir dgst of
             None \<Rightarrow> (ImgPanic no_colon, s)
           | Some dir \<Rightarrow>
               if \<not> io_mkdir io then (ImgErr IOFailed, s)
               else
                 (let files = map_get fmempty (if_metadata s) dir;
                      s1 = s\<lparr>if_metadata := fmupd dir files (if_metadata s)\<rparr>
                  in if \<not> io_write io then (ImgErr IOFailed, s1)
                     else (ImgOK (), s1\<lparr>if_metadata := fmupd dir (fmupd key data files) (if_metadata s1)\<rparr>))))"

definition fs_GetMetadata :: "(string \<Rightarrow> string) \<Rightarrow> string \<Rightarrow> string \<Rightarrow> image_fs \<Rightarrow> string image_result" where
  "fs_GetMetadata H dgst key s =
     (case fs_get H dgst s of
        ImgErr e \<Rightarrow> ImgErr e
      | ImgPanic m \<Rightarrow> ImgPanic m
      | ImgOK _ \<Rightarrow>
          (case metadataDir dgst of
             None \<Rightarrow> ImgPanic no_colon
           | Some dir \<Rightarrow> (case fmlookup (map_get fmempty (if_metadata s) dir) key of
                            None \<Rightarrow> ImgErr FileNotExist | Some data \<Rightarrow> ImgOK data)))"

definition fs_DeleteMetadata :: "fs_io \<Rightarrow> string \<Rightarrow> string \<Rightarrow> image_fs \<Rightarrow> unit image_result \<times> image_fs" where
  "fs_DeleteMetadata io dgst key s =
     (case metadataDir dgst of
        None \<Rightarrow> (ImgPanic no_colon, s)
      | Some dir \<Rightarrow>
          if \<not> io_removeAll io dgst then (ImgErr IOFailed, s)
          else (case fmlookup (if_metadata s) dir of
                  None \<Rightarrow> (ImgOK (), s)
                | Some files \<Rightarrow> (ImgOK (), s\<lparr>if_metadata := fmupd dir (fmdrop key files) (if_metadata s)\<rparr>)))"

section \<open>The interface\<close>

record 'b StoreBackend =
  sb_Walk :: "'b \<Rightarrow> string list image_result"
  sb_Get :: "string \<Rightarrow> 'b \<Rightarrow> string image_result"
  sb_Set :: "string \<Rightarrow> 'b \<Rightarrow> string image_result \<times> 'b"
  sb_Delete :: "string \<Rightarrow> 'b \<Rightarrow> unit image_result \<times> 'b"
  sb_SetMetadata :: "string \<Rightarrow> string \<Rightarrow> string \<Rightarrow> 'b \<Rightarrow> unit image_result \<times> 'b"
  sb_GetMetadata :: "string \<Rightarrow> string \<Rightarrow> 'b \<Rightarrow> string image_result"
  sb_DeleteMetadata :: "string \<Rightarrow> string \<Rightarrow> 'b \<Rightarrow> unit image_result \<times> 'b"

definition NewFSStoreBackend :: "(string \<Rightarrow> string) \<Rightarrow> fs_io \<Rightarrow> image_fs StoreBackend" where
  "NewFSStoreBackend H io =
     \<lparr>sb_Walk = fs_Walk io, sb_Get = fs_Get H, sb_Set = fs_Set H io, sb_Delete = fs_Delete io,
      sb_SetMetadata = fs_SetMetadata H io, sb_GetMetadata = fs_GetMetadata H, sb_DeleteMetadata = fs_DeleteMetadata io\<rparr>"

text \<open>
  The contract, over what the backend holds: \<open>content\<close>, the bytes stored under an identifier, and
  \<open>metadata\<close>, the value stored under an identifier and a key. Content is addressed by its digest, and only
  what has content has metadata. A call that fails changes nothing, except that a failed \<open>Delete\<close> may
  have removed the metadata.
\<close>

locale image_backend =
  fixes be :: "'b StoreBackend" and H :: "string \<Rightarrow> string"
    and content :: "'b \<Rightarrow> string \<Rightarrow> string option" and metadata :: "'b \<Rightarrow> string \<Rightarrow> string \<Rightarrow> string option"
    and binv :: "'b \<Rightarrow> bool"
  assumes canonical_H: "binv b \<Longrightarrow> canonical (H data)"
    and content_H: "binv b \<Longrightarrow> content b d = Some c \<Longrightarrow> H c = d"
    and metadata_content: "binv b \<Longrightarrow> metadata b d k = Some v \<Longrightarrow> content b d \<noteq> None"
    and Get_some: "binv b \<Longrightarrow> content b d = Some c \<Longrightarrow> sb_Get be d b = ImgOK c"
    and Get_none: "binv b \<Longrightarrow> CHR '':'' \<in> set d \<Longrightarrow> content b d = None \<Longrightarrow> \<exists>e. sb_Get be d b = ImgErr e"
    and GetMetadata_some: "binv b \<Longrightarrow> metadata b d k = Some v \<Longrightarrow> sb_GetMetadata be d k b = ImgOK v"
    and GetMetadata_none: "binv b \<Longrightarrow> CHR '':'' \<in> set d \<Longrightarrow> metadata b d k = None \<Longrightarrow> \<exists>e. sb_GetMetadata be d k b = ImgErr e"
    and Set_law: "binv b \<Longrightarrow> sb_Set be data b = (w, b') \<Longrightarrow>
      binv b' \<and> metadata b' = metadata b \<and>
      (case w of ImgOK d \<Rightarrow> d = H data \<and> content b' = (content b)(d \<mapsto> data) | ImgErr e \<Rightarrow> content b' = content b | ImgPanic m \<Rightarrow> False)"
    and SetMetadata_law: "binv b \<Longrightarrow> CHR '':'' \<in> set d \<Longrightarrow> sb_SetMetadata be d k v b = (r, b') \<Longrightarrow>
      binv b' \<and> content b' = content b \<and>
      (case r of ImgOK _ \<Rightarrow> content b d \<noteq> None \<and> metadata b' = (metadata b)(d := (metadata b d)(k \<mapsto> v))
       | ImgErr e \<Rightarrow> metadata b' = metadata b | ImgPanic m \<Rightarrow> False)"
    and DeleteMetadata_law: "binv b \<Longrightarrow> CHR '':'' \<in> set d \<Longrightarrow> sb_DeleteMetadata be d k b = (r, b') \<Longrightarrow>
      binv b' \<and> content b' = content b \<and>
      (case r of ImgOK _ \<Rightarrow> metadata b' = (metadata b)(d := (metadata b d)(k := None))
       | ImgErr e \<Rightarrow> metadata b' = metadata b | ImgPanic m \<Rightarrow> False)"
    and Delete_law: "binv b \<Longrightarrow> CHR '':'' \<in> set d \<Longrightarrow> sb_Delete be d b = (r, b') \<Longrightarrow>
      binv b' \<and>
      (case r of ImgOK _ \<Rightarrow> content b' = (content b)(d := None) \<and> metadata b' = (metadata b)(d := Map.empty)
       | ImgErr e \<Rightarrow> content b' = content b \<and> (metadata b' = metadata b \<or> metadata b' = (metadata b)(d := Map.empty))
       | ImgPanic m \<Rightarrow> False)"
    and Walk_law: "binv b \<Longrightarrow> sb_Walk be b = ImgOK ds \<Longrightarrow> distinct ds \<and> set ds = dom (content b)"
    and Walk_total: "binv b \<Longrightarrow> sb_Walk be b \<noteq> ImgPanic m"
begin

lemma content_canonical: "binv b \<Longrightarrow> content b d = Some c \<Longrightarrow> canonical d"
  using canonical_H content_H by metis

end

section \<open>The file system implements the interface\<close>

definition fs_content :: "image_fs \<Rightarrow> string \<Rightarrow> string option" where
  "fs_content s dgst = (case contentFile dgst of None \<Rightarrow> None | Some f \<Rightarrow> fmlookup (if_content s) f)"

definition fs_metadata :: "image_fs \<Rightarrow> string \<Rightarrow> string \<Rightarrow> string option" where
  "fs_metadata s dgst key =
     (case metadataDir dgst of None \<Rightarrow> None | Some dir \<Rightarrow> fmlookup (map_get fmempty (if_metadata s) dir) key)"

definition fs_inv :: "(string \<Rightarrow> string) \<Rightarrow> image_fs \<Rightarrow> bool" where
  "fs_inv H s \<longleftrightarrow> (\<forall>x. canonical (H x)) \<and>
     (\<forall>f c. fmlookup (if_content s) f = Some c \<longrightarrow> contentFile (H c) = Some f) \<and>
     (\<forall>f k. fmlookup (map_get fmempty (if_metadata s) f) k \<noteq> None \<longrightarrow> fmlookup (if_content s) f \<noteq> None)"

lemma metadataDir_eq: "metadataDir = contentFile"
  by (simp add: fun_eq_iff metadataDir_def contentFile_def)

lemma contentFile_inj: "contentFile d = Some f \<Longrightarrow> contentFile d' = Some f \<Longrightarrow> d = d'"
  by (auto simp: contentFile_def split: option.splits)
    (metis index_char_split(1))

lemma contentFile_colon: "CHR '':'' \<in> set d \<Longrightarrow> \<exists>f. contentFile d = Some f"
  by (auto simp: contentFile_def index_char_None split: option.splits)

lemma fs_invD:
  assumes "fs_inv H s"
  shows "\<And>x. canonical (H x)" and "\<And>f c. fmlookup (if_content s) f = Some c \<Longrightarrow> contentFile (H c) = Some f"
    and "\<And>f k v. fmlookup (map_get fmempty (if_metadata s) f) k = Some v \<Longrightarrow> \<exists>c. fmlookup (if_content s) f = Some c"
  using assms unfolding fs_inv_def by (blast, blast, metis option.distinct(1) not_None_eq)

lemma canonical_file: "canonical d \<Longrightarrow> contentFile d = Some (''sha256'', drop 7 d)"
  using canonical_digest(2) [of d] by (simp add: contentFile_def getLayerDirectory_def)

lemma fs_content_file: "contentFile d = Some f \<Longrightarrow> fs_content s d = fmlookup (if_content s) f"
  "contentFile d = Some f \<Longrightarrow> fs_metadata s d k = fmlookup (map_get fmempty (if_metadata s) f) k"
  by (simp_all add: fs_content_def fs_metadata_def metadataDir_eq)

lemma fs_content_H: "fs_inv H s \<Longrightarrow> fs_content s d = Some c \<Longrightarrow> H c = d"
  by (auto simp: fs_content_def split: option.splits dest: fs_invD(2) intro: contentFile_inj)

lemma fs_get_content:
  assumes "fs_inv H s"
  shows "fs_content s d = Some c \<Longrightarrow> fs_get H d s = ImgOK c"
    and "CHR '':'' \<in> set d \<Longrightarrow> fs_content s d = None \<Longrightarrow> fs_get H d s = ImgErr FileNotExist"
  using fs_content_H [OF assms, of d c] contentFile_colon [of d]
  by (auto simp: fs_content_def fs_get_def split: option.splits)

lemma fs_metadata_content: "fs_inv H s \<Longrightarrow> fs_metadata s d k = Some v \<Longrightarrow> \<exists>c. fs_content s d = Some c"
  by (auto simp: fs_content_def fs_metadata_def metadataDir_eq split: option.splits dest: fs_invD(3))

lemma fs_GetMetadata_metadata:
  assumes "fs_inv H s"
  shows "fs_metadata s d k = Some v \<Longrightarrow> fs_GetMetadata H d k s = ImgOK v"
    and "CHR '':'' \<in> set d \<Longrightarrow> fs_metadata s d k = None \<Longrightarrow> \<exists>e. fs_GetMetadata H d k s = ImgErr e"
proof -
  assume v: "fs_metadata s d k = Some v"
  then obtain c where "fs_content s d = Some c" using fs_metadata_content [OF assms] by blast
  then have "fs_get H d s = ImgOK c" by (rule fs_get_content(1) [OF assms])
  then show "fs_GetMetadata H d k s = ImgOK v" using v by (auto simp: fs_GetMetadata_def fs_metadata_def split: option.splits)
next
  assume v: "fs_metadata s d k = None" and d: "CHR '':'' \<in> set d"
  obtain f where f: "contentFile d = Some f" using contentFile_colon [OF d] by blast
  show "\<exists>e. fs_GetMetadata H d k s = ImgErr e"
    using fs_get_content [OF assms, of d] d v f
    by (cases "fs_content s d") (auto simp: fs_GetMetadata_def fs_metadata_def metadataDir_eq split: option.splits)
qed

lemma fs_content_upd: "contentFile d = Some f \<Longrightarrow>
    fs_content (s\<lparr>if_content := fmupd f c (if_content s)\<rparr>) = (fs_content s)(d \<mapsto> c)"
  "contentFile d = Some f \<Longrightarrow> fs_content (s\<lparr>if_content := fmdrop f (if_content s)\<rparr>) = (fs_content s)(d := None)"
  by (auto simp: fun_eq_iff fs_content_def split: option.splits dest: contentFile_inj)

lemma fs_content_frame [simp]: "fs_content (s\<lparr>if_metadata := m\<rparr>) = fs_content s" "fs_metadata (s\<lparr>if_content := c\<rparr>) = fs_metadata s"
  by (simp_all add: fun_eq_iff fs_content_def fs_metadata_def split: option.splits)

lemma fs_metadata_upd: "contentFile d = Some f \<Longrightarrow> (\<And>k. fmlookup files k = g k) \<Longrightarrow>
    fs_metadata (s\<lparr>if_metadata := fmupd f files (if_metadata s)\<rparr>) = (fs_metadata s)(d := g)"
  "contentFile d = Some f \<Longrightarrow> fs_metadata (s\<lparr>if_metadata := fmdrop f (if_metadata s)\<rparr>) = (fs_metadata s)(d := Map.empty)"
  by (auto simp: fun_eq_iff fs_metadata_def metadataDir_eq split: option.splits dest: contentFile_inj)

text \<open>The invariant after a change to the metadata of one image, or to its content.\<close>

lemma fs_inv_metadata:
  assumes "fs_inv H s" "\<And>k v. fmlookup files k = Some v \<Longrightarrow> \<exists>c. fmlookup (if_content s) f = Some c"
  shows "fs_inv H (s\<lparr>if_metadata := fmupd f files (if_metadata s)\<rparr>)" and "fs_inv H (s\<lparr>if_metadata := fmdrop f (if_metadata s)\<rparr>)"
  using assms by (auto simp: fs_inv_def)

lemma fs_inv_Set: "fs_inv H s \<Longrightarrow> contentFile (H data) = Some f \<Longrightarrow> fs_inv H (s\<lparr>if_content := fmupd f data (if_content s)\<rparr>)"
  by (auto simp: fs_inv_def)

lemma fs_inv_Delete: "fs_inv H s \<Longrightarrow>
    fs_inv H (s\<lparr>if_metadata := fmdrop f (if_metadata s), if_content := fmdrop f (if_content s)\<rparr>)"
  by (auto simp: fs_inv_def)

lemma fs_Set_law:
  assumes inv: "fs_inv H s" and r: "fs_Set H io data s = (r, t)"
  shows "fs_inv H t \<and> fs_metadata t = fs_metadata s \<and>
    (case r of ImgOK d \<Rightarrow> d = H data \<and> fs_content t = (fs_content s)(d \<mapsto> data) | ImgErr e \<Rightarrow> fs_content t = fs_content s | ImgPanic m \<Rightarrow> False)"
proof -
  have f: "contentFile (H data) = Some (''sha256'', drop 7 (H data))" by (rule canonical_file [OF fs_invD(1) [OF inv]])
  show ?thesis using r inv fs_inv_Set [OF inv f] fs_content_upd(1) [OF f]
    by (auto simp: fs_Set_def Let_def f split: if_splits)
qed

lemma fs_SetMetadata_law:
  assumes inv: "fs_inv H s" and d: "CHR '':'' \<in> set d" and r: "fs_SetMetadata H io d k v s = (r, t)"
  shows "fs_inv H t \<and> fs_content t = fs_content s \<and>
    (case r of ImgOK _ \<Rightarrow> fs_content s d \<noteq> None \<and> fs_metadata t = (fs_metadata s)(d := (fs_metadata s d)(k \<mapsto> v))
     | ImgErr e \<Rightarrow> fs_metadata t = fs_metadata s | ImgPanic m \<Rightarrow> False)"
proof -
  obtain f where f: "contentFile d = Some f" using contentFile_colon [OF d] by blast
  show ?thesis
  proof (cases "fs_content s d")
    case None
    then show ?thesis using r inv fs_get_content(2) [OF inv d] by (auto simp: fs_SetMetadata_def)
  next
    case (Some c)
    let ?files = "map_get fmempty (if_metadata s) f"
    have c: "fmlookup (if_content s) f = Some c" using Some fs_content_file(1) [OF f] by simp
    have old: "fmlookup ?files = fs_metadata s d" using fs_content_file(2) [OF f] by (simp add: fun_eq_iff)
    have u: "fs_metadata (s\<lparr>if_metadata := fmupd f ?files (if_metadata s)\<rparr>) = fs_metadata s"
      using fs_metadata_upd(1) [OF f, of ?files "fs_metadata s d" s] old by simp
    have w: "fs_metadata (s\<lparr>if_metadata := fmupd f (fmupd k v ?files) (fmupd f ?files (if_metadata s))\<rparr>) =
        (fs_metadata s)(d := (fs_metadata s d)(k \<mapsto> v))"
      using fs_metadata_upd(1) [OF f, of "fmupd k v ?files" "(fs_metadata s d)(k \<mapsto> v)" "s\<lparr>if_metadata := fmupd f ?files (if_metadata s)\<rparr>"]
      by (simp add: old u)
    have i: "fs_inv H (s\<lparr>if_metadata := fmupd f ?files (if_metadata s)\<rparr>)" using fs_inv_metadata(1) [OF inv] c by blast
    have j: "fs_inv H (s\<lparr>if_metadata := fmupd f (fmupd k v ?files) (fmupd f ?files (if_metadata s))\<rparr>)"
      using fs_inv_metadata(1) [OF i, of "fmupd k v ?files" f] c by simp
    show ?thesis using r inv fs_get_content(1) [OF inv Some] u w i j f Some
      by (auto simp: fs_SetMetadata_def metadataDir_eq Let_def split: if_splits)
  qed
qed

lemma fs_DeleteMetadata_law:
  assumes inv: "fs_inv H s" and d: "CHR '':'' \<in> set d" and r: "fs_DeleteMetadata io d k s = (r, t)"
  shows "fs_inv H t \<and> fs_content t = fs_content s \<and>
    (case r of ImgOK _ \<Rightarrow> fs_metadata t = (fs_metadata s)(d := (fs_metadata s d)(k := None))
     | ImgErr e \<Rightarrow> fs_metadata t = fs_metadata s | ImgPanic m \<Rightarrow> False)"
proof -
  obtain f where f: "contentFile d = Some f" using contentFile_colon [OF d] by blast
  show ?thesis
  proof (cases "fmlookup (if_metadata s) f")
    case None
    then have "fs_metadata s d = Map.empty" using fs_content_file(2) [OF f] by (simp add: fun_eq_iff map_get_None)
    then have "(fs_metadata s)(d := (fs_metadata s d)(k := None)) = fs_metadata s" by (simp add: fun_eq_iff)
    then show ?thesis using r inv None f by (auto simp: fs_DeleteMetadata_def metadataDir_eq split: if_splits)
  next
    case (Some files)
    have old: "fmlookup files = fs_metadata s d" using fs_content_file(2) [OF f] Some by (simp add: fun_eq_iff map_get_Some)
    have "\<exists>c. fmlookup (if_content s) f = Some c" if "fmlookup (fmdrop k files) k' = Some v" for k' v
      using that fs_invD(3) [OF inv, of f k' v] Some by (simp add: map_get_Some split: if_splits)
    then have i: "fs_inv H (s\<lparr>if_metadata := fmupd f (fmdrop k files) (if_metadata s)\<rparr>)" by (rule fs_inv_metadata(1) [OF inv])
    have "fs_metadata (s\<lparr>if_metadata := fmupd f (fmdrop k files) (if_metadata s)\<rparr>) = (fs_metadata s)(d := (fs_metadata s d)(k := None))"
      by (rule fs_metadata_upd(1) [OF f]) (simp add: old)
    then show ?thesis using r inv Some f i by (auto simp: fs_DeleteMetadata_def metadataDir_eq split: if_splits)
  qed
qed

lemma fs_Delete_law:
  assumes inv: "fs_inv H s" and d: "CHR '':'' \<in> set d" and r: "fs_Delete io d s = (r, t)"
  shows "fs_inv H t \<and>
    (case r of ImgOK _ \<Rightarrow> fs_content t = (fs_content s)(d := None) \<and> fs_metadata t = (fs_metadata s)(d := Map.empty)
     | ImgErr e \<Rightarrow> fs_content t = fs_content s \<and> (fs_metadata t = fs_metadata s \<or> fs_metadata t = (fs_metadata s)(d := Map.empty))
     | ImgPanic m \<Rightarrow> False)"
proof -
  obtain f where f: "contentFile d = Some f" using contentFile_colon [OF d] by blast
  let ?s = "s\<lparr>if_metadata := fmdrop f (if_metadata s)\<rparr>"
  have i: "fs_inv H ?s" by (rule fs_inv_metadata(2) [OF inv, of fmempty]) simp
  have c: "fs_content (?s\<lparr>if_content := fmdrop f (if_content ?s)\<rparr>) = (fs_content s)(d := None)"
    using fs_content_upd(2) [OF f, of ?s] by simp
  show ?thesis using r inv i fs_inv_Delete [OF inv, of f] fs_metadata_upd(2) [OF f, of s] c f
    by (auto simp: fs_Delete_def metadataDir_eq Let_def split: if_splits)
qed

lemma fs_Walk_law:
  assumes inv: "fs_inv H s" and r: "fs_Walk io s = ImgOK ds"
  shows "distinct ds" and "set ds = dom (fs_content s)"
proof -
  define hs where "hs = sorted_list_of_fset (snd |`| ffilter (\<lambda>(a, h). a = ''sha256'') (fmdom (if_content s)))"
  have ds: "ds = filter (\<lambda>d. Digest_Validate d = None) (map (\<lambda>h. ''sha256:'' @ h) hs)"
    using r by (simp add: fs_Walk_def hs_def split: if_splits)
  show "distinct ds" unfolding ds by (intro distinct_filter) (simp add: distinct_map inj_on_def hs_def sorted_list_of_fset.rep_eq)
  have named: "fst f = ''sha256'' \<and> H c = ''sha256:'' @ snd f \<and> Digest_Validate (H c) = None"
    if "fmlookup (if_content s) f = Some c" for f c
    using fs_invD(2) [OF inv that] canonical_file [OF fs_invD(1) [OF inv], of c] canonical_digest [OF fs_invD(1) [OF inv], of c] by auto
  have hs: "h \<in> set hs \<longleftrightarrow> (\<exists>c. fmlookup (if_content s) (''sha256'', h) = Some c)" for h
    by (force simp: hs_def fmlookup_dom_iff fimage_iff image_iff)
  have key: "contentFile (''sha256:'' @ h) = Some (''sha256'', h)" for h by (simp add: contentFile_def)
  show "set ds = dom (fs_content s)"
  proof (intro set_eqI iffI)
    fix d assume "d \<in> set ds"
    then obtain h where h: "d = ''sha256:'' @ h" "h \<in> set hs" by (auto simp: ds)
    then show "d \<in> dom (fs_content s)" using hs [of h] key [of h] by (auto simp: fs_content_def)
  next
    fix d assume "d \<in> dom (fs_content s)"
    then obtain c where c: "fs_content s d = Some c" by auto
    then obtain f where f: "contentFile d = Some f" "fmlookup (if_content s) f = Some c" by (auto simp: fs_content_def split: option.splits)
    have "H c = d" by (rule fs_content_H [OF inv c])
    moreover from named [OF f(2)] obtain h where h: "f = (''sha256'', h)" "H c = ''sha256:'' @ h" "Digest_Validate (H c) = None"
      by (cases f) auto
    ultimately show "d \<in> set ds" using hs [of h] f(2) by (auto simp: ds)
  qed
qed

text \<open>For every outcome of the operating system.\<close>

interpretation fsb: image_backend "NewFSStoreBackend H io" H fs_content fs_metadata "fs_inv H" for H io
proof
  fix b :: image_fs assume inv: "fs_inv H b"
  show "canonical (H data)" for data by (rule fs_invD(1) [OF inv])
  show "H c = d" if "fs_content b d = Some c" for d c by (rule fs_content_H [OF inv that])
  show "fs_content b d \<noteq> None" if "fs_metadata b d k = Some v" for d k v using fs_metadata_content [OF inv that] by blast
  show "sb_Get (NewFSStoreBackend H io) d b = ImgOK c" if "fs_content b d = Some c" for d c
    using fs_get_content(1) [OF inv that] by (simp add: NewFSStoreBackend_def fs_Get_def)
  show "\<exists>e. sb_Get (NewFSStoreBackend H io) d b = ImgErr e" if "CHR '':'' \<in> set d" "fs_content b d = None" for d
    using fs_get_content(2) [OF inv that] by (simp add: NewFSStoreBackend_def fs_Get_def)
  show "sb_GetMetadata (NewFSStoreBackend H io) d k b = ImgOK v" if "fs_metadata b d k = Some v" for d k v
    using fs_GetMetadata_metadata(1) [OF inv that] by (simp add: NewFSStoreBackend_def)
  show "\<exists>e. sb_GetMetadata (NewFSStoreBackend H io) d k b = ImgErr e" if "CHR '':'' \<in> set d" "fs_metadata b d k = None" for d k
    using fs_GetMetadata_metadata(2) [OF inv that] by (simp add: NewFSStoreBackend_def)
  show "sb_Walk (NewFSStoreBackend H io) b \<noteq> ImgPanic m" for m by (simp add: NewFSStoreBackend_def fs_Walk_def)
  show "distinct ds \<and> set ds = dom (fs_content b)" if "sb_Walk (NewFSStoreBackend H io) b = ImgOK ds" for ds
    using fs_Walk_law [OF inv, of io ds] that by (simp add: NewFSStoreBackend_def)
qed (simp only: NewFSStoreBackend_def StoreBackend.select_convs,
  (erule (1) fs_Set_law | erule (2) fs_SetMetadata_law | erule (2) fs_DeleteMetadata_law | erule (2) fs_Delete_law))+

end
