(* ===== verification/DigestSet.thy ===== *)
theory DigestSet
  imports LayerMeta "HOL-Library.Sublist"
begin

text \<open>
  The set of digests with look-up by prefix that the image store keeps
  (\<^verbatim>\<open>src/vendor/src/github.com/docker/distribution/digest/set.go\<close>): a slice sorted by hexadecimal part and
  algorithm, searched by \<^verbatim>\<open>sort.Search\<close>. The invariant is that the slice is strictly sorted and consists of
  canonical digests; under it the set is a finite set of digests and \<open>Lookup\<close> finds the one digest that a
  prefix denotes.
\<close>

section \<open>Binary search\<close>

function search_loop :: "(nat \<Rightarrow> bool) \<Rightarrow> nat \<Rightarrow> nat \<Rightarrow> nat" where
  "search_loop f i j =
     (if i < j then (let h = i + (j - i) div 2 in if \<not> f h then search_loop f (h + 1) j else search_loop f i h) else i)"
  by pat_completeness auto
termination by (relation "measure (\<lambda>(f, i, j). j - i)") auto

declare search_loop.simps [simp del]

definition sort_Search :: "nat \<Rightarrow> (nat \<Rightarrow> bool) \<Rightarrow> nat" where
  "sort_Search n f = search_loop f 0 n"

lemma search_loop_first:
  assumes "i \<le> j" "j \<le> n" "\<And>k l. k \<le> l \<Longrightarrow> l < n \<Longrightarrow> f k \<Longrightarrow> f l" "\<And>k. k < i \<Longrightarrow> \<not> f k" "\<And>k. j \<le> k \<Longrightarrow> k < n \<Longrightarrow> f k"
  shows "search_loop f i j \<le> n \<and> (\<forall>k < search_loop f i j. \<not> f k) \<and> (\<forall>k. search_loop f i j \<le> k \<longrightarrow> k < n \<longrightarrow> f k)"
  using assms
proof (induction f i j rule: search_loop.induct)
  case (1 f i j)
  let ?h = "i + (j - i) div 2"
  show ?case
  proof (cases "i < j")
    case True
    then have h: "i \<le> ?h" "?h < j" by linarith+
    show ?thesis
    proof (cases "f ?h")
      case up: True
      have ge: "f k" if "?h \<le> k" "k < n" for k using "1.prems"(3) [OF that up] .
      have "search_loop f i ?h \<le> n \<and> (\<forall>k < search_loop f i ?h. \<not> f k) \<and> (\<forall>k. search_loop f i ?h \<le> k \<longrightarrow> k < n \<longrightarrow> f k)"
      proof (rule "1.IH"(2) [OF True refl _ h(1) _ "1.prems"(3,4) ge])
        show "\<not> \<not> f ?h" "?h \<le> n" using up h "1.prems"(2) by simp_all
      qed
      then show ?thesis using True up by (simp add: search_loop.simps [of f i j] Let_def)
    next
      case down: False
      have le: "\<not> f k" if "k < ?h + 1" for k using "1.prems"(3) [of k ?h] down h that "1.prems"(2) by auto
      have "search_loop f (?h + 1) j \<le> n \<and> (\<forall>k < search_loop f (?h + 1) j. \<not> f k) \<and>
          (\<forall>k. search_loop f (?h + 1) j \<le> k \<longrightarrow> k < n \<longrightarrow> f k)"
      proof (rule "1.IH"(1) [OF True refl down _ "1.prems"(2,3) le "1.prems"(5)])
        show "?h + 1 \<le> j" using h by simp
      qed
      then show ?thesis using True down by (simp add: search_loop.simps [of f i j] Let_def)
    qed
  next
    case False
    then have "search_loop f i j = i" by (simp add: search_loop.simps [of f i j])
    moreover have "i = j" using False "1.prems"(1) by simp
    ultimately show ?thesis using "1.prems"(2,4,5) by simp
  qed
qed

lemma sort_Search_first:
  assumes mono: "\<forall>k l. k \<le> l \<longrightarrow> l < n \<longrightarrow> f k \<longrightarrow> f l"
  shows "sort_Search n f \<le> n" and "\<And>k. k < sort_Search n f \<Longrightarrow> \<not> f k" and "\<And>k. sort_Search n f \<le> k \<Longrightarrow> k < n \<Longrightarrow> f k"
proof -
  have "sort_Search n f \<le> n \<and> (\<forall>k < sort_Search n f. \<not> f k) \<and> (\<forall>k. sort_Search n f \<le> k \<longrightarrow> k < n \<longrightarrow> f k)"
    unfolding sort_Search_def by (rule search_loop_first) (simp_all add: mono [rule_format])
  then show "sort_Search n f \<le> n" "\<And>k. k < sort_Search n f \<Longrightarrow> \<not> f k" "\<And>k. sort_Search n f \<le> k \<Longrightarrow> k < n \<Longrightarrow> f k"
    by blast+
qed

lemma search_loop_le: "i \<le> j \<Longrightarrow> search_loop f i j \<le> j"
proof (induction f i j rule: search_loop.induct)
  case (1 f i j)
  let ?h = "i + (j - i) div 2"
  show ?case
  proof (cases "i < j")
    case True
    then have h: "i \<le> ?h" "?h < j" by linarith+
    then show ?thesis
      using "1.IH"(1) [OF True refl] "1.IH"(2) [OF True refl] True
      by (cases "f ?h") (simp_all add: search_loop.simps [of f i j] Let_def)
  next
    case False
    then have "search_loop f i j = i" by (simp add: search_loop.simps [of f i j])
    then show ?thesis using "1.prems" by simp
  qed
qed

lemma sort_Search_le: "sort_Search n f \<le> n"
  by (simp add: sort_Search_def search_loop_le)

section \<open>The set\<close>

record digestEntry =
  de_alg :: string
  de_val :: string
  de_digest :: string

datatype digest_error = ErrDigestNotFound | ErrDigestAmbiguous | ErrDigestPanic

definition checkShortMatch :: "string \<Rightarrow> string \<Rightarrow> string \<Rightarrow> string \<Rightarrow> bool" where
  "checkShortMatch alg hex shortAlg shortHex \<longleftrightarrow>
     (if length hex = length shortHex then
        if hex \<noteq> shortHex then False else if 0 < length shortAlg \<and> alg \<noteq> shortAlg then False else True
      else if \<not> prefix shortHex hex then False
      else if 0 < length shortAlg \<and> alg \<noteq> shortAlg then False else True)"

text \<open>The search function of \<open>Add\<close>, \<open>Remove\<close> and of \<open>Lookup\<close> with an algorithm.\<close>

definition entry_search :: "digestEntry list \<Rightarrow> string \<Rightarrow> string \<Rightarrow> nat \<Rightarrow> bool" where
  "entry_search entries alg val i \<longleftrightarrow>
     (if de_val (entries ! i) = val then alg \<le> de_alg (entries ! i) else val \<le> de_val (entries ! i))"

definition set_Lookup :: "string \<Rightarrow> digestEntry list \<Rightarrow> digest_error + string" where
  "set_Lookup d entries =
     (if entries = [] then Inl ErrDigestNotFound
      else
        (let lookup = (\<lambda>alg hex f.
           (let idx = sort_Search (length entries) f
            in if idx = length entries \<or> \<not> checkShortMatch (de_alg (entries ! idx)) (de_val (entries ! idx)) alg hex
               then Inl ErrDigestNotFound
               else if de_alg (entries ! idx) = alg \<and> de_val (entries ! idx) = hex then Inr (de_digest (entries ! idx))
               else if idx + 1 < length entries \<and>
                       checkShortMatch (de_alg (entries ! (idx + 1))) (de_val (entries ! (idx + 1))) alg hex
               then Inl ErrDigestAmbiguous
               else Inr (de_digest (entries ! idx))))
         in if Digest_Validate d = Some DigestInvalidFormat then lookup '''' d (\<lambda>i. d \<le> de_val (entries ! i))
            else case getLayerDirectory d of
                   None \<Rightarrow> Inl ErrDigestPanic
                 | Some (alg, hex) \<Rightarrow> lookup alg hex (entry_search entries alg hex)))"

definition set_Add :: "string \<Rightarrow> digestEntry list \<Rightarrow> ref_error option \<times> digestEntry list" where
  "set_Add d entries =
     (case Digest_Validate d of
        Some e \<Rightarrow> (Some e, entries)
      | None \<Rightarrow>
          (case getLayerDirectory d of
             None \<Rightarrow> (Some DigestInvalidFormat, entries)
           | Some (alg, hex) \<Rightarrow>
               (let entry = \<lparr>de_alg = alg, de_val = hex, de_digest = d\<rparr>;
                    idx = sort_Search (length entries) (entry_search entries alg hex)
                in if idx = length entries then (None, entries @ [entry])
                   else if de_digest (entries ! idx) = d then (None, entries)
                   else (None, take idx entries @ entry # drop idx entries))))"

definition set_Remove :: "string \<Rightarrow> digestEntry list \<Rightarrow> ref_error option \<times> digestEntry list" where
  "set_Remove d entries =
     (case Digest_Validate d of
        Some e \<Rightarrow> (Some e, entries)
      | None \<Rightarrow>
          (case getLayerDirectory d of
             None \<Rightarrow> (Some DigestInvalidFormat, entries)
           | Some (alg, hex) \<Rightarrow>
               (let idx = sort_Search (length entries) (entry_search entries alg hex)
                in if idx = length entries \<or> de_digest (entries ! idx) \<noteq> d then (None, entries)
                   else (None, take idx entries @ drop (Suc idx) entries))))"

definition set_All :: "digestEntry list \<Rightarrow> string list" where
  "set_All entries = map de_digest entries"

section \<open>The invariant\<close>

text \<open>Every entry is made from its digest; the digests are canonical and sorted by their hexadecimal parts.\<close>

definition entry_of :: "string \<Rightarrow> digestEntry" where
  "entry_of d = \<lparr>de_alg = ''sha256'', de_val = drop 7 d, de_digest = d\<rparr>"

definition set_inv :: "digestEntry list \<Rightarrow> bool" where
  "set_inv entries \<longleftrightarrow>
     (\<forall>e \<in> set entries. canonical (de_digest e) \<and> e = entry_of (de_digest e)) \<and> sorted_wrt (<) (map de_val entries)"

definition digests :: "digestEntry list \<Rightarrow> string set" where
  "digests entries = set (set_All entries)"

lemma digests_simps [simp]:
  "digests [] = {}" "digests (e # es) = insert (de_digest e) (digests es)" "digests (xs @ ys) = digests xs \<union> digests ys"
  by (simp_all add: digests_def set_All_def)

lemma entry_of_simps [simp]: "de_alg (entry_of d) = ''sha256''" "de_val (entry_of d) = drop 7 d" "de_digest (entry_of d) = d"
  by (simp_all add: entry_of_def)

lemma set_inv_nth:
  assumes "set_inv es" "i < length es"
  shows "canonical (de_digest (es ! i))" "de_alg (es ! i) = ''sha256''" "de_val (es ! i) = drop 7 (de_digest (es ! i))"
    "es ! i = entry_of (de_digest (es ! i))"
proof -
  have e: "canonical (de_digest (es ! i))" "es ! i = entry_of (de_digest (es ! i))"
    using assms nth_mem [of i es] unfolding set_inv_def by blast+
  then show "canonical (de_digest (es ! i))" "es ! i = entry_of (de_digest (es ! i))" by simp_all
  show "de_alg (es ! i) = ''sha256''" "de_val (es ! i) = drop 7 (de_digest (es ! i))"
    by (subst e(2), simp)+
qed

lemma set_inv_less: "set_inv es \<Longrightarrow> i < j \<Longrightarrow> j < length es \<Longrightarrow> de_val (es ! i) < de_val (es ! j)"
  by (auto simp: set_inv_def sorted_wrt_iff_nth_less)

lemma set_inv_mono: "set_inv es \<Longrightarrow> i \<le> j \<Longrightarrow> j < length es \<Longrightarrow> de_val (es ! i) \<le> de_val (es ! j)"
  using set_inv_less [of es i j] by (cases "i = j") auto

lemma canonical_eq: "canonical d \<Longrightarrow> canonical d' \<Longrightarrow> drop 7 d = drop 7 d' \<longleftrightarrow> d = d'"
  by (metis canonical_digest(4))

lemma entry_search_iff:
  assumes "set_inv es" "i < length es"
  shows "entry_search es ''sha256'' val i \<longleftrightarrow> val \<le> de_val (es ! i)"
  using set_inv_nth(2) [OF assms] by (auto simp: entry_search_def)

lemma digests_nth: "d \<in> digests es \<longleftrightarrow> (\<exists>i < length es. de_digest (es ! i) = d)"
  by (force simp: digests_def set_All_def in_set_conv_nth)

lemma digests_at: "i < length es \<Longrightarrow> de_digest (es ! i) \<in> digests es"
  by (auto simp: digests_nth)

text \<open>Where the search of a canonical digest or of a prefix stops.\<close>

lemma search_spec:
  assumes inv: "set_inv es" and f: "\<forall>i < length es. f i \<longleftrightarrow> val \<le> de_val (es ! i)"
  defines "idx \<equiv> sort_Search (length es) f"
  shows "idx \<le> length es" and "\<And>i. i < idx \<Longrightarrow> de_val (es ! i) < val" and "\<And>i. idx \<le> i \<Longrightarrow> i < length es \<Longrightarrow> val \<le> de_val (es ! i)"
proof -
  have mono: "\<forall>k l. k \<le> l \<longrightarrow> l < length es \<longrightarrow> f k \<longrightarrow> f l"
    using set_inv_mono [OF inv] f by (meson le_less_trans order_trans)
  note s = sort_Search_first [of "length es" f, OF mono, folded idx_def]
  show le: "idx \<le> length es" using s(1) .
  show "de_val (es ! i) < val" if "i < idx" for i using s(2) [OF that] f le that by auto
  show "val \<le> de_val (es ! i)" if "idx \<le> i" "i < length es" for i using s(3) [OF that] f that(2) by simp
qed

lemma canonical_search:
  assumes inv: "set_inv es" and d: "canonical d"
  defines "idx \<equiv> sort_Search (length es) (entry_search es ''sha256'' (drop 7 d))"
  shows "idx \<le> length es" and "d \<in> digests es \<longleftrightarrow> idx < length es \<and> de_digest (es ! idx) = d"
    and "\<And>i. i < idx \<Longrightarrow> de_val (es ! i) < drop 7 d"
    and "\<And>i. idx \<le> i \<Longrightarrow> i < length es \<Longrightarrow> d \<notin> digests es \<Longrightarrow> drop 7 d < de_val (es ! i)"
proof -
  have "\<forall>i < length es. entry_search es ''sha256'' (drop 7 d) i \<longleftrightarrow> drop 7 d \<le> de_val (es ! i)"
    using entry_search_iff [OF inv] by blast
  note s = search_spec [OF inv this, folded idx_def]
  show "idx \<le> length es" "\<And>i. i < idx \<Longrightarrow> de_val (es ! i) < drop 7 d" using s by blast+
  have at: "d = de_digest (es ! i) \<longleftrightarrow> de_val (es ! i) = drop 7 d" if "i < length es" for i
    using set_inv_nth [OF inv that] canonical_eq [OF d] by metis
  show "d \<in> digests es \<longleftrightarrow> idx < length es \<and> de_digest (es ! idx) = d"
  proof
    assume "d \<in> digests es"
    then obtain i where i: "i < length es" "de_val (es ! i) = drop 7 d" using at by (auto simp: digests_nth)
    then have "idx \<le> i" using s(2) [of i] by (cases "idx \<le> i") simp_all
    moreover from this have "de_val (es ! idx) = drop 7 d"
      using s(3) [of idx] set_inv_mono [OF inv _ i(1), of idx] i by simp
    ultimately show "idx < length es \<and> de_digest (es ! idx) = d" using i(1) at [of idx] by auto
  qed (auto simp: digests_nth)
  show "drop 7 d < de_val (es ! i)" if "idx \<le> i" "i < length es" "d \<notin> digests es" for i
    using s(3) [OF that(1,2)] at [OF that(2)] that(2,3) by (auto simp: digests_nth order.order_iff_strict)
qed

section \<open>The set as a finite set of digests\<close>

lemma set_inv_empty [simp]: "set_inv []"
  by (simp add: set_inv_def)

lemma set_Add_spec:
  assumes inv: "set_inv es" and d: "canonical d"
  obtains es' where "set_Add d es = (None, es')" "set_inv es'" "digests es' = insert d (digests es)"
proof -
  let ?idx = "sort_Search (length es) (entry_search es ''sha256'' (drop 7 d))"
  note s = canonical_search [OF inv d] and c = canonical_digest [OF d]
  show thesis
  proof (cases "d \<in> digests es")
    case True
    then have "set_Add d es = (None, es)" using s(2) by (simp add: set_Add_def c Let_def)
    then show thesis using that inv True by (auto simp: insert_absorb)
  next
    case False
    let ?es = "take ?idx es @ entry_of d # drop ?idx es"
    have "set_Add d es = (None, ?es)"
      using False s(1,2) by (auto simp: set_Add_def c Let_def entry_of_def)
    moreover have "set_inv ?es"
      unfolding set_inv_def
    proof
      show "\<forall>e \<in> set ?es. canonical (de_digest e) \<and> e = entry_of (de_digest e)"
        using inv d by (auto simp: set_inv_def dest: in_set_takeD in_set_dropD)
      have "sorted_wrt (<) (map de_val (take ?idx es))" "sorted_wrt (<) (map de_val (drop ?idx es))"
        using inv by (auto simp: set_inv_def sorted_wrt_take sorted_wrt_drop simp flip: take_map drop_map)
      moreover have lo: "\<forall>e \<in> set (take ?idx es). de_val e < drop 7 d"
        using s(1,3) by (auto simp: in_set_conv_nth)
      moreover have hi: "\<forall>e \<in> set (drop ?idx es). drop 7 d < de_val e"
        using s(4) [OF _ _ False] by (auto simp: in_set_conv_nth)
      ultimately show "sorted_wrt (<) (map de_val ?es)"
        by (auto simp: sorted_wrt_append intro: less_trans)
    qed
    moreover have "digests ?es = insert d (digests es)"
      by (metis (no_types) Un_insert_right append_take_drop_id digests_simps(2,3) entry_of_simps(3))
    ultimately show thesis using that by blast
  qed
qed

lemma set_Remove_spec:
  assumes inv: "set_inv es" and d: "canonical d"
  obtains es' where "set_Remove d es = (None, es')" "set_inv es'" "digests es' = digests es - {d}"
proof -
  let ?idx = "sort_Search (length es) (entry_search es ''sha256'' (drop 7 d))"
  note s = canonical_search [OF inv d] and c = canonical_digest [OF d]
  show thesis
  proof (cases "d \<in> digests es")
    case False
    then have "set_Remove d es = (None, es)" using s(1,2) by (auto simp: set_Remove_def c Let_def)
    then show thesis using that inv False by auto
  next
    case True
    let ?es = "take ?idx es @ drop (Suc ?idx) es"
    have i: "?idx < length es" "de_digest (es ! ?idx) = d" using True s(2) by blast+
    then have "set_Remove d es = (None, ?es)" by (simp add: set_Remove_def c Let_def)
    moreover have split: "es = take ?idx es @ es ! ?idx # drop (Suc ?idx) es" by (rule id_take_nth_drop [OF i(1)])
    have sub: "set ?es \<subseteq> set es" by (auto dest: in_set_takeD in_set_dropD)
    have "sorted_wrt (<) (map de_val (take ?idx es @ es ! ?idx # drop (Suc ?idx) es))"
      using inv split unfolding set_inv_def by metis
    then have sw: "sorted_wrt (<) (map de_val ?es)" and ne: "\<forall>e \<in> set ?es. de_val e \<noteq> de_val (es ! ?idx)"
      by (auto simp: sorted_wrt_append)
    have "set_inv ?es" using sub sw inv by (auto simp: set_inv_def)
    moreover have "d \<notin> digests ?es"
    proof
      assume "d \<in> digests ?es"
      then obtain e where e: "e \<in> set ?es" "de_digest e = d" by (auto simp: digests_def set_All_def)
      then have "e = entry_of d" using sub inv by (auto simp: set_inv_def)
      moreover have "es ! ?idx = entry_of d" using set_inv_nth(4) [OF inv i(1)] i(2) by simp
      ultimately show False using bspec [OF ne e(1)] by simp
    qed
    moreover have "digests es = insert d (digests ?es)"
      by (subst split) (simp add: i(2))
    ultimately show thesis using that by auto
  qed
qed

section \<open>Look-up by prefix\<close>

lemma prefix_le:
  fixes p :: "'a :: linorder list"
  shows "prefix p x \<Longrightarrow> p \<le> x"
  by (induction p arbitrary: x) (auto simp: prefix_def)

lemma prefix_between:
  fixes p :: "'a :: linorder list"
  shows "p \<le> y \<Longrightarrow> y \<le> x \<Longrightarrow> prefix p x \<Longrightarrow> prefix p y"
proof (induction p arbitrary: x y)
  case (Cons a p)
  then obtain x' where x: "x = a # x'" "prefix p x'" by (cases x) auto
  with Cons show ?case by (cases y) auto
qed simp

text \<open>
  The digests a term denotes: those whose hexadecimal part the term is a prefix of; a term with an
  algorithm denotes no digest of another one.
\<close>

definition denotes :: "string \<Rightarrow> string \<Rightarrow> bool" where
  "denotes term d \<longleftrightarrow>
     (if Digest_Validate term = Some DigestInvalidFormat then prefix term (drop 7 d)
      else (case getLayerDirectory term of None \<Rightarrow> False | Some (alg, hex) \<Rightarrow> alg = ''sha256'' \<and> prefix hex (drop 7 d)))"

lemma checkShortMatch_iff: "checkShortMatch alg hex shortAlg shortHex \<longleftrightarrow> prefix shortHex hex \<and> (shortAlg = '''' \<or> alg = shortAlg)"
  by (auto simp: checkShortMatch_def prefix_def)

text \<open>The entries a prefix selects follow each other, from where the search stops.\<close>

lemma prefix_block:
  assumes inv: "set_inv es" and f: "\<forall>i < length es. f i \<longleftrightarrow> p \<le> de_val (es ! i)"
  defines "idx \<equiv> sort_Search (length es) f"
  shows "(\<exists>d \<in> digests es. prefix p (drop 7 d)) \<longleftrightarrow> idx < length es \<and> prefix p (de_val (es ! idx))"
    and "idx < length es \<Longrightarrow> prefix p (de_val (es ! idx)) \<Longrightarrow>
      (\<exists>d \<in> digests es. prefix p (drop 7 d) \<and> d \<noteq> de_digest (es ! idx)) \<longleftrightarrow> idx + 1 < length es \<and> prefix p (de_val (es ! (idx + 1)))"
proof -
  note s = search_spec [OF inv f, folded idx_def]
  have start: "idx \<le> i" if "i < length es" "prefix p (de_val (es ! i))" for i
    using s(2) [of i] prefix_le [OF that(2)] by (cases "idx \<le> i") auto
  have down: "prefix p (de_val (es ! j))" if "idx \<le> j" "j \<le> i" "i < length es" "prefix p (de_val (es ! i))" for i j
    using prefix_between [OF s(3) [OF that(1)] set_inv_mono [OF inv that(2,3)] that(4)] that(2,3) by simp
  have val: "de_val (es ! i) = drop 7 (de_digest (es ! i))" if "i < length es" for i using set_inv_nth(3) [OF inv that] .
  show "(\<exists>d \<in> digests es. prefix p (drop 7 d)) \<longleftrightarrow> idx < length es \<and> prefix p (de_val (es ! idx))"
  proof
    assume "\<exists>d \<in> digests es. prefix p (drop 7 d)"
    then obtain i where i: "i < length es" "prefix p (de_val (es ! i))" using val by (auto simp: digests_nth)
    then show "idx < length es \<and> prefix p (de_val (es ! idx))" using start [OF i] down [OF order.refl _ i] by auto
  qed (use val digests_at in metis)
  assume idx: "idx < length es" "prefix p (de_val (es ! idx))"
  show "(\<exists>d \<in> digests es. prefix p (drop 7 d) \<and> d \<noteq> de_digest (es ! idx)) \<longleftrightarrow>
      idx + 1 < length es \<and> prefix p (de_val (es ! (idx + 1)))"
  proof
    assume "\<exists>d \<in> digests es. prefix p (drop 7 d) \<and> d \<noteq> de_digest (es ! idx)"
    then obtain i where i: "i < length es" "prefix p (de_val (es ! i))" "i \<noteq> idx" using val by (metis digests_nth)
    then have "idx + 1 \<le> i" using start [OF i(1,2)] by simp
    then show "idx + 1 < length es \<and> prefix p (de_val (es ! (idx + 1)))" using down [of "idx + 1" i] i by auto
  next
    assume n: "idx + 1 < length es \<and> prefix p (de_val (es ! (idx + 1)))"
    then have "de_digest (es ! (idx + 1)) \<noteq> de_digest (es ! idx)"
      using set_inv_less [OF inv, of idx "idx + 1"] val [of idx] val [of "idx + 1"] by auto
    with n show "\<exists>d \<in> digests es. prefix p (drop 7 d) \<and> d \<noteq> de_digest (es ! idx)"
      using val [of "idx + 1"] digests_at [of "idx + 1" es] by metis
  qed
qed

lemma set_Lookup_prefix:
  assumes inv: "set_inv es" and f: "\<forall>i < length es. f i \<longleftrightarrow> p \<le> de_val (es ! i)" and alg: "alg \<in> {'''', ''sha256''}"
  defines "idx \<equiv> sort_Search (length es) f"
  defines "r \<equiv> (if idx = length es \<or> \<not> checkShortMatch (de_alg (es ! idx)) (de_val (es ! idx)) alg p
               then Inl ErrDigestNotFound
               else if de_alg (es ! idx) = alg \<and> de_val (es ! idx) = p then Inr (de_digest (es ! idx))
               else if idx + 1 < length es \<and> checkShortMatch (de_alg (es ! (idx + 1))) (de_val (es ! (idx + 1))) alg p
               then Inl ErrDigestAmbiguous
               else Inr (de_digest (es ! idx)))"
  shows "(r = Inr d \<longleftrightarrow> {x \<in> digests es. prefix p (drop 7 x)} = {d}) \<and>
         (r = Inl ErrDigestNotFound \<longleftrightarrow> {x \<in> digests es. prefix p (drop 7 x)} = {}) \<and> r \<noteq> Inl ErrDigestPanic"
proof -
  let ?M = "{x \<in> digests es. prefix p (drop 7 x)}"
  note b = prefix_block [OF inv f, folded idx_def] and s = search_spec [OF inv f, folded idx_def]
  have sm: "checkShortMatch (de_alg (es ! i)) (de_val (es ! i)) alg p \<longleftrightarrow> prefix p (de_val (es ! i))" if "i < length es" for i
    using alg set_inv_nth(2) [OF inv that] by (auto simp: checkShortMatch_iff)
  consider (none) "?M = {}" | (one) x where "?M = {x}" | (more) x y where "x \<in> ?M" "y \<in> ?M" "x \<noteq> y" by blast
  then show ?thesis
  proof cases
    case none
    then have "r = Inl ErrDigestNotFound" using b(1) sm [of idx] s(1) by (auto simp: r_def)
    then show ?thesis using none by auto
  next
    case (one x)
    then have i: "idx < length es" "prefix p (de_val (es ! idx))" using b(1) by blast+
    then have "de_digest (es ! idx) \<in> ?M" using set_inv_nth(3) [OF inv i(1)] by (auto simp: digests_nth)
    then have x: "de_digest (es ! idx) = x" using one by simp
    then have "\<not> (idx + 1 < length es \<and> prefix p (de_val (es ! (idx + 1))))" using b(2) [OF i] one by blast
    then have "r = Inr x" using i sm x by (auto simp: r_def)
    then show ?thesis using one by auto
  next
    case (more x y)
    then have i: "idx < length es" "prefix p (de_val (es ! idx))" using b(1) by blast+
    have n: "idx + 1 < length es" "prefix p (de_val (es ! (idx + 1)))" using b(2) [OF i] more by blast+
    have c: "length (de_val (es ! k)) = 64" if "k < length es" for k
      using set_inv_nth(1,3) [OF inv that] by (auto simp: canonical_def v1_ValidateID_def)
    have "de_val (es ! idx) \<noteq> p"
    proof
      assume p: "de_val (es ! idx) = p"
      then obtain zs where "de_val (es ! (idx + 1)) = de_val (es ! idx) @ zs" using n(2) by (auto simp: prefix_def)
      then have "de_val (es ! (idx + 1)) = de_val (es ! idx)" using c [OF i(1)] c [OF n(1)] by simp
      then show False using set_inv_less [OF inv _ n(1), of idx] by simp
    qed
    then have "r = Inl ErrDigestAmbiguous" unfolding r_def using i n sm [OF i(1)] sm [OF n(1)] by simp
    moreover have "x = d \<and> y = d" if "?M = {d}" using more(1,2) unfolding that by simp
    moreover have "x \<in> {}" if "?M = {}" using more(1) unfolding that .
    ultimately show ?thesis using more(3) by auto
  qed
qed

text \<open>\<open>Lookup\<close> returns the only digest a term denotes; otherwise it tells none from several.\<close>

lemma set_Lookup_spec:
  assumes inv: "set_inv es"
  shows "set_Lookup term es = Inr d \<longleftrightarrow> {x \<in> digests es. denotes term x} = {d}"
    and "set_Lookup term es = Inl ErrDigestNotFound \<longleftrightarrow> {x \<in> digests es. denotes term x} = {}"
    and "set_Lookup term es \<noteq> Inl ErrDigestPanic"
proof -
  have "(set_Lookup term es = Inr d \<longleftrightarrow> {x \<in> digests es. denotes term x} = {d}) \<and>
      (set_Lookup term es = Inl ErrDigestNotFound \<longleftrightarrow> {x \<in> digests es. denotes term x} = {}) \<and> set_Lookup term es \<noteq> Inl ErrDigestPanic"
  proof (cases "es = []")
    case True
    then show ?thesis by (simp add: set_Lookup_def)
  next
    case ne: False
    show ?thesis
    proof (cases "Digest_Validate term = Some DigestInvalidFormat")
      case True
      then show ?thesis
        using set_Lookup_prefix [OF inv, of "\<lambda>i. term \<le> de_val (es ! i)" "term" "''''" d] ne
        unfolding set_Lookup_def denotes_def by (simp add: Let_def)
    next
      case False
      then obtain alg hex where t: "getLayerDirectory term = Some (alg, hex)"
        by (auto simp: Digest_Validate_def DigestRegexpAnchored_def getLayerDirectory_def split: if_splits option.splits)
      show ?thesis
      proof (cases "alg = ''sha256''")
        case True
        then show ?thesis
          using set_Lookup_prefix [OF inv, of "entry_search es ''sha256'' hex" hex "''sha256''" d] entry_search_iff [OF inv] ne t False
          unfolding set_Lookup_def denotes_def by (simp add: Let_def)
      next
        case other: False
        have "alg \<noteq> ''''" using False t
          by (auto simp: Digest_Validate_def DigestRegexpAnchored_def getLayerDirectory_def split: if_splits option.splits)
        then have no: "\<not> checkShortMatch (de_alg (es ! i)) (de_val (es ! i)) alg hex" if "i < length es" for i
          using other set_inv_nth(2) [OF inv that] by (auto simp: checkShortMatch_iff)
        let ?idx = "sort_Search (length es) (entry_search es alg hex)"
        have "?idx = length es \<or> \<not> checkShortMatch (de_alg (es ! ?idx)) (de_val (es ! ?idx)) alg hex"
          using sort_Search_le [of "length es" "entry_search es alg hex"] no [of ?idx] by linarith
        then have "set_Lookup term es = Inl ErrDigestNotFound"
          using ne t False unfolding set_Lookup_def by (simp add: Let_def)
        then show ?thesis using other t False by (auto simp: denotes_def)
      qed
    qed
  qed
  then show "set_Lookup term es = Inr d \<longleftrightarrow> {x \<in> digests es. denotes term x} = {d}"
    "set_Lookup term es = Inl ErrDigestNotFound \<longleftrightarrow> {x \<in> digests es. denotes term x} = {}"
    "set_Lookup term es \<noteq> Inl ErrDigestPanic" by blast+
qed

end
