(* ===== verification/LayerRefs.thy ===== *)
theory LayerRefs
  imports LayerStore
begin

text \<open>
  The reference counts of the layer store. The invariant says what the count of every registered layer
  is; each critical section of the store keeps it, so that it holds after any interleaving of calls and
  none of the panics of \<open>releaseLayer\<close> can happen.
\<close>

section \<open>Reference counts\<close>

text \<open>A layer is live while the map leads to it.\<close>

definition live :: "layerStore \<Rightarrow> nat \<Rightarrow> bool" where
  "live s a \<longleftrightarrow> (\<exists>l. fmlookup (ls_heap s) a = Some l \<and> fmlookup (ls_layerMap s) (rl_chainID l) = Some a)"

definition has_parent :: "layerStore \<Rightarrow> nat \<Rightarrow> nat \<Rightarrow> bool" where
  "has_parent s p a \<longleftrightarrow> (case fmlookup (ls_heap s) a of None \<Rightarrow> False | Some l \<Rightarrow> rl_parent l = Some p)"

definition children :: "layerStore \<Rightarrow> nat \<Rightarrow> nat fset" where
  "children s p = ffilter (has_parent s p) (fmran (ls_layerMap s))"

definition mounted :: "layerStore \<Rightarrow> nat \<Rightarrow> string fset" where
  "mounted s p = ffilter (\<lambda>n. case fmlookup (ls_mounts s) n of None \<Rightarrow> False | Some m \<Rightarrow> ml_parent m = Some p) (fmdom (ls_mounts s))"

text \<open>
  The invariant, relative to a multiset \<open>F\<close> of layers that running calls have retained: the map and the
  heap agree, parents are live and older than their children, and the count of every live layer is the
  number of its references, live children and mounts, and of the running calls that retain it.
\<close>

definition ls_shape :: "layerStore \<Rightarrow> bool" where
  "ls_shape s \<longleftrightarrow>
     (\<forall>c a. fmlookup (ls_layerMap s) c = Some a \<longrightarrow> (\<exists>l. fmlookup (ls_heap s) a = Some l \<and> rl_chainID l = c)) \<and>
     (\<forall>a l. fmlookup (ls_heap s) a = Some l \<longrightarrow> a < ls_fresh s \<and> (\<forall>r. r |\<in>| rl_references l \<longrightarrow> r < ls_fresh s \<and> live s a)) \<and>
     (\<forall>a l p. live s a \<and> fmlookup (ls_heap s) a = Some l \<and> rl_parent l = Some p \<longrightarrow> p < a \<and> live s p) \<and>
     (\<forall>n m. fmlookup (ls_mounts s) n = Some m \<longrightarrow> ml_name m = n \<and> (\<forall>p. ml_parent m = Some p \<longrightarrow> live s p))"

definition ls_inv :: "nat multiset \<Rightarrow> layerStore \<Rightarrow> bool" where
  "ls_inv F s \<longleftrightarrow> ls_shape s \<and> (\<forall>p \<in># F. live s p) \<and>
     (\<forall>a l. live s a \<and> fmlookup (ls_heap s) a = Some l \<longrightarrow>
        rl_referenceCount l = fcard (rl_references l) + fcard (children s a) + fcard (mounted s a) + count F a)"

lemma ls_shapeD:
  assumes "ls_shape s"
  shows "\<And>c a. fmlookup (ls_layerMap s) c = Some a \<Longrightarrow> \<exists>l. fmlookup (ls_heap s) a = Some l \<and> rl_chainID l = c"
    and "\<And>a l. fmlookup (ls_heap s) a = Some l \<Longrightarrow> a < ls_fresh s"
    and "\<And>a l r. fmlookup (ls_heap s) a = Some l \<Longrightarrow> r |\<in>| rl_references l \<Longrightarrow> r < ls_fresh s"
    and "\<And>a l p. live s a \<Longrightarrow> fmlookup (ls_heap s) a = Some l \<Longrightarrow> rl_parent l = Some p \<Longrightarrow> p < a \<and> live s p"
    and "\<And>n m. fmlookup (ls_mounts s) n = Some m \<Longrightarrow> ml_name m = n"
    and "\<And>n m p. fmlookup (ls_mounts s) n = Some m \<Longrightarrow> ml_parent m = Some p \<Longrightarrow> live s p"
    and "\<And>a l r. fmlookup (ls_heap s) a = Some l \<Longrightarrow> r |\<in>| rl_references l \<Longrightarrow> live s a"
  using assms unfolding ls_shape_def by blast+

lemma ls_invD:
  assumes "ls_inv F s"
  shows "ls_shape s" and "\<And>p. p \<in># F \<Longrightarrow> live s p"
    and "\<And>a l. live s a \<Longrightarrow> fmlookup (ls_heap s) a = Some l \<Longrightarrow>
      rl_referenceCount l = fcard (rl_references l) + fcard (children s a) + fcard (mounted s a) + count F a"
  using assms unfolding ls_inv_def by blast+

lemma count_pos_iff:
  assumes "ls_inv F s" "live s a" "fmlookup (ls_heap s) a = Some l"
  shows "0 < rl_referenceCount l \<longleftrightarrow> rl_references l \<noteq> {||} \<or> children s a \<noteq> {||} \<or> mounted s a \<noteq> {||} \<or> a \<in># F"
proof -
  have "rl_referenceCount l = 0 \<longleftrightarrow> rl_references l = {||} \<and> children s a = {||} \<and> mounted s a = {||} \<and> a \<notin># F"
    using ls_invD(3) [OF assms] by (simp add: fcard_0_eq count_eq_zero_iff)
  then show ?thesis by (simp only: neq0_conv [symmetric] de_Morgan_conj not_not simp_thms)
qed

lemma live_in_map:
  assumes "ls_shape s" and "fmlookup (ls_layerMap s) c = Some a"
  shows "live s a"
  using ls_shapeD(1) [OF assms] assms(2) by (auto simp: live_def)

lemma children_iff:
  assumes "ls_shape s"
  shows "a |\<in>| children s p \<longleftrightarrow> live s a \<and> has_parent s p a"
  using live_in_map [OF assms] by (auto simp: children_def fmlookup_ran_iff live_def)

lemma mounted_iff: "n |\<in>| mounted s p \<longleftrightarrow> (\<exists>m. fmlookup (ls_mounts s) n = Some m \<and> ml_parent m = Some p)"
  by (auto simp: mounted_def fmlookup_dom_iff split: option.splits)

text \<open>Changing the count and the references of one layer.\<close>

lemma upd_layer_lookup:
  "fmlookup (ls_heap (upd_layer a f s)) b = (if b = a then map_option f (fmlookup (ls_heap s) a) else fmlookup (ls_heap s) b)"
  by (auto simp: upd_layer_def split: option.splits)

lemma upd_layer_frame [simp]:
  "ls_layerMap (upd_layer a f s) = ls_layerMap s" "ls_mounts (upd_layer a f s) = ls_mounts s"
  "ls_fresh (upd_layer a f s) = ls_fresh s" "ls_store (upd_layer a f s) = ls_store s" "ls_driver (upd_layer a f s) = ls_driver s"
  by (simp_all add: upd_layer_def split: option.splits)

text \<open>Two stores with the same layers, but for counts, references and what is outside the graph.\<close>

definition same_graph :: "layerStore \<Rightarrow> layerStore \<Rightarrow> bool" where
  "same_graph s t \<longleftrightarrow> ls_layerMap t = ls_layerMap s \<and>
     (\<forall>a. map_option (\<lambda>l. (rl_chainID l, rl_parent l)) (fmlookup (ls_heap t) a) =
          map_option (\<lambda>l. (rl_chainID l, rl_parent l)) (fmlookup (ls_heap s) a))"

lemma same_graph_upd:
  assumes "\<And>l. rl_chainID (f l) = rl_chainID l \<and> rl_parent (f l) = rl_parent l"
  shows "same_graph s (upd_layer a f s)"
  using assms by (auto simp: same_graph_def upd_layer_lookup map_option_case split: option.splits)

lemma same_graph_live:
  assumes "same_graph s t"
  shows "live t a = live s a" and "has_parent t p a = has_parent s p a" and "children t p = children s p"
proof -
  have a: "map_option (\<lambda>l. (rl_chainID l, rl_parent l)) (fmlookup (ls_heap t) b) =
      map_option (\<lambda>l. (rl_chainID l, rl_parent l)) (fmlookup (ls_heap s) b)" and m: "ls_layerMap t = ls_layerMap s" for b
    using assms by (simp_all add: same_graph_def)
  show "live t a = live s a" using a [of a] m by (auto simp: live_def map_option_case split: option.splits)
  have hp: "has_parent t p b = has_parent s p b" for b
    using a [of b] by (auto simp: has_parent_def map_option_case split: option.splits)
  then show "has_parent t p a = has_parent s p a" .
  have "has_parent t p = has_parent s p" using hp by (rule ext)
  then show "children t p = children s p" using m by (simp add: children_def)
qed

lemma ls_shape_same_graph:
  assumes sh: "ls_shape s" and g: "same_graph s t" and "ls_mounts t = ls_mounts s" "ls_fresh s \<le> ls_fresh t"
    and refs: "\<And>a l r. fmlookup (ls_heap t) a = Some l \<Longrightarrow> r |\<in>| rl_references l \<Longrightarrow> r < ls_fresh t \<and> live s a"
  shows "ls_shape t"
proof -
  have at: "map_option (\<lambda>l. (rl_chainID l, rl_parent l)) (fmlookup (ls_heap t) a) =
      map_option (\<lambda>l. (rl_chainID l, rl_parent l)) (fmlookup (ls_heap s) a)" for a
    using g by (simp add: same_graph_def)
  have h: "\<exists>l'. fmlookup (ls_heap s) a = Some l' \<and> rl_chainID l' = rl_chainID l \<and> rl_parent l' = rl_parent l"
    if "fmlookup (ls_heap t) a = Some l" for a l
    using at [of a] that by (cases "fmlookup (ls_heap s) a") simp_all
  have h': "\<exists>l'. fmlookup (ls_heap t) a = Some l' \<and> rl_chainID l' = rl_chainID l"
    if "fmlookup (ls_heap s) a = Some l" for a l
    using at [of a] that by (cases "fmlookup (ls_heap t) a") simp_all
  show ?thesis
    unfolding ls_shape_def same_graph_live(1) [OF g]
  proof (intro conjI allI impI, goal_cases)
    case (1 c a)
    then have "fmlookup (ls_layerMap s) c = Some a" using g by (simp add: same_graph_def)
    from ls_shapeD(1) [OF sh this] h' show ?case by fastforce
  next
    case (2 a l)
    from h [OF 2] ls_shapeD(2) [OF sh] assms(4) show ?case by fastforce
  next
    case (3 a l r)
    then show ?case using refs by blast
  next
    case (4 a l r)
    then show ?case using refs by blast
  next
    case (5 a l p)
    with h [of a l] ls_shapeD(4) [OF sh, of a _ p] show ?case by auto
  next
    case (6 a l p)
    with h [of a l] ls_shapeD(4) [OF sh, of a _ p] show ?case by auto
  next
    case (7 n m)
    with ls_shapeD(5) [OF sh] assms(3) show ?case by simp
  next
    case (8 n m p)
    with ls_shapeD(6) [OF sh] assms(3) show ?case by simp
  qed
qed

lemma mounted_cong: "ls_mounts t = ls_mounts s \<Longrightarrow> mounted t p = mounted s p"
  by (simp add: mounted_def)

text \<open>
  The rule for a change at one live layer \<open>a\<close>: its references and count become \<open>l'\<close>'s, and the
  retained layers become \<open>G\<close>.
\<close>

lemma ls_inv_upd:
  assumes inv: "ls_inv F s" and a: "live s a" "fmlookup (ls_heap s) a = Some l"
    and t: "fmlookup (ls_heap t) = (fmlookup (ls_heap s))(a \<mapsto> l')" "ls_layerMap t = ls_layerMap s" "ls_mounts t = ls_mounts s"
      "ls_fresh s \<le> ls_fresh t"
    and l': "rl_chainID l' = rl_chainID l" "rl_parent l' = rl_parent l" "\<And>r. r |\<in>| rl_references l' \<Longrightarrow> r < ls_fresh t"
    and G: "\<And>b. b \<noteq> a \<Longrightarrow> count G b = count F b"
    and cnt: "rl_referenceCount l' + fcard (rl_references l) + count F a = rl_referenceCount l + fcard (rl_references l') + count G a"
  shows "ls_inv G t"
proof -
  have g: "same_graph s t" using t(1,2) a(2) l'(1,2) by (auto simp: same_graph_def)
  have refs: "r < ls_fresh t \<and> live s b" if "fmlookup (ls_heap t) b = Some k" "r |\<in>| rl_references k" for b k r
    using that t(1) l'(3) [of r] ls_shapeD(3,7) [OF ls_invD(1) [OF inv], of b k r] t(4) a(1) by (cases "b = a") simp_all
  have shape: "ls_shape t" by (rule ls_shape_same_graph [OF ls_invD(1) [OF inv] g t(3,4)]) (rule refs)
  have "live t p" if "p \<in># G" for p
  proof (cases "p = a")
    case True
    with a(1) same_graph_live(1) [OF g, of p] show ?thesis by simp
  next
    case False
    with that G [of p] have "p \<in># F" by (metis count_greater_zero_iff)
    with ls_invD(2) [OF inv, of p] same_graph_live(1) [OF g, of p] show ?thesis by simp
  qed
  moreover have "rl_referenceCount k = fcard (rl_references k) + fcard (children t b) + fcard (mounted t b) + count G b"
    if "live t b" "fmlookup (ls_heap t) b = Some k" for b k
  proof (cases "b = a")
    case True
    with that t(1) have "k = l'" by simp
    with True cnt ls_invD(3) [OF inv a] show ?thesis
      by (simp add: same_graph_live(3) [OF g] mounted_cong [OF t(3)])
  next
    case False
    with that t(1) same_graph_live(1) [OF g, of b] ls_invD(3) [OF inv, of b k] G [OF False] show ?thesis
      by (simp add: same_graph_live(3) [OF g] mounted_cong [OF t(3)])
  qed
  ultimately show ?thesis using shape by (simp add: ls_inv_def)
qed

lemma upd_layer_heap:
  "fmlookup (ls_heap s) a = Some l \<Longrightarrow> fmlookup (ls_heap (upd_layer a f s)) = (fmlookup (ls_heap s))(a \<mapsto> f l)"
  by (auto simp: upd_layer_lookup)

text \<open>Retaining a layer, and turning the retention into a reference and back.\<close>

lemma getWithoutLock_inv:
  assumes inv: "ls_inv F s" and g: "getWithoutLock c s = (Some a, s')"
  shows "ls_inv (F + {#a#}) s'" and "live s' a" and "fmlookup (ls_layerMap s) c = Some a"
proof -
  show m: "fmlookup (ls_layerMap s) c = Some a" using g by (auto simp: getWithoutLock_def split: option.splits)
  have s': "s' = upd_layer a (\<lambda>l. l\<lparr>rl_referenceCount := rl_referenceCount l + 1\<rparr>) s"
    using g m by (simp add: getWithoutLock_def)
  have live: "live s a" using live_in_map [OF ls_invD(1) [OF inv] m] .
  then obtain l where l: "fmlookup (ls_heap s) a = Some l" by (auto simp: live_def)
  show "ls_inv (F + {#a#}) s'"
    unfolding s' using ls_shapeD(3) [OF ls_invD(1) [OF inv] l]
    by (intro ls_inv_upd [OF inv live l upd_layer_heap [OF l]]) simp_all
  then show "live s' a" by (rule ls_invD(2)) simp
qed

lemma getReference_inv:
  assumes inv: "ls_inv (F + {#a#}) s"
  shows "\<exists>h s' l. getReference a s = (Some h, s') \<and> ls_inv F s' \<and> fmlookup (ls_heap s) a = Some l \<and>
    lh_ChainID h = rl_chainID l \<and> fmlookup (ls_layerMap s') (rl_chainID l) = Some a \<and>
    (\<exists>l'. fmlookup (ls_heap s') a = Some l' \<and> lh_ref h |\<in>| rl_references l')"
proof -
  have live: "live s a" using ls_invD(2) [OF inv] by simp
  then obtain l where l: "fmlookup (ls_heap s) a = Some l" "fmlookup (ls_layerMap s) (rl_chainID l) = Some a" by (auto simp: live_def)
  let ?r = "ls_fresh s"
  let ?f = "\<lambda>l. l\<lparr>rl_references := finsert ?r (rl_references l)\<rparr>"
  let ?t = "upd_layer a ?f (s\<lparr>ls_fresh := Suc ?r\<rparr>)"
  have fresh: "?r |\<notin>| rl_references l" using ls_shapeD(3) [OF ls_invD(1) [OF inv] l(1), of ?r] by auto
  have h: "fmlookup (ls_heap ?t) = (fmlookup (ls_heap s))(a \<mapsto> ?f l)"
    using upd_layer_heap [of "s\<lparr>ls_fresh := Suc ?r\<rparr>" a l ?f] l(1) by simp
  have "ls_inv F ?t"
    using ls_shapeD(3) [OF ls_invD(1) [OF inv] l(1)] fresh
    by (intro ls_inv_upd [OF inv live l(1) h]) (auto simp: less_SucI fcard_finsert_disjoint)
  then show ?thesis using l h by (auto simp: getReference_def Let_def)
qed

lemma deleteReference_inv:
  assumes inv: "ls_inv F s" and a: "live s a" "fmlookup (ls_heap s) a = Some l" and r: "r |\<in>| rl_references l"
  shows "ls_inv (F + {#a#}) (deleteReference a r s)"
proof -
  have "fcard (rl_references l |-| {|r|}) + 1 = fcard (rl_references l)"
    using r by (metis Suc_eq_plus1 fcard_Suc_fminus1)
  then show ?thesis
    unfolding deleteReference_def using ls_shapeD(3) [OF ls_invD(1) [OF inv] a(2)]
    by (intro ls_inv_upd [OF inv a upd_layer_heap [OF a(2)]]) auto
qed

text \<open>What is outside the graph does not matter.\<close>

lemma ls_inv_cong:
  assumes "ls_heap t = ls_heap s" "ls_layerMap t = ls_layerMap s" "ls_mounts t = ls_mounts s" "ls_fresh t = ls_fresh s"
  shows "ls_inv F t \<longleftrightarrow> ls_inv F s"
proof -
  have "live t = live s" "has_parent t = has_parent s" "mounted t = mounted s"
    using assms by (simp_all add: fun_eq_iff live_def has_parent_def mounted_def)
  then show ?thesis unfolding ls_inv_def ls_shape_def children_def by (simp only: assms)
qed

lemma ls_inv_outside [simp]: "ls_inv F (s\<lparr>ls_driver := d\<rparr>) = ls_inv F s" "ls_inv F (s\<lparr>ls_store := m\<rparr>) = ls_inv F s"
  by (rule ls_inv_cong; simp)+

section \<open>Releasing a layer\<close>

text \<open>The retention a call holds on the layer it works on, if any.\<close>

primrec tok :: "nat option \<Rightarrow> nat multiset" where
  "tok None = {#}"
| "tok (Some p) = {#p#}"

text \<open>Removing a layer that nothing holds: the link to its parent becomes a retention of the parent.\<close>

lemma live_drop:
  assumes a: "fmlookup (ls_heap s) a = Some l" "live s a"
    and t: "ls_heap t = ls_heap s" "ls_layerMap t = fmdrop (rl_chainID l) (ls_layerMap s)"
  shows "live t b \<longleftrightarrow> live s b \<and> b \<noteq> a"
proof -
  have m: "fmlookup (ls_layerMap s) (rl_chainID l) = Some a" using a by (simp add: live_def)
  show ?thesis
  proof (cases "fmlookup (ls_heap s) b")
    case (Some k)
    show ?thesis using Some m a(1) by (cases "rl_chainID k = rl_chainID l") (auto simp: live_def t)
  qed (simp add: live_def t(1))
qed

lemma ls_inv_drop:
  assumes inv: "ls_inv F s" and a: "live s a" "fmlookup (ls_heap s) a = Some l" "rl_referenceCount l = 0"
    and t: "ls_heap t = ls_heap s" "ls_layerMap t = fmdrop (rl_chainID l) (ls_layerMap s)" "ls_mounts t = ls_mounts s"
      "ls_fresh t = ls_fresh s"
  shows "ls_inv (F + tok (rl_parent l)) t"
proof -
  note sh = ls_invD(1) [OF inv]
  have z: "fcard (rl_references l) = 0" "fcard (children s a) = 0" "fcard (mounted s a) = 0" "count F a = 0"
    using ls_invD(3) [OF inv a(1,2)] a(3) by simp_all
  then have no: "rl_references l = {||}" "children s a = {||}" "mounted s a = {||}" by (simp_all add: fcard_0_eq)
  have live: "live t b \<longleftrightarrow> live s b \<and> b \<noteq> a" for b using live_drop [OF a(2,1) t(1,2)] .
  have hp: "has_parent t p b = has_parent s p b" for p b using t(1) by (simp add: has_parent_def)
  have par: "p \<noteq> a" if "live s b" "fmlookup (ls_heap s) b = Some k" "rl_parent k = Some p" for b k p
    using that no(2) children_iff [OF sh, of b a] by (auto simp: has_parent_def)
  have sht: "ls_shape t"
    unfolding ls_shape_def
  proof (intro conjI allI impI, goal_cases)
    case (1 c b)
    then have "fmlookup (ls_layerMap s) c = Some b" using t(2) by (simp split: if_splits)
    from ls_shapeD(1) [OF sh this] show ?case using t(1) by simp
  next
    case (2 b k)
    then show ?case using ls_shapeD(2) [OF sh, of b k] t(1,4) by simp
  next
    case (3 b k r)
    then show ?case using ls_shapeD(3) [OF sh, of b k r] t(1,4) by simp
  next
    case (4 b k r)
    then show ?case using ls_shapeD(7) [OF sh, of b k r] t(1) a(2) no(1) live [of b] by (cases "b = a") auto
  next
    case (5 b k p)
    then show ?case using ls_shapeD(4) [OF sh, of b k p] t(1) live [of b] by simp
  next
    case (6 b k p)
    then show ?case using ls_shapeD(4) [OF sh, of b k p] par [of b k p] t(1) live [of b] live [of p] by simp
  next
    case (7 n m)
    then show ?case using ls_shapeD(5) [OF sh, of n m] t(3) by simp
  next
    case (8 n m p)
    then have "p \<noteq> a" using no(3) mounted_iff [of n s a] t(3) by auto
    with 8 show ?case using ls_shapeD(6) [OF sh, of n m p] live [of p] t(3) by simp
  qed
  have ch: "children t b = children s b |-| {|a|}" for b
    by (rule fset_eqI) (auto simp: children_iff [OF sht] children_iff [OF sh] live hp)
  have ch_card: "fcard (children t b) + (if rl_parent l = Some b then 1 else 0) = fcard (children s b)" for b
  proof (cases "rl_parent l = Some b")
    case True
    then have "a |\<in>| children s b" using a by (simp add: children_iff [OF sh] has_parent_def)
    from fcard_Suc_fminus1 [OF this] show ?thesis using True by (simp add: ch)
  next
    case False
    then have "a |\<notin>| children s b" using a by (simp add: children_iff [OF sh] has_parent_def)
    then show ?thesis using False by (simp add: ch)
  qed
  show ?thesis
    unfolding ls_inv_def
  proof (intro conjI sht ballI allI impI)
    fix p assume "p \<in># F + tok (rl_parent l)"
    then consider "p \<in># F" | "rl_parent l = Some p" by (cases "rl_parent l") auto
    then show "live t p"
    proof cases
      case 1
      then have "p \<noteq> a" using z(4) by (metis count_eq_zero_iff)
      then show ?thesis using 1 ls_invD(2) [OF inv] live by simp
    next
      case 2
      then show ?thesis using ls_shapeD(4) [OF sh a(1,2)] par [OF a(1,2)] live by simp
    qed
  next
    fix b k assume b: "live t b \<and> fmlookup (ls_heap t) b = Some k"
    then have "rl_referenceCount k = fcard (rl_references k) + fcard (children s b) + fcard (mounted s b) + count F b"
      using ls_invD(3) [OF inv, of b k] live t(1) by simp
    moreover have "count (F + tok (rl_parent l)) b =
        count F b + (if rl_parent l = Some b then 1 else 0)"
      by (cases "rl_parent l") simp_all
    ultimately show "rl_referenceCount k = fcard (rl_references k) + fcard (children t b) + fcard (mounted t b) +
        count (F + tok (rl_parent l)) b"
      using ch_card [of b] mounted_cong [OF t(3), of b] by simp
  qed
qed

text \<open>A release only changes counts, the map and what is outside the graph.\<close>

definition keeps :: "layerStore \<Rightarrow> layerStore \<Rightarrow> bool" where
  "keeps s t \<longleftrightarrow> ls_mounts t = ls_mounts s \<and> ls_fresh t = ls_fresh s \<and>
     (\<forall>a. map_option (\<lambda>l. l\<lparr>rl_referenceCount := 0\<rparr>) (fmlookup (ls_heap t) a) =
          map_option (\<lambda>l. l\<lparr>rl_referenceCount := 0\<rparr>) (fmlookup (ls_heap s) a))"

lemma keeps_refl [simp]: "keeps s s" by (simp add: keeps_def)

lemma keeps_trans: "keeps s t \<Longrightarrow> keeps t u \<Longrightarrow> keeps s u" by (simp add: keeps_def)

lemma keeps_count: "keeps s (upd_layer a (\<lambda>l. l\<lparr>rl_referenceCount := f l\<rparr>) s)"
  by (auto simp: keeps_def upd_layer_lookup option.map_comp comp_def)

text \<open>
  One turn of the loop of \<open>releaseLayer\<close>: the count falls; if it was the last, the layer is removed, which
  may fail, and the loop goes on with the parent.
\<close>

definition decrement :: "nat \<Rightarrow> layerStore \<Rightarrow> layerStore" where
  "decrement a s = upd_layer a (\<lambda>l. l\<lparr>rl_referenceCount := rl_referenceCount l - 1\<rparr>) s"

lemma decrement_inv:
  assumes inv: "ls_inv (F + {#a#}) s" and l: "fmlookup (ls_heap s) a = Some l"
  shows "0 < rl_referenceCount l" "ls_inv F (decrement a s)" "keeps s (decrement a s)" "live (decrement a s) a"
    "fmlookup (ls_heap (decrement a s)) a = Some (l\<lparr>rl_referenceCount := rl_referenceCount l - 1\<rparr>)"
proof -
  have live: "live s a" using ls_invD(2) [OF inv] by simp
  show pos: "0 < rl_referenceCount l" using ls_invD(3) [OF inv live l] by simp
  show "ls_inv F (decrement a s)"
    unfolding decrement_def using ls_shapeD(3) [OF ls_invD(1) [OF inv] l] pos
    by (intro ls_inv_upd [OF inv live l upd_layer_heap [OF l]]) simp_all
  show "keeps s (decrement a s)" unfolding decrement_def by (rule keeps_count)
  have "same_graph s (decrement a s)" unfolding decrement_def by (rule same_graph_upd) simp
  from same_graph_live(1) [OF this] show "live (decrement a s) a" using live by simp
  show "fmlookup (ls_heap (decrement a s)) a = Some (l\<lparr>rl_referenceCount := rl_referenceCount l - 1\<rparr>)"
    using l by (simp add: decrement_def upd_layer_lookup)
qed

lemma releaseLayer_cases [consumes 2, case_names kept failed dropped]:
  assumes inv: "ls_inv (F + {#a#}) s" and fst: "depth = 0 \<or> removed \<noteq> []"
  obtains l where "fmlookup (ls_heap s) a = Some l" "1 < rl_referenceCount l"
      "releaseLayer env depth removed a s = (Released removed, decrement a s)"
  | l e d where "fmlookup (ls_heap s) a = Some l" "rl_referenceCount l = 1" "env depth \<noteq> (True, True)"
      "releaseLayer env depth removed a s = (ReleaseError e, (decrement a s)\<lparr>ls_driver := d\<rparr>)"
  | l md d u t where "fmlookup (ls_heap s) a = Some l" "rl_referenceCount l = 1" "env depth = (True, True)" "md_ChainID md = rl_chainID l"
      "u = (decrement a s)\<lparr>ls_driver := d\<rparr>"
      "t = u\<lparr>ls_store := fms_Remove (rl_chainID l) (ls_store u), ls_layerMap := fmdrop (rl_chainID l) (ls_layerMap u)\<rparr>"
      "ls_inv (F + tok (rl_parent l)) t" "\<And>p. rl_parent l = Some p \<Longrightarrow> p < a"
      "releaseLayer env depth removed a s = (case rl_parent l of None \<Rightarrow> (Released (removed @ [md]), t)
         | Some p \<Rightarrow> releaseLayer env (Suc depth) (removed @ [md]) p t)"
proof -
  have live: "live s a" using ls_invD(2) [OF inv] by simp
  then obtain l where l: "fmlookup (ls_heap s) a = Some l" by (auto simp: live_def)
  note dec = decrement_inv [OF inv l]
  let ?s1 = "decrement a s"
  show thesis
  proof (cases "rl_referenceCount l = 1")
    case False
    then have "1 < rl_referenceCount l" using dec(1) by simp
    then show thesis using that(1) l by (simp add: releaseLayer.simps [of env depth removed a s] Let_def decrement_def)
  next
    case one: True
    have "fcard (rl_references l) = 0" using ls_invD(3) [OF dec(2,4,5)] one by simp
    then have noref: "\<not> hasReferences l" by (simp add: hasReferences_def fcard_0_eq)
    have eq: "releaseLayer env depth removed a s = (case deleteLayer (env depth) a l ?s1 of
        (Inl err, s2) \<Rightarrow> (ReleaseError err, s2)
      | (Inr md, s2) \<Rightarrow> (case rl_parent l of
            None \<Rightarrow> (Released (removed @ [md]), s2\<lparr>ls_layerMap := fmdrop (rl_chainID l) (ls_layerMap s2)\<rparr>)
          | Some p \<Rightarrow> if p < a then releaseLayer env (Suc depth) (removed @ [md]) p (s2\<lparr>ls_layerMap := fmdrop (rl_chainID l) (ls_layerMap s2)\<rparr>)
              else (Released (removed @ [md]), s2\<lparr>ls_layerMap := fmdrop (rl_chainID l) (ls_layerMap s2)\<rparr>)))"
      using fst l one noref unfolding releaseLayer.simps [of env depth removed a s] Let_def decrement_def by auto
    show thesis
    proof (cases "env depth = (True, True)")
      case False
      have "\<exists>d. ?s1 = ?s1\<lparr>ls_driver := d\<rparr>" by (rule exI [of _ "ls_driver ?s1"]) simp
      then have "\<exists>e d. releaseLayer env depth removed a s = (ReleaseError e, ?s1\<lparr>ls_driver := d\<rparr>)"
        using False eq by (cases "env depth") (auto simp: deleteLayer_def Let_def split: if_splits)
      then show thesis using that(2) l one False by blast
    next
      case True
      let ?u = "?s1\<lparr>ls_driver := ls_driver ?s1 |-| {|rl_cacheID l|}\<rparr>"
      let ?t = "?u\<lparr>ls_store := fms_Remove (rl_chainID l) (ls_store ?u), ls_layerMap := fmdrop (rl_chainID l) (ls_layerMap ?u)\<rparr>"
      obtain md where d: "deleteLayer (env depth) a l ?s1 = (Inr md, ?u\<lparr>ls_store := fms_Remove (rl_chainID l) (ls_store ?u)\<rparr>)"
        and md: "md_ChainID md = rl_chainID l" using True by (simp add: deleteLayer_def Let_def)
      have invu: "ls_inv F ?u" "live ?u a" using dec(2,4) by (simp_all add: live_def)
      have p: "p < a" if "rl_parent l = Some p" for p using ls_shapeD(4) [OF ls_invD(1) [OF inv] live l that] by simp
      show thesis
      proof (rule that(3) [OF l one True md refl refl])
        show "ls_inv (F + tok (rl_parent l)) ?t"
          using ls_inv_drop [OF invu, of "l\<lparr>rl_referenceCount := rl_referenceCount l - 1\<rparr>" ?t] dec(5) one by simp
        show "releaseLayer env depth removed a s = (case rl_parent l of None \<Rightarrow> (Released (removed @ [md]), ?t)
            | Some p \<Rightarrow> releaseLayer env (Suc depth) (removed @ [md]) p ?t)"
          using eq d p by (cases "rl_parent l") simp_all
      qed (rule p)
    qed
  qed
qed

text \<open>
  The rule for a release. Besides the counts it keeps every property \<open>Q\<close> that does not depend on counts
  or on the driver, and that removing a layer nothing holds keeps.
\<close>

lemma releaseLayer_rule:
  assumes "ls_inv (F + {#a#}) s" and "depth = 0 \<or> removed \<noteq> []" and "releaseLayer env depth removed a s = (r, t)" and "Q s"
    and count: "\<And>s a n. Q s \<Longrightarrow> Q (upd_layer a (\<lambda>l. l\<lparr>rl_referenceCount := n l\<rparr>) s)"
    and driver: "\<And>s d. Q s \<Longrightarrow> Q (s\<lparr>ls_driver := d\<rparr>)"
    and drop: "\<And>F s a l. Q s \<Longrightarrow> ls_inv F s \<Longrightarrow> live s a \<Longrightarrow> fmlookup (ls_heap s) a = Some l \<Longrightarrow> rl_referenceCount l = 0 \<Longrightarrow>
      Q (s\<lparr>ls_store := fms_Remove (rl_chainID l) (ls_store s), ls_layerMap := fmdrop (rl_chainID l) (ls_layerMap s)\<rparr>)"
  shows "ls_inv F t \<and> (\<forall>m. r \<noteq> ReleasePanic m) \<and> keeps s t \<and> Q t"
  using assms(1-4)
proof (induction a arbitrary: F s depth removed rule: less_induct)
  case (less a)
  have q1: "Q (decrement a s)" unfolding decrement_def by (rule count [OF less(5)])
  from less(2,3) show ?case
  proof (cases rule: releaseLayer_cases [where env = env])
    case (kept l)
    then show ?thesis using less(4) decrement_inv(2,3) [OF less(2) kept(1)] q1 by auto
  next
    case (failed l e d)
    then show ?thesis using less(4) decrement_inv(2,3) [OF less(2) failed(1)] driver [OF q1] by (auto simp: keeps_def)
  next
    case (dropped l md d u v)
    note dec = decrement_inv [OF less(2) dropped(1)]
    have u: "ls_inv F u" "live u a" using dec(2,4) by (simp_all add: dropped(5) live_def)
    have qv: "Q v"
      using drop [OF driver [OF q1], of F d a "l\<lparr>rl_referenceCount := rl_referenceCount l - 1\<rparr>"] u dec(5) dropped(2)
      by (simp add: dropped(5,6))
    have kv: "keeps s v" using dec(3) by (simp add: keeps_def dropped(5,6))
    show ?thesis
    proof (cases "rl_parent l")
      case None
      then show ?thesis using dropped(7,9) less(4) qv kv by auto
    next
      case (Some p)
      have "ls_inv F t \<and> (\<forall>m. r \<noteq> ReleasePanic m) \<and> keeps v t \<and> Q t"
        using less(1) [OF dropped(8) [OF Some], of F v "Suc depth" "removed @ [md]"] dropped(7,9) less(4) Some qv by simp
      then show ?thesis using kv by (blast intro: keeps_trans)
    qed
  qed
qed

lemma releaseLayer_inv:
  assumes "ls_inv (F + {#a#}) s" and "depth = 0 \<or> removed \<noteq> []" and "releaseLayer env depth removed a s = (r, t)"
  shows "ls_inv F t \<and> (\<forall>m. r \<noteq> ReleasePanic m) \<and> keeps s t"
  using releaseLayer_rule [OF assms, of "\<lambda>_. True"] by simp

section \<open>The references held by callers\<close>

text \<open>
  To its callers the store is the set of the references they hold: \<open>Get\<close> and \<open>Register\<close> add a fresh one,
  \<open>Release\<close> takes one away, and nothing else changes it.
\<close>

definition held :: "layerStore \<Rightarrow> layer_handle \<Rightarrow> bool" where
  "held s h \<longleftrightarrow> (\<exists>a l. fmlookup (ls_heap s) a = Some l \<and> rl_chainID l = lh_ChainID h \<and> lh_ref h |\<in>| rl_references l)"

lemma heldI: "fmlookup (ls_heap s) a = Some l \<Longrightarrow> rl_chainID l = lh_ChainID h \<Longrightarrow> lh_ref h |\<in>| rl_references l \<Longrightarrow> held s h"
  by (auto simp: held_def)

lemma held_heap_cong: "ls_heap t = ls_heap s \<Longrightarrow> held t = held s"
  by (simp add: held_def fun_eq_iff)

lemma held_by_map:
  assumes "\<And>a. map_option (\<lambda>l. (rl_chainID l, rl_references l)) (fmlookup (ls_heap t) a) =
      map_option (\<lambda>l. (rl_chainID l, rl_references l)) (fmlookup (ls_heap s) a)"
  shows "held t = held s"
proof -
  have imp: "held u h \<Longrightarrow> held v h"
    if eq: "\<And>a. map_option (\<lambda>l. (rl_chainID l, rl_references l)) (fmlookup (ls_heap u) a) =
      map_option (\<lambda>l. (rl_chainID l, rl_references l)) (fmlookup (ls_heap v) a)" for u v h
  proof -
    assume "held u h"
    then obtain a l where l: "fmlookup (ls_heap u) a = Some l" "rl_chainID l = lh_ChainID h" "lh_ref h |\<in>| rl_references l"
      by (auto simp: held_def)
    with eq [of a] show "held v h" by (cases "fmlookup (ls_heap v) a") (auto simp: held_def)
  qed
  show ?thesis
    using imp [of t s, OF assms] imp [of s t, OF assms [symmetric]] by blast
qed

lemma held_keeps:
  assumes "keeps s t"
  shows "held t = held s"
proof (rule held_by_map)
  fix a
  have "map_option (\<lambda>l. (rl_chainID l, rl_references l)) (map_option (\<lambda>l. l\<lparr>rl_referenceCount := 0\<rparr>) (fmlookup (ls_heap t) a)) =
      map_option (\<lambda>l. (rl_chainID l, rl_references l)) (map_option (\<lambda>l. l\<lparr>rl_referenceCount := 0\<rparr>) (fmlookup (ls_heap s) a))"
    using assms by (simp add: keeps_def)
  then show "map_option (\<lambda>l. (rl_chainID l, rl_references l)) (fmlookup (ls_heap t) a) =
      map_option (\<lambda>l. (rl_chainID l, rl_references l)) (fmlookup (ls_heap s) a)"
    by (simp add: option.map_comp comp_def)
qed

lemma held_live:
  assumes "ls_inv F s" and "held s h"
  obtains a l where "fmlookup (ls_layerMap s) (lh_ChainID h) = Some a" "fmlookup (ls_heap s) a = Some l" "live s a"
    "rl_chainID l = lh_ChainID h" "lh_ref h |\<in>| rl_references l"
proof -
  obtain a l where l: "fmlookup (ls_heap s) a = Some l" "rl_chainID l = lh_ChainID h" "lh_ref h |\<in>| rl_references l"
    using assms(2) by (auto simp: held_def)
  have "live s a" using ls_shapeD(7) [OF ls_invD(1) [OF assms(1)] l(1,3)] .
  then show thesis using that l by (auto simp: live_def)
qed

lemma held_bound:
  assumes "ls_inv F s" and "held s h"
  shows "lh_ref h < ls_fresh s"
  using assms(2) ls_shapeD(3) [OF ls_invD(1) [OF assms(1)]] by (auto simp: held_def)

lemma getReference_held:
  assumes "getReference a s = (Some h, t)"
  shows "held t h' \<longleftrightarrow> held s h' \<or> h' = h"
proof -
  obtain l where l: "fmlookup (ls_heap s) a = Some l"
    using assms by (auto simp: getReference_def split: option.splits)
  let ?f = "\<lambda>l. l\<lparr>rl_references := finsert (ls_fresh s) (rl_references l)\<rparr>"
  have h: "h = \<lparr>lh_ChainID = rl_chainID l, lh_ref = ls_fresh s\<rparr>" and t: "t = upd_layer a ?f (s\<lparr>ls_fresh := Suc (ls_fresh s)\<rparr>)"
    using assms l by (simp_all add: getReference_def Let_def)
  have lk: "fmlookup (ls_heap t) b = (if b = a then Some (?f l) else fmlookup (ls_heap s) b)" for b
    using l by (simp add: t upd_layer_lookup)
  show ?thesis
  proof
    assume "held t h'"
    then obtain b k where k: "fmlookup (ls_heap t) b = Some k" "rl_chainID k = lh_ChainID h'" "lh_ref h' |\<in>| rl_references k"
      by (auto simp: held_def)
    show "held s h' \<or> h' = h"
      using k lk [of b] l h by (cases "b = a") (auto simp: held_def)
  next
    assume "held s h' \<or> h' = h"
    then show "held t h'"
    proof
      assume "held s h'"
      then obtain b k where k: "fmlookup (ls_heap s) b = Some k" "rl_chainID k = lh_ChainID h'" "lh_ref h' |\<in>| rl_references k"
        by (auto simp: held_def)
      then show ?thesis using lk [of b] l by (cases "b = a") (auto intro: heldI)
    next
      assume "h' = h"
      then show ?thesis using lk [of a] h by (auto intro: heldI)
    qed
  qed
qed

lemma deleteReference_held:
  assumes inv: "ls_inv F s" and a: "live s a" "fmlookup (ls_heap s) a = Some l"
  shows "held (deleteReference a r s) h \<longleftrightarrow> held s h \<and> h \<noteq> \<lparr>lh_ChainID = rl_chainID l, lh_ref = r\<rparr>"
proof -
  let ?f = "\<lambda>l. l\<lparr>rl_references := rl_references l |-| {|r|}\<rparr>"
  have lk: "fmlookup (ls_heap (deleteReference a r s)) b = (if b = a then Some (?f l) else fmlookup (ls_heap s) b)" for b
    using a(2) by (simp add: deleteReference_def upd_layer_lookup)
  show ?thesis
  proof
    assume "held (deleteReference a r s) h"
    then obtain b k where k: "fmlookup (ls_heap (deleteReference a r s)) b = Some k" "rl_chainID k = lh_ChainID h" "lh_ref h |\<in>| rl_references k"
      by (auto simp: held_def)
    show "held s h \<and> h \<noteq> \<lparr>lh_ChainID = rl_chainID l, lh_ref = r\<rparr>"
    proof (cases "b = a")
      case True
      then have "lh_ref h \<noteq> r" "held s h" using k lk [of b] a(2) by (auto intro: heldI)
      then show ?thesis by (cases h) simp
    next
      case False
      then have kb: "fmlookup (ls_heap s) b = Some k" using k(1) lk [of b] by simp
      have "live s b" using ls_shapeD(7) [OF ls_invD(1) [OF inv] kb k(3)] .
      then have "rl_chainID k \<noteq> rl_chainID l" using kb a False by (auto simp: live_def)
      then show ?thesis using kb k by (auto simp: held_def)
    qed
  next
    assume "held s h \<and> h \<noteq> \<lparr>lh_ChainID = rl_chainID l, lh_ref = r\<rparr>"
    then obtain b k where k: "fmlookup (ls_heap s) b = Some k" "rl_chainID k = lh_ChainID h" "lh_ref h |\<in>| rl_references k"
      and ne: "h \<noteq> \<lparr>lh_ChainID = rl_chainID l, lh_ref = r\<rparr>"
      by (auto simp: held_def)
    show "held (deleteReference a r s) h"
    proof (cases "b = a")
      case True
      then have "lh_ref h \<noteq> r" using k a(2) ne by (cases h) auto
      then show ?thesis using k lk [of b] a(2) True by (auto intro: heldI)
    next
      case False
      then show ?thesis using k lk [of b] by (auto simp: held_def)
    qed
  qed
qed

section \<open>The critical sections\<close>

lemma getWithoutLock_held: "getWithoutLock c s = (r, t) \<Longrightarrow> held t = held s"
  by (auto simp: getWithoutLock_def keeps_count held_keeps split: option.splits)

lemma getReference_spec:
  assumes inv: "ls_inv (F + {#a#}) s" and l: "fmlookup (ls_heap s) a = Some l"
  obtains h t where "getReference a s = (Some h, t)" "ls_inv F t" "lh_ChainID h = rl_chainID l"
    "\<not> held s h" "held t = (held s)(h := True)"
proof -
  obtain h t l' where g: "getReference a s = (Some h, t)" "ls_inv F t" "fmlookup (ls_heap s) a = Some l'" "lh_ChainID h = rl_chainID l'"
    using getReference_inv [OF inv] by blast
  have "lh_ref h = ls_fresh s" using g(1) l by (auto simp: getReference_def Let_def)
  then have "\<not> held s h" using held_bound [OF inv, of h] by auto
  moreover have "held t = (held s)(h := True)" using getReference_held [OF g(1)] by (auto simp: fun_eq_iff)
  ultimately show thesis using that g l by simp
qed

lemma ls_Get_spec:
  assumes inv: "ls_inv F s" and get: "ls_Get c s = (r, t)"
  shows "ls_inv F t"
    and "case r of LayerOK h \<Rightarrow> lh_ChainID h = c \<and> \<not> held s h \<and> held t = (held s)(h := True)
      | LayerErr e \<Rightarrow> e = ErrLayerDoesNotExist \<and> t = s \<and> fmlookup (ls_layerMap s) c = None
      | LayerPanic m \<Rightarrow> False"
proof -
  have "ls_inv F t \<and> (case r of LayerOK h \<Rightarrow> lh_ChainID h = c \<and> \<not> held s h \<and> held t = (held s)(h := True)
      | LayerErr e \<Rightarrow> e = ErrLayerDoesNotExist \<and> t = s \<and> fmlookup (ls_layerMap s) c = None
      | LayerPanic m \<Rightarrow> False)"
  proof (cases "fmlookup (ls_layerMap s) c")
    case None
    then have "getWithoutLock c s = (None, s)" by (simp add: getWithoutLock_def)
    with get inv None show ?thesis by (auto simp: ls_Get_def)
  next
    case (Some a)
    then obtain u where u: "getWithoutLock c s = (Some a, u)" by (simp add: getWithoutLock_def)
    note gi = getWithoutLock_inv [OF inv u]
    obtain l where l: "fmlookup (ls_heap u) a = Some l" using gi(2) by (auto simp: live_def)
    have "ls_layerMap u = ls_layerMap s" using u Some by (auto simp: getWithoutLock_def)
    then have c: "rl_chainID l = c" using ls_shapeD(1) [OF ls_invD(1) [OF gi(1)], of c a] l Some by simp
    obtain h v where "getReference a u = (Some h, v)" "ls_inv F v" "lh_ChainID h = rl_chainID l"
      "\<not> held u h" "held v = (held u)(h := True)"
      by (rule getReference_spec [OF gi(1) l])
    with get u c getWithoutLock_held [OF u] show ?thesis by (auto simp: ls_Get_def)
  qed
  then show "ls_inv F t" and "case r of LayerOK h \<Rightarrow> lh_ChainID h = c \<and> \<not> held s h \<and> held t = (held s)(h := True)
      | LayerErr e \<Rightarrow> e = ErrLayerDoesNotExist \<and> t = s \<and> fmlookup (ls_layerMap s) c = None
      | LayerPanic m \<Rightarrow> False" by simp_all
qed

lemma ls_Release_spec:
  assumes inv: "ls_inv F s" and rel: "ls_Release env h s = (r, t)"
  shows "ls_inv F t" and "\<And>m. r \<noteq> ReleasePanic m" and "held t = (held s)(h := False)"
proof -
  have "ls_inv F t \<and> (\<forall>m. r \<noteq> ReleasePanic m) \<and> held t = (held s)(h := False)"
  proof (cases "held s h")
    case False
    have "(r, t) = (Released [], s) \<or> (r, t) = (ReleaseError ErrLayerNotRetained, s)"
    proof (cases "fmlookup (ls_layerMap s) (lh_ChainID h)")
      case None
      then show ?thesis using rel by (simp add: ls_Release_def)
    next
      case (Some a)
      then obtain l where l: "fmlookup (ls_heap s) a = Some l" "rl_chainID l = lh_ChainID h"
        using ls_shapeD(1) [OF ls_invD(1) [OF inv]] by blast
      then have "lh_ref h |\<notin>| rl_references l" using False by (auto simp: held_def)
      then show ?thesis using rel Some l by (simp add: ls_Release_def hasReference_def)
    qed
    then show ?thesis using inv False by (auto simp: fun_eq_iff)
  next
    case True
    obtain a l where a: "fmlookup (ls_layerMap s) (lh_ChainID h) = Some a" "fmlookup (ls_heap s) a = Some l" "live s a"
      "rl_chainID l = lh_ChainID h" "lh_ref h |\<in>| rl_references l"
      using held_live [OF inv True] .
    let ?u = "deleteReference a (lh_ref h) s"
    have r: "releaseLayer env 0 [] a ?u = (r, t)"
      using rel a by (simp add: ls_Release_def hasReference_def)
    have "ls_inv (F + {#a#}) ?u" using deleteReference_inv [OF inv a(3,2,5)] .
    from releaseLayer_inv [OF this _ r] have post: "ls_inv F t" "\<forall>m. r \<noteq> ReleasePanic m" "keeps ?u t" by simp_all
    have "held t = held ?u" using held_keeps [OF post(3)] .
    also have "\<dots> = (held s)(h := False)"
    proof (rule ext)
      fix h'
      have "\<lparr>lh_ChainID = rl_chainID l, lh_ref = lh_ref h\<rparr> = h" using a(4) by (cases h) simp
      then show "held ?u h' = ((held s)(h := False)) h'" using deleteReference_held [OF inv a(3,2), of "lh_ref h" h'] by simp
    qed
    finally show ?thesis using post by simp
  qed
  then show "ls_inv F t" "\<And>m. r \<noteq> ReleasePanic m" "held t = (held s)(h := False)" by simp_all
qed

text \<open>Publishing a new layer: the retention of the parent becomes the layer's link, and the layer is retained.\<close>

lemma add_layer_fields:
  assumes "add_layer l s = (a, t)"
  shows "a = ls_fresh s" "ls_heap t = fmupd a l (ls_heap s)" "ls_layerMap t = fmupd (rl_chainID l) a (ls_layerMap s)"
    "ls_mounts t = ls_mounts s" "ls_fresh t = Suc a" "ls_store t = ls_store s"
  using assms by (auto simp: add_layer_def Let_def)

lemma fresh_address: "ls_shape s \<Longrightarrow> fmlookup (ls_heap s) (ls_fresh s) = None"
  using ls_shapeD(2) [of s "ls_fresh s"] by (cases "fmlookup (ls_heap s) (ls_fresh s)") auto

lemma add_layer_graph:
  assumes sh: "ls_shape s" and new: "fmlookup (ls_layerMap s) (rl_chainID l) = None"
    and parent: "\<And>p. rl_parent l = Some p \<Longrightarrow> live s p" and l: "rl_references l = {||}" and add: "add_layer l s = (a, t)"
  shows "ls_shape t" and "\<And>b. live t b \<longleftrightarrow> live s b \<or> b = a" and "\<not> live s a"
    and "\<And>p. children t p = (if rl_parent l = Some p then finsert a (children s p) else children s p)"
    and "\<And>p. a |\<notin>| children s p" and "children s a = {||}" and "mounted s a = {||}"
proof -
  note a = add_layer_fields(1) [OF add] and t = add_layer_fields(2-5) [OF add]
  have fresh: "fmlookup (ls_heap s) a = None" using fresh_address [OF sh] a by simp
  show nlive: "\<not> live s a" using fresh by (simp add: live_def)
  have chain: "rl_chainID k \<noteq> rl_chainID l" if "live s b" "fmlookup (ls_heap s) b = Some k" for b k
    using that new by (auto simp: live_def)
  show live: "live t b \<longleftrightarrow> live s b \<or> b = a" for b
  proof (cases "b = a")
    case False
    then show ?thesis using chain [of b] new by (cases "fmlookup (ls_heap s) b") (auto simp: live_def t)
  qed (simp add: live_def t)
  show sht: "ls_shape t"
    unfolding ls_shape_def
  proof (intro conjI allI impI, goal_cases)
    case (1 c b)
    show ?case
    proof (cases "c = rl_chainID l")
      case False
      with 1 have m: "fmlookup (ls_layerMap s) c = Some b" using t(2) by simp
      from ls_shapeD(1) [OF sh m] show ?thesis using t(1) fresh by (cases "b = a") auto
    qed (use 1 t in auto)
  next
    case (2 b k)
    then show ?case using ls_shapeD(2) [OF sh, of b k] t(1,4) a by (cases "b = a") simp_all
  next
    case (3 b k r)
    then show ?case using ls_shapeD(3) [OF sh, of b k r] t(1,4) a l by (cases "b = a") simp_all
  next
    case (4 b k r)
    then show ?case using ls_shapeD(7) [OF sh, of b k r] t(1) live [of b] by (cases "b = a") simp_all
  next
    case (5 b k p)
    then show ?case using ls_shapeD(4) [OF sh, of b k p] t(1) live [of b] parent [of p] a ls_shapeD(2) [OF sh, of p]
      by (cases "b = a") (auto simp: live_def)
  next
    case (6 b k p)
    then show ?case using ls_shapeD(4) [OF sh, of b k p] t(1) live [of b] live [of p] parent [of p] by (cases "b = a") auto
  next
    case (7 n m)
    then show ?case using ls_shapeD(5) [OF sh, of n m] t(3) by simp
  next
    case (8 n m p)
    then show ?case using ls_shapeD(6) [OF sh, of n m p] live [of p] t(3) by simp
  qed
  have hp: "has_parent t p b = (if b = a then rl_parent l = Some p else has_parent s p b)" for p b
    using t(1) by (simp add: has_parent_def)
  show "children t p = (if rl_parent l = Some p then finsert a (children s p) else children s p)" for p
    by (rule fset_eqI) (auto simp: children_iff [OF sht] children_iff [OF sh] live hp nlive)
  show "a |\<notin>| children s p" for p using nlive by (simp add: children_iff [OF sh])
  show "children s a = {||}"
    using ls_shapeD(4) [OF sh, of _ _ a] nlive by (auto simp: children_iff [OF sh] has_parent_def fset_eq_iff split: option.splits)
  show "mounted s a = {||}" using ls_shapeD(6) [OF sh, of _ _ a] nlive by (auto simp: mounted_iff fset_eq_iff)
qed

lemma add_layer_held:
  assumes sh: "ls_shape s" and l: "rl_references l = {||}" and add: "add_layer l s = (a, t)"
  shows "held t = held s"
proof (rule ext)
  fix h
  note t = add_layer_fields(1,2) [OF add]
  have fresh: "fmlookup (ls_heap s) a = None" using fresh_address [OF sh] t(1) by simp
  show "held t h = held s h"
  proof
    assume "held t h"
    then obtain b k where k: "fmlookup (ls_heap t) b = Some k" "rl_chainID k = lh_ChainID h" "lh_ref h |\<in>| rl_references k"
      by (auto simp: held_def)
    then have "b \<noteq> a" using t(2) l by auto
    then show "held s h" using k t(2) by (auto intro: heldI)
  next
    assume "held s h"
    then obtain b k where k: "fmlookup (ls_heap s) b = Some k" "rl_chainID k = lh_ChainID h" "lh_ref h |\<in>| rl_references k"
      by (auto simp: held_def)
    then have "b \<noteq> a" using fresh by auto
    then have "fmlookup (ls_heap t) b = Some k" using k t(2) by simp
    then show "held t h" using k by (auto intro: heldI)
  qed
qed

lemma add_layer_inv:
  assumes inv: "ls_inv (F + tok (rl_parent l)) s" and new: "fmlookup (ls_layerMap s) (rl_chainID l) = None"
    and l: "rl_referenceCount l = 1" "rl_references l = {||}" and add: "add_layer l s = (a, t)"
  shows "ls_inv (F + {#a#}) t"
proof -
  note sh = ls_invD(1) [OF inv] and t = add_layer_fields(2-5) [OF add]
  have parent: "live s p" if "rl_parent l = Some p" for p using ls_invD(2) [OF inv, of p] that by simp
  have sht: "ls_shape t" and live: "live t b \<longleftrightarrow> live s b \<or> b = a" and nlive: "\<not> live s a"
    and ch: "children t p = (if rl_parent l = Some p then finsert a (children s p) else children s p)"
    and ach: "a |\<notin>| children s p" and none: "children s a = {||}" "mounted s a = {||}" for b p
    by (rule add_layer_graph [OF sh new parent l(2) add]; assumption)+
  have aF: "count F a = 0" using ls_invD(2) [OF inv, of a] nlive by (auto simp: count_eq_zero_iff)
  have np: "rl_parent l \<noteq> Some a" using parent [of a] nlive by auto
  show ?thesis
    unfolding ls_inv_def
  proof (intro conjI sht ballI allI impI)
    fix p assume "p \<in># F + {#a#}"
    then show "live t p" using ls_invD(2) [OF inv, of p] live [of p] by auto
  next
    fix b k assume b: "live t b \<and> fmlookup (ls_heap t) b = Some k"
    show "rl_referenceCount k = fcard (rl_references k) + fcard (children t b) + fcard (mounted t b) + count (F + {#a#}) b"
    proof (cases "b = a")
      case True
      then show ?thesis using b t(1) l none np aF by (simp add: ch mounted_cong [OF t(3)])
    next
      case False
      then have "rl_referenceCount k = fcard (rl_references k) + fcard (children s b) + fcard (mounted s b) + count (F + tok (rl_parent l)) b"
        using b t(1) live ls_invD(3) [OF inv, of b k] by simp
      then show ?thesis using False ach [of b]
        by (cases "rl_parent l") (auto simp: ch mounted_cong [OF t(3)] fcard_finsert_disjoint)
    qed
  qed
qed

lemma register_begin_spec:
  assumes inv: "ls_inv F s" and reg: "register_begin parent s = (r, t)"
  shows "case r of Inl e \<Rightarrow> t = s | Inr p \<Rightarrow> ls_inv (F + tok p) t" and "held t = held s"
proof -
  have "(case r of Inl e \<Rightarrow> t = s | Inr p \<Rightarrow> ls_inv (F + tok p) t) \<and> held t = held s"
  proof (cases "parent = ''''")
    case True
    then show ?thesis using inv reg by (auto simp: register_begin_def)
  next
    case False
    obtain o1 u where u: "getWithoutLock parent s = (o1, u)" by (cases "getWithoutLock parent s")
    show ?thesis
    proof (cases o1)
      case None
      then show ?thesis using False reg u by (auto simp: register_begin_def getWithoutLock_def split: option.splits)
    next
      case (Some a)
      then show ?thesis using False reg u getWithoutLock_inv(1) [OF inv] getWithoutLock_held [OF u]
        by (auto simp: register_begin_def)
    qed
  qed
  then show "case r of Inl e \<Rightarrow> t = s | Inr p \<Rightarrow> ls_inv (F + tok p) t" and "held t = held s" by simp_all
qed

text \<open>What a call that returns a reference, an error or a panic did to the references held.\<close>

definition handed_out :: "layerStore \<Rightarrow> layer_handle layer_result \<Rightarrow> layerStore \<Rightarrow> bool" where
  "handed_out s r t \<longleftrightarrow>
     (case r of LayerOK h \<Rightarrow> \<not> held s h \<and> held t = (held s)(h := True)
      | LayerErr e \<Rightarrow> held t = held s
      | LayerPanic m \<Rightarrow> False)"

lemma handed_out_simps [simp]:
  "handed_out s (LayerOK h) t \<longleftrightarrow> \<not> held s h \<and> held t = (held s)(h := True)"
  "handed_out s (LayerErr e) t \<longleftrightarrow> held t = held s"
  "\<not> handed_out s (LayerPanic m) t"
  by (simp_all add: handed_out_def)

lemma handle_result_spec:
  assumes inv: "ls_inv (F + {#a#}) s" and g: "handle_result (getReference a s) = (r, t)"
  shows "ls_inv F t" and "handed_out s r t"
proof -
  obtain l where l: "fmlookup (ls_heap s) a = Some l" using ls_invD(2) [OF inv, of a] by (auto simp: live_def)
  obtain h u where "getReference a s = (Some h, u)" "ls_inv F u" "\<not> held s h" "held u = (held s)(h := True)"
    by (rule getReference_spec [OF inv l])
  then show "ls_inv F t" "handed_out s r t" using g by (auto simp: handle_result_def)
qed

lemma register_cleanup_frame [simp]:
  "ls_heap (register_cleanup env s) = ls_heap s" "ls_layerMap (register_cleanup env s) = ls_layerMap s"
  "ls_mounts (register_cleanup env s) = ls_mounts s" "ls_fresh (register_cleanup env s) = ls_fresh s"
  by (simp_all add: register_cleanup_def)

lemma register_cleanup_inv [simp]: "ls_inv F (register_cleanup env s) = ls_inv F s" "held (register_cleanup env s) = held s"
  by (rule ls_inv_cong held_heap_cong; simp)+

lemma held_outside [simp]: "held (s\<lparr>ls_driver := d\<rparr>) = held s" "held (s\<lparr>ls_store := m\<rparr>) = held s"
  by (rule held_heap_cong; simp)+

lemma new_layer_simps [simp]:
  "rl_parent (new_layer H env d p sz diff s) = p" "rl_referenceCount (new_layer H env d p sz diff s) = 1"
  "rl_references (new_layer H env d p sz diff s) = {||}"
  by (simp_all add: new_layer_def)

text \<open>
  What the store relies on: the random identifier is 64 hexadecimal digits, the digester's digests are
  canonical, and the driver's sizes are 64-bit.
\<close>

definition tar_ok :: "register_env \<Rightarrow> bool" where
  "tar_ok env \<longleftrightarrow> v1_ValidateID (re_cacheID env) \<and>
     (case re_applyTar env of None \<Rightarrow> True
      | Some (sz, diffID, tarsplit) \<Rightarrow> canonical diffID \<and> - (2 ^ 63) \<le> sz \<and> sz < 2 ^ 63)"

lemma new_layer_digest:
  assumes "\<And>x. canonical (H x)" "canonical diff"
  shows "canonical (rl_chainID (new_layer H env d p sz diff s))"
  using assms by (simp add: new_layer_def split: option.splits)

lemma tx_Commit_no_panic: "getLayerDirectory c \<noteq> None \<Longrightarrow> tx_Commit c tx m \<noteq> (Some MetaPanic, m')"
  by (auto simp: tx_Commit_def split: option.splits if_splits)

lemma register_publish_cases [consumes 1, case_names error existing panic fresh]:
  assumes pub: "register_publish H env descriptor p s = ((failed, r), t)"
  obtains e d where "failed" "r = LayerErr e" "t = s\<lparr>ls_driver := d\<rparr>"
  | sz diff ts a u v where "re_applyTar env = Some (sz, diff, ts)"
      "getWithoutLock (rl_chainID (new_layer H env descriptor p sz diff s)) (s\<lparr>ls_driver := finsert (re_cacheID env) (ls_driver s)\<rparr>) = (Some a, u)"
      "handle_result (getReference a u) = (r, v)" "failed" "t = register_cleanup env v"
  | sz diff ts tx m m' where "re_applyTar env = Some (sz, diff, ts)"
      "tx_Commit (rl_chainID (new_layer H env descriptor p sz diff s)) tx m = (Some MetaPanic, m')"
  | sz diff ts meta a v where "re_applyTar env = Some (sz, diff, ts)"
      "fmlookup (ls_layerMap s) (rl_chainID (new_layer H env descriptor p sz diff s)) = None"
      "tx_Commit (rl_chainID (new_layer H env descriptor p sz diff s))
         (storeLayer (chain_of p s) (new_layer H env descriptor p sz diff s) (tx_TarSplit ts StartTransaction)) (ls_store s) = (None, meta)"
      "add_layer (new_layer H env descriptor p sz diff s)
         (s\<lparr>ls_driver := finsert (re_cacheID env) (ls_driver s), ls_store := meta\<rparr>) = (a, v)"
      "handle_result (getReference a v) = (r, t)" "\<not> failed"
proof -
  let ?s1 = "s\<lparr>ls_driver := finsert (re_cacheID env) (ls_driver s)\<rparr>"
  have clean: "\<exists>d. register_cleanup env ?s1 = s\<lparr>ls_driver := d\<rparr>" by (auto simp: register_cleanup_def)
  have self: "\<exists>d. s = s\<lparr>ls_driver := d\<rparr>" by (rule exI [of _ "ls_driver s"]) simp
  show thesis
  proof (cases "re_Create env \<and> re_StartTransaction env \<and> re_storeLayer env \<and> re_applyTar env \<noteq> None \<and>
      \<not> (case p of None \<Rightarrow> False | Some a \<Rightarrow> maxLayerDepth \<le> layer_depth (ls_heap s) a)")
    case False
    then have "failed \<and> (\<exists>e. r = LayerErr e) \<and> t \<in> {s, ?s1, register_cleanup env ?s1}"
      using pub by (auto simp: register_publish_def Let_def split: if_splits option.splits)
    then show thesis using that(1) clean self by blast
  next
    case True
    then obtain sz diff ts where tr: "re_applyTar env = Some (sz, diff, ts)" by auto
    let ?l = "new_layer H env descriptor p sz diff s"
    let ?tx = "storeLayer (chain_of p s) ?l (tx_TarSplit ts StartTransaction)"
    have eq: "((failed, r), t) = (case getWithoutLock (rl_chainID ?l) ?s1 of
        (Some a, s2) \<Rightarrow> (case handle_result (getReference a s2) of (res, s3) \<Rightarrow> ((True, res), register_cleanup env s3))
      | (None, s2) \<Rightarrow> (case tx_Commit (rl_chainID ?l) ?tx (ls_store s2) of
           (Some MetaPanic, _) \<Rightarrow> ((False, LayerPanic ''digest without separator''), s2)
         | (err, meta) \<Rightarrow> if err \<noteq> None \<or> \<not> re_Commit env then ((True, LayerErr ErrMetadata), register_cleanup env s2)
             else (case add_layer ?l (s2\<lparr>ls_store := meta\<rparr>) of
                     (a, s3) \<Rightarrow> (case handle_result (getReference a s3) of (res, s4) \<Rightarrow> ((False, res), s4)))))"
      using pub True tr unfolding register_publish_def Let_def by simp
    show thesis
    proof (cases "fmlookup (ls_layerMap s) (rl_chainID ?l)")
      case (Some a)
      then obtain u where u: "getWithoutLock (rl_chainID ?l) ?s1 = (Some a, u)" by (simp add: getWithoutLock_def)
      obtain res v where v: "handle_result (getReference a u) = (res, v)" by (cases "handle_result (getReference a u)")
      then show thesis using that(2) [OF tr u, of v] eq u by simp
    next
      case None
      then have u: "getWithoutLock (rl_chainID ?l) ?s1 = (None, ?s1)" by (simp add: getWithoutLock_def)
      obtain err meta where c: "tx_Commit (rl_chainID ?l) ?tx (ls_store s) = (err, meta)" by fastforce
      show thesis
      proof (cases "err = Some MetaPanic")
        case True
        then show thesis using that(3) [OF tr] c by blast
      next
        case np: False
        show thesis
        proof (cases "err \<noteq> None \<or> \<not> re_Commit env")
          case True
          then have "((failed, r), t) = ((True, LayerErr ErrMetadata), register_cleanup env ?s1)"
            using eq u c np by (cases err) (auto split: meta_error.splits)
          then show thesis using that(1) clean by auto
        next
          case False
          obtain a v where a: "add_layer ?l (?s1\<lparr>ls_store := meta\<rparr>) = (a, v)" by fastforce
          obtain res w where w: "handle_result (getReference a v) = (res, w)" by (cases "handle_result (getReference a v)")
          have "((failed, r), t) = ((False, res), w)" using eq u c False a w by simp
          then show thesis using that(4) [OF tr None _ a] c False w by simp
        qed
      qed
    qed
  qed
qed

lemma register_publish_spec:
  assumes H: "\<And>x. canonical (H x)" and tar: "tar_ok env" and inv: "ls_inv (F + tok p) s"
    and pub: "register_publish H env descriptor p s = ((failed, r), t)"
  shows "ls_inv (F + (if failed then tok p else {#})) t \<and> handed_out s r t"
  using pub
proof (cases rule: register_publish_cases)
  case (error e d)
  then show ?thesis using inv by simp
next
  case (existing sz diff ts a u v)
  have inv1: "ls_inv (F + tok p) (s\<lparr>ls_driver := finsert (re_cacheID env) (ls_driver s)\<rparr>)" using inv by simp
  have "ls_inv (F + tok p) v" "handed_out u r v"
    using handle_result_spec [OF getWithoutLock_inv(1) [OF inv1 existing(2)] existing(3)] by simp_all
  moreover have "held u = held s" using getWithoutLock_held [OF existing(2)] by simp
  ultimately show ?thesis using existing(4,5) by (cases r) auto
next
  case (panic sz diff ts tx m m')
  have "canonical diff" using tar panic(1) by (simp add: tar_ok_def)
  from canonical_digest(2) [OF new_layer_digest [OF H this]] show ?thesis using panic(2) tx_Commit_no_panic by fastforce
next
  case (fresh sz diff ts meta a v)
  let ?s2 = "s\<lparr>ls_driver := finsert (re_cacheID env) (ls_driver s), ls_store := meta\<rparr>"
  have inv2: "ls_inv (F + tok (rl_parent (new_layer H env descriptor p sz diff s))) ?s2" using inv by simp
  have add: "ls_inv (F + {#a#}) v" using add_layer_inv [OF inv2 _ _ _ fresh(4)] fresh(2) by simp
  have "ls_inv F t" "handed_out v r t" using handle_result_spec [OF add fresh(5)] by simp_all
  moreover have "held v = held s" using add_layer_held [OF ls_invD(1) [OF inv2] _ fresh(4)] by simp
  ultimately show ?thesis using fresh(6) by (cases r) simp_all
qed

text \<open>The rule for a change of the mounts.\<close>

lemma ls_inv_mounts:
  assumes inv: "ls_inv F s" and t: "ls_heap t = ls_heap s" "ls_layerMap t = ls_layerMap s" "ls_fresh s \<le> ls_fresh t"
    and m: "\<And>n m. fmlookup (ls_mounts t) n = Some m \<Longrightarrow> ml_name m = n \<and> (\<forall>p. ml_parent m = Some p \<longrightarrow> live s p)"
    and G: "\<And>p. p \<in># G \<Longrightarrow> live s p"
    and cnt: "\<And>b. fcard (mounted t b) + count G b = fcard (mounted s b) + count F b"
  shows "ls_inv G t"
proof -
  note sh = ls_invD(1) [OF inv]
  have live: "live t b \<longleftrightarrow> live s b" and hp: "has_parent t p b \<longleftrightarrow> has_parent s p b" for p b
    using t by (simp_all add: live_def has_parent_def)
  have "has_parent t = has_parent s" using hp by (simp add: fun_eq_iff)
  then have ch: "children t b = children s b" for b using t by (simp add: children_def)
  have sht: "ls_shape t"
    unfolding ls_shape_def live
  proof (intro conjI allI impI, goal_cases)
    case (1 c b)
    then show ?case using ls_shapeD(1) [OF sh, of c b] t by simp
  next
    case (2 b k)
    then show ?case using ls_shapeD(2) [OF sh, of b k] t by simp
  next
    case (3 b k r)
    then show ?case using ls_shapeD(3) [OF sh, of b k r] t by simp
  next
    case (4 b k r)
    then show ?case using ls_shapeD(7) [OF sh, of b k r] t by simp
  next
    case (5 b k p)
    then show ?case using ls_shapeD(4) [OF sh, of b k p] t by simp
  next
    case (6 b k p)
    then show ?case using ls_shapeD(4) [OF sh, of b k p] t by simp
  next
    case (7 n m')
    then show ?case using m [of n m'] by simp
  next
    case (8 n m' p)
    then show ?case using m [of n m'] by simp
  qed
  show ?thesis
    unfolding ls_inv_def live
  proof (intro conjI sht ballI allI impI G, assumption)
    fix b k assume b: "live s b \<and> fmlookup (ls_heap t) b = Some k"
    then show "rl_referenceCount k = fcard (rl_references k) + fcard (children t b) + fcard (mounted t b) + count G b"
      using ls_invD(3) [OF inv, of b k] t(1) ch cnt [of b] by simp
  qed
qed

lemma mounted_upd:
  assumes t: "ls_mounts t = fmupd n m (ls_mounts s)"
  shows "mounted t p = (if ml_parent m = Some p then finsert n (mounted s p) else mounted s p |-| {|n|})"
  by (rule fset_eqI) (auto simp: mounted_iff t)

lemma mount_add_inv:
  assumes inv: "ls_inv (F + tok (ml_parent m)) s" and new: "fmlookup (ls_mounts s) (ml_name m) = None"
    and t: "ls_heap t = ls_heap s" "ls_layerMap t = ls_layerMap s" "ls_fresh s \<le> ls_fresh t"
      "ls_mounts t = fmupd (ml_name m) m (ls_mounts s)"
  shows "ls_inv F t"
proof (rule ls_inv_mounts [OF inv t(1,2,3)])
  note sh = ls_invD(1) [OF inv]
  show "ml_name k = n \<and> (\<forall>p. ml_parent k = Some p \<longrightarrow> live s p)" if "fmlookup (ls_mounts t) n = Some k" for n k
  proof (cases "n = ml_name m")
    case True
    with that t(4) have "k = m" by simp
    then show ?thesis using True ls_invD(2) [OF inv] by auto
  next
    case False
    with that t(4) show ?thesis using ls_shapeD(5,6) [OF sh, of n k] by simp
  qed
  show "live s p" if "p \<in># F" for p using that ls_invD(2) [OF inv, of p] by simp
  have nm: "ml_name m |\<notin>| mounted s b" for b using new by (simp add: mounted_iff)
  show "fcard (mounted t b) + count F b = fcard (mounted s b) + count (F + tok (ml_parent m)) b" for b
    using nm [of b] by (cases "ml_parent m") (auto simp: mounted_upd [OF t(4)] fcard_finsert_disjoint)
qed

lemma mount_upd_inv:
  assumes inv: "ls_inv F s" and m: "fmlookup (ls_mounts s) n = Some m" "ml_name m' = n" "ml_parent m' = ml_parent m"
    and t: "ls_heap t = ls_heap s" "ls_layerMap t = ls_layerMap s" "ls_fresh s \<le> ls_fresh t" "ls_mounts t = fmupd n m' (ls_mounts s)"
  shows "ls_inv F t"
proof (rule ls_inv_mounts [OF inv t(1,2,3)])
  note sh = ls_invD(1) [OF inv]
  show "ml_name k = n' \<and> (\<forall>p. ml_parent k = Some p \<longrightarrow> live s p)" if "fmlookup (ls_mounts t) n' = Some k" for n' k
    using that ls_shapeD(5,6) [OF sh, of n' k] ls_shapeD(6) [OF sh m(1)] m t(4) by (cases "n' = n") auto
  show "live s p" if "p \<in># F" for p using that ls_invD(2) [OF inv, of p] by simp
  have "mounted t b = mounted s b" for b
    using m by (cases "ml_parent m = Some b") (auto simp: mounted_upd [OF t(4)] mounted_iff fset_eq_iff)
  then show "fcard (mounted t b) + count F b = fcard (mounted s b) + count F b" for b by simp
qed

lemma mount_del_inv:
  assumes inv: "ls_inv F s" and m: "fmlookup (ls_mounts s) n = Some m"
    and t: "ls_heap t = ls_heap s" "ls_layerMap t = ls_layerMap s" "ls_fresh s \<le> ls_fresh t" "ls_mounts t = fmdrop n (ls_mounts s)"
  shows "ls_inv (F + tok (ml_parent m)) t"
proof (rule ls_inv_mounts [OF inv t(1,2,3)])
  note sh = ls_invD(1) [OF inv]
  show "ml_name k = n' \<and> (\<forall>p. ml_parent k = Some p \<longrightarrow> live s p)" if "fmlookup (ls_mounts t) n' = Some k" for n' k
    using that ls_shapeD(5,6) [OF sh, of n' k] t(4) by (cases "n' = n") auto
  show "live s p" if "p \<in># F + tok (ml_parent m)" for p
    using that ls_invD(2) [OF inv, of p] ls_shapeD(6) [OF sh m, of p] by (cases "ml_parent m") auto
  show "fcard (mounted t b) + count (F + tok (ml_parent m)) b = fcard (mounted s b) + count F b" for b
  proof (cases "ml_parent m = Some b")
    case True
    then have "n |\<in>| mounted s b" using m by (simp add: mounted_iff)
    moreover have "mounted t b = mounted s b |-| {|n|}" by (rule fset_eqI) (auto simp: mounted_iff t(4))
    ultimately show ?thesis using fcard_Suc_fminus1 [of n "mounted s b"] True by simp
  next
    case False
    then have "mounted t b = mounted s b" using m by (auto simp: fset_eq_iff mounted_iff t(4))
    then show ?thesis using False by (cases "ml_parent m") auto
  qed
qed

lemma initMount_frame:
  assumes "initMount n g s = (r, t)"
  shows "\<exists>d. t = s\<lparr>ls_driver := d\<rparr>"
  using assms by (auto simp: initMount_def Let_def split: if_splits intro: exI [of _ "ls_driver s"])

lemma create_mount_spec:
  assumes inv: "ls_inv (F + tok p) s" and new: "fmlookup (ls_mounts s) name = None"
    and c: "create_mount env name init mountID p s = ((failed, r), t)"
  shows "ls_inv (F + (if failed then tok p else {#})) t" and "held t = held s" and "\<And>m. r \<noteq> LayerPanic m"
    and "failed \<longleftrightarrow> (\<exists>e. r = LayerErr e)"
proof -
  have "ls_inv (F + (if failed then tok p else {#})) t \<and> held t = held s \<and> (\<forall>m. r \<noteq> LayerPanic m) \<and>
      (failed \<longleftrightarrow> (\<exists>e. r = LayerErr e))"
  proof -
    obtain ri u where i: "(if init then initMount (me_initMount env) mountID s else (Inr '''', s)) = (ri, u)" by fastforce
    have "\<exists>d. u = s\<lparr>ls_driver := d\<rparr>"
      using i initMount_frame [of _ mountID s ri u] by (cases init) (auto intro: exI [of _ "ls_driver s"])
    then obtain d where u: "u = s\<lparr>ls_driver := d\<rparr>" ..
    show ?thesis
    proof (cases "(\<exists>e. ri = Inl e) \<or> \<not> me_CreateReadWrite env")
      case True
      then have "\<exists>e. ((failed, r), t) = ((True, LayerErr e), u)" using c i by (cases ri) (auto simp: create_mount_def)
      then show ?thesis using inv u by auto
    next
      case False
      then obtain initID where ri: "ri = Inr initID" by (cases ri) auto
      let ?m = "\<lparr>ml_name = name, ml_mountID = mountID, ml_initID = initID, ml_parent = p, ml_references = {||}\<rparr>"
      let ?u = "u\<lparr>ls_driver := finsert mountID (ls_driver u)\<rparr>"
      have c': "((failed, r), t) = (case saveMount (me_saveMount env) ?m ?u of
            (Some err, s4) \<Rightarrow> ((True, LayerErr err), s4)
          | (None, s4) \<Rightarrow> (case ml_getReference ?m s4 of (h, s5) \<Rightarrow> ((False, LayerOK h), s5)))"
        using c i ri False by (simp add: create_mount_def Let_def)
      obtain se v where sv: "saveMount (me_saveMount env) ?m ?u = (se, v)" by fastforce
      show ?thesis
      proof (cases se)
        case (Some e)
        then have "\<exists>st. v = ?u\<lparr>ls_store := st\<rparr>" using sv by (auto simp: saveMount_def Let_def split: if_splits)
        then show ?thesis using c' sv Some inv u by auto
      next
        case None
        have v: "ls_heap v = ls_heap s" "ls_layerMap v = ls_layerMap s" "ls_fresh v = ls_fresh s"
            "ls_mounts v = fmupd name ?m (ls_mounts s)"
          using sv None u by (auto simp: saveMount_def Let_def split: if_splits)
        let ?m' = "?m\<lparr>ml_references := finsert (ls_fresh s) {||}\<rparr>"
        let ?t = "v\<lparr>ls_fresh := Suc (ls_fresh s), ls_mounts := fmupd name ?m' (ls_mounts v)\<rparr>"
        have t: "failed = False" "r = LayerOK \<lparr>rw_Name = name, rw_ref = ls_fresh s\<rparr>" "t = ?t"
          using c' sv None v(3) by (auto simp: ml_getReference_def Let_def)
        have "ls_inv F v" using mount_add_inv [of F ?m s v] inv new v by simp
        then have "ls_inv F ?t" using v by (intro mount_upd_inv [of F v name ?m ?m' ?t]) simp_all
        moreover have "held ?t = held s" using v(1) by (intro held_heap_cong) simp
        ultimately show ?thesis using t by simp
      qed
    qed
  qed
  then show "ls_inv (F + (if failed then tok p else {#})) t" "held t = held s" "\<And>m. r \<noteq> LayerPanic m"
    "failed \<longleftrightarrow> (\<exists>e. r = LayerErr e)" by blast+
qed

lemma GetRWLayer_spec:
  assumes inv: "ls_inv F s" and g: "GetRWLayer name s = (r, t)"
  shows "ls_inv F t" and "held t = held s" and "\<And>m. r \<noteq> LayerPanic m"
proof -
  have "ls_inv F t \<and> held t = held s \<and> (\<forall>m. r \<noteq> LayerPanic m)"
  proof (cases "fmlookup (ls_mounts s) name")
    case None
    then show ?thesis using g inv by (auto simp: GetRWLayer_def)
  next
    case (Some m)
    then have n: "ml_name m = name" using ls_shapeD(5) [OF ls_invD(1) [OF inv]] by simp
    let ?m = "m\<lparr>ml_references := finsert (ls_fresh s) (ml_references m)\<rparr>"
    have t: "t = s\<lparr>ls_fresh := Suc (ls_fresh s), ls_mounts := fmupd name ?m (ls_mounts s)\<rparr>" "\<And>m. r \<noteq> LayerPanic m"
      using g Some n by (auto simp: GetRWLayer_def ml_getReference_def Let_def)
    have "ls_inv F t" unfolding t(1) using Some n by (intro mount_upd_inv [OF inv Some, of ?m]) simp_all
    moreover have "held t = held s" unfolding t(1) by (rule held_heap_cong) simp
    ultimately show ?thesis using t(2) by simp
  qed
  then show "ls_inv F t" "held t = held s" "\<And>m. r \<noteq> LayerPanic m" by simp_all
qed

lemma release_mount_spec:
  assumes inv: "ls_inv F s" and rel: "release_mount env h s = (r, t)"
  shows "case r of Inl res \<Rightarrow> ls_inv F t \<and> (\<forall>m. res \<noteq> ReleasePanic m) | Inr p \<Rightarrow> ls_inv (F + {#p#}) t" and "held t = held s"
proof -
  have fr: "ls_heap t = ls_heap s" "ls_layerMap t = ls_layerMap s" "ls_fresh t = ls_fresh s"
    using rel by (auto simp: release_mount_def Let_def split: option.splits if_splits)
  show "held t = held s" using held_heap_cong [OF fr(1)] .
  show "case r of Inl res \<Rightarrow> ls_inv F t \<and> (\<forall>m. res \<noteq> ReleasePanic m) | Inr p \<Rightarrow> ls_inv (F + {#p#}) t"
  proof (cases "fmlookup (ls_mounts s) (rw_Name h)")
    case None
    then show ?thesis using rel inv by (auto simp: release_mount_def)
  next
    case (Some m)
    then have n: "ml_name m = rw_Name h" using ls_shapeD(5) [OF ls_invD(1) [OF inv]] by simp
    let ?m = "m\<lparr>ml_references := ml_references m |-| {|rw_ref h|}\<rparr>"
    let ?m' = "?m\<lparr>ml_references := finsert (rw_ref h) (ml_references ?m)\<rparr>"
    let ?m1 = "fmupd (rw_Name h) ?m (ls_mounts s)"
    have np: "res \<noteq> ReleasePanic e" if "r = Inl res" for res e
      using rel Some that by (auto simp: release_mount_def Let_def split: if_splits option.splits)
    have mt: "case r of
        Inl res \<Rightarrow> ls_mounts t \<in> {ls_mounts s, ?m1, fmupd (rw_Name h) ?m' ?m1} \<or> ml_parent m = None \<and> ls_mounts t = fmdrop (rw_Name h) ?m1
      | Inr p \<Rightarrow> ml_parent m = Some p \<and> ls_mounts t = fmdrop (rw_Name h) ?m1"
      using rel Some n by (auto simp: release_mount_def Let_def split: if_splits option.splits)
    have [simp]: "fmupd (rw_Name h) ?m' ?m1 = fmupd (rw_Name h) ?m' (ls_mounts s)" "fmdrop (rw_Name h) ?m1 = fmdrop (rw_Name h) (ls_mounts s)"
      by (rule fmap_ext; simp)+
    have upd: "ls_inv F t" if "ls_mounts t = fmupd (rw_Name h) k (ls_mounts s)" "ml_name k = rw_Name h" "ml_parent k = ml_parent m" for k
      using that fr by (intro mount_upd_inv [OF inv Some, of k]) simp_all
    have del: "ls_inv (F + tok (ml_parent m)) t" if "ls_mounts t = fmdrop (rw_Name h) (ls_mounts s)"
      using that fr by (intro mount_del_inv [OF inv Some]) simp_all
    show ?thesis
    proof (cases r)
      case (Inl res)
      have "ls_inv F t" if "ls_mounts t = ls_mounts s" using inv ls_inv_cong [OF fr(1,2) that fr(3)] by simp
      then have "ls_inv F t" using mt Inl upd [of ?m] upd [of ?m'] del n by auto
      then show ?thesis using np Inl by simp
    next
      case (Inr p)
      then show ?thesis using mt del by simp
    qed
  qed
qed

end
