(* ===== verification/LayerRestart.thy ===== *)
theory LayerRestart
  imports LayerRefs
begin

text \<open>
  Opening a layer store on the metadata of an earlier run: \<open>NewStoreFromGraphDriver\<close> loads exactly the
  layers whose metadata, and whose ancestors' metadata, can be read, and their counts are right.
\<close>

section \<open>What can be loaded\<close>

text \<open>The five reads of \<open>loadLayer\<close>: the difference, the size, the cache identifier, the parent and the descriptor.\<close>

definition read_layer :: "fileMetadataStore \<Rightarrow> string \<Rightarrow> (string \<times> int \<times> string \<times> string \<times> string) option" where
  "read_layer m c =
     (case (fms_GetDiffID c m, fms_GetSize c m, fms_GetCacheID c m, fms_GetParent c m, fms_GetDescriptor c m) of
        (Inr diff, Inr sz, Inr cacheID, Inr parent, Inr descriptor) \<Rightarrow> Some (diff, sz, cacheID, parent, descriptor)
      | _ \<Rightarrow> None)"

inductive loadable :: "fileMetadataStore \<Rightarrow> string \<Rightarrow> bool" for m where
  loadable_root: "read_layer m c = Some (diff, sz, cacheID, '''', descriptor) \<Longrightarrow> loadable m c"
| loadable_child: "read_layer m c = Some (diff, sz, cacheID, parent, descriptor) \<Longrightarrow> loadable m parent \<Longrightarrow> loadable m c"

inductive_cases loadableE: "loadable m c"

definition loaded_layer :: "string \<Rightarrow> string \<Rightarrow> int \<Rightarrow> string \<Rightarrow> nat option \<Rightarrow> string \<Rightarrow> roLayer" where
  "loaded_layer c diff sz cacheID p descriptor =
     \<lparr>rl_chainID = c, rl_diffID = diff, rl_parent = p, rl_cacheID = cacheID, rl_size = sz, rl_descriptor = descriptor,
      rl_referenceCount = 0, rl_references = {||}\<rparr>"

lemma loaded_layer_simps [simp]:
  "rl_chainID (loaded_layer c diff sz cacheID p d) = c" "rl_diffID (loaded_layer c diff sz cacheID p d) = diff"
  "rl_parent (loaded_layer c diff sz cacheID p d) = p" "rl_cacheID (loaded_layer c diff sz cacheID p d) = cacheID"
  "rl_size (loaded_layer c diff sz cacheID p d) = sz" "rl_descriptor (loaded_layer c diff sz cacheID p d) = d"
  "rl_referenceCount (loaded_layer c diff sz cacheID p d) = 0" "rl_references (loaded_layer c diff sz cacheID p d) = {||}"
  by (simp_all add: loaded_layer_def)

lemma loadLayer_miss:
  assumes "fmlookup (ls_layerMap s) c = None" "read_layer (ls_store s) c = Some (diff, sz, cacheID, parent, descriptor)"
  shows "loadLayer (Suc fuel) c s =
    (if parent = '''' then Some (apfst Inr (add_layer (loaded_layer c diff sz cacheID None descriptor) s))
     else case loadLayer fuel parent s of
            None \<Rightarrow> None
          | Some (Inl e, u) \<Rightarrow> Some (Inl e, u)
          | Some (Inr p, u) \<Rightarrow> Some (apfst Inr (add_layer (loaded_layer c diff sz cacheID (Some p) descriptor) u)))"
proof -
  have r: "fms_GetDiffID c (ls_store s) = Inr diff" "fms_GetSize c (ls_store s) = Inr sz" "fms_GetCacheID c (ls_store s) = Inr cacheID"
    "fms_GetParent c (ls_store s) = Inr parent" "fms_GetDescriptor c (ls_store s) = Inr descriptor"
    using assms(2) by (auto simp: read_layer_def split: sum.splits)
  show ?thesis
    using assms(1) by (auto simp: r Let_def loaded_layer_def apfst_def map_prod_def split: option.splits sum.splits prod.splits)
qed

lemma loadLayer_cases [consumes 1, case_names hit bad root orphan child]:
  assumes "loadLayer (Suc fuel) c s = Some (r, t)"
  obtains a where "fmlookup (ls_layerMap s) c = Some a" "r = Inr a" "t = s"
  | e where "fmlookup (ls_layerMap s) c = None" "read_layer (ls_store s) c = None" "r = Inl e" "t = s"
  | diff sz cacheID d a where "fmlookup (ls_layerMap s) c = None" "read_layer (ls_store s) c = Some (diff, sz, cacheID, '''', d)"
      "add_layer (loaded_layer c diff sz cacheID None d) s = (a, t)" "r = Inr a"
  | diff sz cacheID parent d e where "fmlookup (ls_layerMap s) c = None"
      "read_layer (ls_store s) c = Some (diff, sz, cacheID, parent, d)" "parent \<noteq> ''''"
      "loadLayer fuel parent s = Some (Inl e, t)" "r = Inl e"
  | diff sz cacheID parent d p u a where "fmlookup (ls_layerMap s) c = None"
      "read_layer (ls_store s) c = Some (diff, sz, cacheID, parent, d)" "parent \<noteq> ''''"
      "loadLayer fuel parent s = Some (Inr p, u)" "add_layer (loaded_layer c diff sz cacheID (Some p) d) u = (a, t)" "r = Inr a"
proof (cases "fmlookup (ls_layerMap s) c")
  case (Some a)
  with assms show thesis by (intro that(1) [of a]) auto
next
  case None
  show thesis
  proof (cases "read_layer (ls_store s) c")
    case bad: None
    then have "\<exists>e. loadLayer (Suc fuel) c s = Some (Inl e, s)"
      using None by (auto simp: read_layer_def split: sum.splits)
    then show thesis using that(2) None bad assms by auto
  next
    case (Some x)
    then obtain diff sz cacheID parent d where x: "read_layer (ls_store s) c = Some (diff, sz, cacheID, parent, d)" by (cases x) auto
    note eq = loadLayer_miss [OF None x, of fuel]
    show thesis
    proof (cases "parent = ''''")
      case True
      then show thesis using that(3) None x eq assms by (cases "add_layer (loaded_layer c diff sz cacheID None d) s") auto
    next
      case False
      with eq assms obtain q u where q: "loadLayer fuel parent s = Some (q, u)" by (cases "loadLayer fuel parent s") auto
      show thesis
      proof (cases q)
        case (Inl e)
        then show thesis using that(4) [OF None x False, of e] eq assms q False by auto
      next
        case (Inr p)
        then show thesis using that(5) [OF None x False, of p u] eq assms q False
          by (cases "add_layer (loaded_layer c diff sz cacheID (Some p) d) u") auto
      qed
    qed
  qed
qed

section \<open>Loading the layers\<close>

text \<open>
  The invariant while layers are loaded; \<open>D\<close> are the layers the loop is done with, whose parents have
  been retained for them. Each layer is the one its metadata describes.
\<close>

definition described :: "layerStore \<Rightarrow> roLayer \<Rightarrow> bool" where
  "described s l \<longleftrightarrow> loadable (ls_store s) (rl_chainID l) \<and>
     read_layer (ls_store s) (rl_chainID l) =
       Some (rl_diffID l, rl_size l, rl_cacheID l, (case chain_of (rl_parent l) s of None \<Rightarrow> '''' | Some c \<Rightarrow> c), rl_descriptor l)"

definition load_ok :: "nat fset \<Rightarrow> layerStore \<Rightarrow> bool" where
  "load_ok D s \<longleftrightarrow> ls_shape s \<and> ls_mounts s = fmempty \<and> (\<forall>d. d |\<in>| D \<longrightarrow> live s d) \<and>
     (\<forall>a l. fmlookup (ls_heap s) a = Some l \<longrightarrow>
        live s a \<and> rl_references l = {||} \<and> described s l \<and> rl_referenceCount l = fcard (children s a |\<inter>| D))"

lemma load_okD:
  assumes "load_ok D s"
  shows "ls_shape s" "ls_mounts s = fmempty" "\<And>d. d |\<in>| D \<Longrightarrow> live s d"
    "\<And>a l. fmlookup (ls_heap s) a = Some l \<Longrightarrow> live s a" "\<And>a l. fmlookup (ls_heap s) a = Some l \<Longrightarrow> rl_references l = {||}"
    "\<And>a l. fmlookup (ls_heap s) a = Some l \<Longrightarrow> described s l"
    "\<And>a l. fmlookup (ls_heap s) a = Some l \<Longrightarrow> rl_referenceCount l = fcard (children s a |\<inter>| D)"
  using assms unfolding load_ok_def by blast+

lemma add_load_ok:
  assumes ok: "load_ok D s" and new: "fmlookup (ls_layerMap s) c = None"
    and rd: "read_layer (ls_store s) c = Some (diff, sz, cacheID, parent, d)"
    and p: "p = None \<and> parent = '''' \<or> (\<exists>q k. p = Some q \<and> fmlookup (ls_heap s) q = Some k \<and> rl_chainID k = parent)"
    and add: "add_layer (loaded_layer c diff sz cacheID p d) s = (a, t)"
  shows "load_ok D t"
proof -
  let ?l = "loaded_layer c diff sz cacheID p d"
  note t = add_layer_fields [OF add] and sh = load_okD(1) [OF ok]
  have fresh: "fmlookup (ls_heap s) a = None" using fresh_address [OF sh] t(1) by simp
  have plive: "live s q" if "rl_parent ?l = Some q" for q using p that load_okD(4) [OF ok] by auto
  have new': "fmlookup (ls_layerMap s) (rl_chainID ?l) = None" using new by simp
  have sht: "ls_shape t" and live: "live t b \<longleftrightarrow> live s b \<or> b = a" and nlive: "\<not> live s a"
    and ch: "children t q = (if rl_parent ?l = Some q then finsert a (children s q) else children s q)"
    and none: "children s a = {||}" for b q
    by (rule add_layer_graph [OF sh new' plive _ add]; simp)+
  have aD: "a |\<notin>| D" using nlive load_okD(3) [OF ok] by blast
  have chD: "children t q |\<inter>| D = children s q |\<inter>| D" for q using aD by (auto simp: ch)
  have load: "loadable (ls_store s) c"
  proof (cases "parent = ''''")
    case True
    then show ?thesis using rd by (auto intro: loadable_root)
  next
    case False
    then have "loadable (ls_store s) parent" using p load_okD(6) [OF ok] by (auto simp: described_def)
    with rd show ?thesis by (rule loadable_child)
  qed
  have chain: "chain_of q t = chain_of q s" if "\<And>b. q = Some b \<Longrightarrow> live s b" for q
    using that nlive t(2) by (cases q) (auto simp: chain_of_def)
  have dl: "described t ?l"
    using load rd p plive chain [of p] by (auto simp: described_def t(6) chain_of_def)
  have dk: "described t k" if "fmlookup (ls_heap s) b = Some k" for b k
    using load_okD(6) [OF ok that] chain [of "rl_parent k"] ls_shapeD(4) [OF sh load_okD(4) [OF ok that] that]
    by (auto simp: described_def t(6))
  show ?thesis
    unfolding load_ok_def
  proof (intro conjI allI impI)
    show "ls_shape t" by (rule sht)
    show "ls_mounts t = fmempty" using t(4) load_okD(2) [OF ok] by simp
    show "live t e" if "e |\<in>| D" for e using that load_okD(3) [OF ok] live by simp
    fix b k assume k: "fmlookup (ls_heap t) b = Some k"
    have "live t b \<and> rl_references k = {||} \<and> described t k \<and> rl_referenceCount k = fcard (children t b |\<inter>| D)"
    proof (cases "b = a")
      case True
      then have "k = ?l" using k t(2) by simp
      then show ?thesis using True dl live [of b] chD [of b] none by simp
    next
      case False
      then have "fmlookup (ls_heap s) b = Some k" using k t(2) by simp
      then show ?thesis using load_okD(4,5,7) [OF ok, of b k] dk [of b k] live [of b] chD [of b] by simp
    qed
    then show "live t b" "rl_references k = {||}" "described t k" "rl_referenceCount k = fcard (children t b |\<inter>| D)" by simp_all
  qed
qed

text \<open>A layer that is loaded is loadable, and one that fails leaves the store as it was.\<close>

definition grows :: "layerStore \<Rightarrow> layerStore \<Rightarrow> bool" where
  "grows s t \<longleftrightarrow> ls_store t = ls_store s \<and> ls_driver t = ls_driver s \<and>
     (\<forall>a l. fmlookup (ls_heap s) a = Some l \<longrightarrow>
        (\<exists>n. fmlookup (ls_heap t) a = Some (l\<lparr>rl_referenceCount := n\<rparr>)))"

lemma grows_refl [simp]: "grows s s"
proof -
  have "\<exists>n. l = l\<lparr>rl_referenceCount := n\<rparr>" for l :: roLayer by (rule exI [of _ "rl_referenceCount l"]) simp
  then show ?thesis by (simp add: grows_def)
qed

lemma growsD: "grows s t \<Longrightarrow> fmlookup (ls_heap s) a = Some l \<Longrightarrow> \<exists>n. fmlookup (ls_heap t) a = Some (l\<lparr>rl_referenceCount := n\<rparr>)"
  by (simp add: grows_def)

lemma grows_trans:
  assumes "grows s t" "grows t u"
  shows "grows s u"
proof -
  have "\<exists>n. fmlookup (ls_heap u) a = Some (l\<lparr>rl_referenceCount := n\<rparr>)" if l: "fmlookup (ls_heap s) a = Some l" for a l
  proof -
    obtain m where "fmlookup (ls_heap t) a = Some (l\<lparr>rl_referenceCount := m\<rparr>)" using growsD [OF assms(1) l] by blast
    from growsD [OF assms(2) this] show ?thesis by simp
  qed
  then show ?thesis using assms by (simp add: grows_def)
qed

lemma grows_add: "add_layer l s = (a, t) \<Longrightarrow> ls_shape s \<Longrightarrow> grows s t"
proof -
  assume add: "add_layer l s = (a, t)" and sh: "ls_shape s"
  have "ls_driver t = ls_driver s" using add by (auto simp: add_layer_def Let_def)
  moreover have "fmlookup (ls_heap s) a = None" using fresh_address [OF sh] add_layer_fields(1) [OF add] by simp
  then have "\<exists>n. fmlookup (ls_heap t) b = Some (k\<lparr>rl_referenceCount := n\<rparr>)" if "fmlookup (ls_heap s) b = Some k" for b k
    using that add_layer_fields(2) [OF add] by (intro exI [of _ "rl_referenceCount k"]) auto
  ultimately show ?thesis using add_layer_fields(6) [OF add] by (simp add: grows_def)
qed

text \<open>The parent a layer's metadata names. A layer that can be loaded is not its own ancestor.\<close>

definition parent_of :: "fileMetadataStore \<Rightarrow> string \<Rightarrow> string \<Rightarrow> bool" where
  "parent_of m c p \<longleftrightarrow> p \<noteq> '''' \<and> (\<exists>diff sz cacheID d. read_layer m c = Some (diff, sz, cacheID, p, d))"

lemma parent_of_unique: "parent_of m c p \<Longrightarrow> parent_of m c q \<Longrightarrow> p = q"
  by (auto simp: parent_of_def)

lemma loadable_no_cycle: "loadable m c \<Longrightarrow> \<not> (parent_of m)\<^sup>+\<^sup>+ c c"
proof (induction rule: loadable.induct)
  case (loadable_root c diff sz cacheID d)
  have "\<not> parent_of m c p" for p using loadable_root by (auto simp: parent_of_def)
  then show ?case by (meson tranclpD)
next
  case (loadable_child c diff sz cacheID parent d)
  show ?case
  proof
    assume "(parent_of m)\<^sup>+\<^sup>+ c c"
    then obtain p where p: "parent_of m c p" "(parent_of m)\<^sup>*\<^sup>* p c" by (meson tranclpD)
    then have "p = parent" using loadable_child(1) by (auto simp: parent_of_def)
    with p have "(parent_of m)\<^sup>+\<^sup>+ parent parent" by (metis rtranclp_into_tranclp1)
    with loadable_child(3) show False by simp
  qed
qed

lemma loadLayer_ok:
  assumes "load_ok D s" and "loadLayer fuel c s = Some (r, t)"
  shows "grows s t \<and> load_ok D t \<and> (case r of
      Inl e \<Rightarrow> t = s \<and> \<not> loadable (ls_store s) c
    | Inr a \<Rightarrow> \<exists>l. fmlookup (ls_heap t) a = Some l \<and> rl_chainID l = c) \<and>
    (\<forall>x. fmlookup (ls_layerMap s) x = None \<and> fmlookup (ls_layerMap t) x \<noteq> None \<longrightarrow> (parent_of (ls_store s))\<^sup>*\<^sup>* c x)"
  using assms
proof (induction fuel arbitrary: c s r t)
  case 0
  then show ?case by simp
next
  case (Suc fuel)
  note ok = Suc(2)
  from Suc(3) show ?case
  proof (cases rule: loadLayer_cases)
    case (hit a)
    then show ?thesis using ok ls_shapeD(1) [OF load_okD(1) [OF ok], of c a] by auto
  next
    case (bad e)
    then show ?thesis using ok by (auto elim: loadableE)
  next
    case (root diff sz cacheID d a)
    then have "load_ok D t" by (intro add_load_ok [OF ok root(1,2) _ root(3)]) simp
    then show ?thesis using root grows_add [OF root(3) load_okD(1) [OF ok]] add_layer_fields(2,3) [OF root(3)] by auto
  next
    case (orphan diff sz cacheID parent d e)
    from Suc(1) [OF ok orphan(4)] have t: "t = s" "\<not> loadable (ls_store s) parent" by simp_all
    then have "\<not> loadable (ls_store s) c" using orphan(2,3) by (auto elim: loadableE)
    then show ?thesis using t orphan ok by auto
  next
    case (child diff sz cacheID parent d p u a)
    have po: "parent_of (ls_store s) c parent" using child(2,3) by (auto simp: parent_of_def)
    from Suc(1) [OF ok child(4)] obtain k where u: "grows s u" "load_ok D u" and k: "fmlookup (ls_heap u) p = Some k" "rl_chainID k = parent"
      and new: "\<And>x. fmlookup (ls_layerMap s) x = None \<Longrightarrow> fmlookup (ls_layerMap u) x \<noteq> None \<Longrightarrow> (parent_of (ls_store s))\<^sup>*\<^sup>* parent x"
      by auto
    have st: "ls_store u = ls_store s" using u(1) by (simp add: grows_def)
    have cu: "fmlookup (ls_layerMap u) c = None"
    proof (rule ccontr)
      assume in_u: "fmlookup (ls_layerMap u) c \<noteq> None"
      then obtain b where "fmlookup (ls_layerMap u) c = Some b" by blast
      from ls_shapeD(1) [OF load_okD(1) [OF u(2)] this] obtain l where "fmlookup (ls_heap u) b = Some l" "rl_chainID l = c" by blast
      with load_okD(6) [OF u(2)] st have "loadable (ls_store s) c" by (auto simp: described_def)
      moreover have "(parent_of (ls_store s))\<^sup>+\<^sup>+ c c" using po new [OF child(1) in_u] by (rule rtranclp_into_tranclp2)
      ultimately show False using loadable_no_cycle by blast
    qed
    have rd: "read_layer (ls_store u) c = Some (diff, sz, cacheID, parent, d)" using child(2) st by simp
    have "load_ok D t" using k by (intro add_load_ok [OF u(2) cu rd _ child(5)]) auto
    moreover have "grows s t" using u(1) grows_add [OF child(5) load_okD(1) [OF u(2)]] by (rule grows_trans)
    moreover have "(parent_of (ls_store s))\<^sup>*\<^sup>* c x" if "fmlookup (ls_layerMap s) x = None" "fmlookup (ls_layerMap t) x \<noteq> None" for x
      using that new [of x] po add_layer_fields(3) [OF child(5)] by (cases "x = c") (auto intro: converse_rtranclp_into_rtranclp)
    ultimately show ?thesis using child(6) add_layer_fields(2) [OF child(5)] by simp
  qed
qed

text \<open>One turn of the loop, and the loop.\<close>

lemma described_same_graph:
  assumes g: "same_graph s t" and "ls_store t = ls_store s"
    and l: "rl_chainID l' = rl_chainID l" "rl_diffID l' = rl_diffID l" "rl_parent l' = rl_parent l" "rl_cacheID l' = rl_cacheID l"
      "rl_size l' = rl_size l" "rl_descriptor l' = rl_descriptor l"
  shows "described t l' = described s l"
proof -
  have "map_option rl_chainID (fmlookup (ls_heap t) p) = map_option rl_chainID (fmlookup (ls_heap s) p)" for p
  proof -
    have "map_option fst (map_option (\<lambda>l. (rl_chainID l, rl_parent l)) (fmlookup (ls_heap t) p)) =
        map_option fst (map_option (\<lambda>l. (rl_chainID l, rl_parent l)) (fmlookup (ls_heap s) p))"
      using g by (simp add: same_graph_def)
    then show ?thesis by (simp add: option.map_comp comp_def)
  qed
  then have "chain_of q t = chain_of q s" for q by (cases q) (simp_all add: chain_of_def)
  then show ?thesis using assms(2) l by (simp add: described_def)
qed

definition retain_parent :: "roLayer \<Rightarrow> layerStore \<Rightarrow> layerStore" where
  "retain_parent l s = (case rl_parent l of Some p \<Rightarrow> upd_layer p (\<lambda>l. l\<lparr>rl_referenceCount := rl_referenceCount l + 1\<rparr>) s | None \<Rightarrow> s)"

lemma retain_parent_lookup:
  "fmlookup (ls_heap (retain_parent l s)) b =
     map_option (\<lambda>k. k\<lparr>rl_referenceCount := rl_referenceCount k + (if rl_parent l = Some b then 1 else 0)\<rparr>) (fmlookup (ls_heap s) b)"
  by (cases "rl_parent l"; cases "fmlookup (ls_heap s) b") (auto simp: retain_parent_def upd_layer_lookup)

lemma retain_parent_frame [simp]:
  "ls_mounts (retain_parent l s) = ls_mounts s" "ls_store (retain_parent l s) = ls_store s"
  "ls_fresh (retain_parent l s) = ls_fresh s" "ls_driver (retain_parent l s) = ls_driver s"
  by (simp_all add: retain_parent_def split: option.splits)

lemma retain_parent_graph: "same_graph s (retain_parent l s)"
proof (cases "rl_parent l")
  case None
  then show ?thesis by (simp add: retain_parent_def same_graph_def)
next
  case (Some p)
  then show ?thesis by (simp add: retain_parent_def same_graph_upd)
qed

lemma retain_parent_ok:
  assumes ok: "load_ok D s" and a: "fmlookup (ls_heap s) a = Some l" "a |\<notin>| D"
  shows "load_ok (finsert a D) (retain_parent l s)" and "grows s (retain_parent l s)"
proof -
  let ?t = "retain_parent l s"
  note g = retain_parent_graph [of s l] and sh = load_okD(1) [OF ok]
  note live = same_graph_live(1) [OF g] and ch = same_graph_live(3) [OF g]
  have lk: "fmlookup (ls_heap ?t) b = Some k \<Longrightarrow> \<exists>k0. fmlookup (ls_heap s) b = Some k0 \<and>
      k = k0\<lparr>rl_referenceCount := rl_referenceCount k0 + (if rl_parent l = Some b then 1 else 0)\<rparr>" for b k
    by (cases "fmlookup (ls_heap s) b") (simp_all add: retain_parent_lookup)
  have sht: "ls_shape ?t"
  proof (rule ls_shape_same_graph [OF sh g])
    fix b k r assume "fmlookup (ls_heap ?t) b = Some k" "r |\<in>| rl_references k"
    then show "r < ls_fresh ?t \<and> live s b" using lk [of b k] load_okD(5) [OF ok, of b] by auto
  qed simp_all
  show "load_ok (finsert a D) ?t"
    unfolding load_ok_def live ch
  proof (intro conjI allI impI sht)
    show "ls_mounts ?t = fmempty" using load_okD(2) [OF ok] by simp
    show "live s d" if "d |\<in>| finsert a D" for d using that load_okD(3,4) [OF ok] a(1) by auto
    fix b k assume "fmlookup (ls_heap ?t) b = Some k"
    then obtain k0 where k0: "fmlookup (ls_heap s) b = Some k0"
      and k: "k = k0\<lparr>rl_referenceCount := rl_referenceCount k0 + (if rl_parent l = Some b then 1 else 0)\<rparr>"
      using lk by blast
    show "live s b" using load_okD(4) [OF ok k0] .
    show "rl_references k = {||}" using load_okD(5) [OF ok k0] k by simp
    show "described ?t k" using load_okD(6) [OF ok k0] described_same_graph [OF g, of k k0] k by simp
    have "a |\<in>| children s b \<longleftrightarrow> rl_parent l = Some b"
      using a(1) load_okD(4) [OF ok a(1)] by (simp add: children_iff [OF sh] has_parent_def)
    then have "children s b |\<inter>| finsert a D = (if rl_parent l = Some b then finsert a (children s b |\<inter>| D) else children s b |\<inter>| D)"
      by auto
    then show "rl_referenceCount k = fcard (children s b |\<inter>| finsert a D)"
      using load_okD(7) [OF ok k0] k a(2) by (simp add: fcard_finsert_disjoint)
  qed
  show "grows s ?t"
    unfolding grows_def
  proof (intro conjI allI impI)
    fix b k assume "fmlookup (ls_heap s) b = Some k"
    then have "fmlookup (ls_heap ?t) b = Some (k\<lparr>rl_referenceCount := rl_referenceCount k + (if rl_parent l = Some b then 1 else 0)\<rparr>)"
      by (simp only: retain_parent_lookup option.map)
    then show "\<exists>n. fmlookup (ls_heap ?t) b = Some (k\<lparr>rl_referenceCount := n\<rparr>)" ..
  qed simp_all
qed

lemma load_layers_ok:
  assumes "load_ok D s" and "load_layers fuel cs s = Some t" and "distinct cs"
    and "\<And>d l. d |\<in>| D \<Longrightarrow> fmlookup (ls_heap s) d = Some l \<Longrightarrow> rl_chainID l \<notin> set cs"
  shows "\<exists>E. load_ok E t \<and> grows s t \<and> D |\<subseteq>| E \<and>
    (\<forall>c \<in> set cs. loadable (ls_store s) c \<longrightarrow> (\<exists>a l. a |\<in>| E \<and> fmlookup (ls_heap t) a = Some l \<and> rl_chainID l = c))"
  using assms
proof (induction cs arbitrary: D s)
  case Nil
  then show ?case by auto
next
  case (Cons c cs)
  note ok = Cons(2) and fresh = Cons(5)
  from Cons(3) obtain r u where u: "loadLayer fuel c s = Some (r, u)" by (cases "loadLayer fuel c s") auto
  note lo = loadLayer_ok [OF ok u]
  show ?case
  proof (cases r)
    case (Inl e)
    then have "u = s" "\<not> loadable (ls_store s) c" using lo by simp_all
    moreover have "load_layers fuel cs s = Some t" using Cons(3) u Inl \<open>u = s\<close> by simp
    ultimately show ?thesis using Cons(1) [OF ok] Cons(4) fresh by auto
  next
    case (Inr a)
    then obtain l where l: "fmlookup (ls_heap u) a = Some l" "rl_chainID l = c" and uo: "grows s u" "load_ok D u" using lo by auto
    have Du: "rl_chainID k \<notin> set (c # cs)" if d: "d |\<in>| D" and k: "fmlookup (ls_heap u) d = Some k" for d k
    proof -
      obtain k0 where k0: "fmlookup (ls_heap s) d = Some k0" using load_okD(3) [OF ok d] by (auto simp: live_def)
      with growsD [OF uo(1) k0] k have "rl_chainID k = rl_chainID k0" by auto
      with fresh [OF d k0] show ?thesis by simp
    qed
    have aD: "a |\<notin>| D" using Du [of a l] l by auto
    let ?v = "retain_parent l u"
    note rp = retain_parent_ok [OF uo(2) l(1) aD]
    have "load_layers fuel cs ?v = Some t" using Cons(3) u Inr l(1) by (simp add: retain_parent_def)
    moreover have "rl_chainID k \<notin> set cs" if "d |\<in>| finsert a D" "fmlookup (ls_heap ?v) d = Some k" for d k
      using that Du [of d] l Cons(4) by (cases "fmlookup (ls_heap u) d") (auto simp: retain_parent_lookup)
    ultimately obtain E where E: "load_ok E t" "grows ?v t" "finsert a D |\<subseteq>| E"
        "\<forall>x \<in> set cs. loadable (ls_store ?v) x \<longrightarrow> (\<exists>a l. a |\<in>| E \<and> fmlookup (ls_heap t) a = Some l \<and> rl_chainID l = x)"
      using Cons(1) [OF rp(1)] Cons(4) by auto
    have st: "ls_store u = ls_store s" using uo(1) by (simp add: grows_def)
    obtain k where k: "fmlookup (ls_heap t) a = Some k" "rl_chainID k = c"
    proof -
      from l(1) obtain v where "fmlookup (ls_heap ?v) a = Some v" "rl_chainID v = c" using l(2) by (auto simp: retain_parent_lookup)
      with growsD [OF E(2)] that show thesis by fastforce
    qed
    have "grows s t" using grows_trans [OF grows_trans [OF uo(1) rp(2)] E(2)] .
    then show ?thesis using E k st by (intro exI [of _ E]) auto
  qed
qed

section \<open>Opening a store\<close>

text \<open>The directories a store writes are named after digests of the supported algorithm.\<close>

definition meta_ok :: "fileMetadataStore \<Rightarrow> bool" where
  "meta_ok m \<longleftrightarrow> (\<forall>(alg, hex) \<in> fset (fmdom (fm_layers m)). alg = ''sha256'' \<and> Digest_Validate (alg @ '':'' @ hex) = None)"

lemma getLayerDirectory_Some: "getLayerDirectory c = Some (alg, hex) \<Longrightarrow> c = alg @ '':'' @ hex"
  using index_char_split(1) [of "CHR '':''" c] by (auto simp: getLayerDirectory_def split: option.splits)

lemma mounts_not_digest: "Digest_Validate (''sha256'' @ '':'' @ ''mounts'') \<noteq> None"
  by code_simp

lemma readable_directory:
  assumes "read_layer m c \<noteq> None"
  obtains alg hex where "getLayerDirectory c = Some (alg, hex)" "(alg, hex) |\<in>| fmdom (fm_layers m)"
proof -
  from assms obtain diff where "fms_GetDiffID c m = Inr diff" by (auto simp: read_layer_def split: sum.splits)
  then obtain content where f: "layer_file c ''diff'' m = Inr content" by (auto simp: fms_GetDiffID_def split: sum.splits)
  then obtain alg hex where d: "getLayerDirectory c = Some (alg, hex)"
    by (auto simp: layer_file_def split: option.splits)
  with f have "(alg, hex) |\<in>| fmdom (fm_layers m)"
    by (cases "fmlookup (fm_layers m) (alg, hex)") (auto simp: layer_file_def map_get_def intro: fmdomI)
  with d show thesis by (rule that)
qed

lemma readable_listed:
  assumes m: "meta_ok m" and c: "read_layer m c \<noteq> None"
  shows "c \<in> set (fst (fms_List m))"
proof -
  obtain alg hex where d: "getLayerDirectory c = Some (alg, hex)" and "(alg, hex) |\<in>| fmdom (fm_layers m)"
    using readable_directory [OF c] .
  moreover from this m have v: "alg = ''sha256''" "Digest_Validate (alg @ '':'' @ hex) = None" by (auto simp: meta_ok_def)
  moreover have "hex \<noteq> ''mounts''" using v mounts_not_digest by metis
  moreover have "hex \<in> snd ` ({(a, h). a = ''sha256''} \<inter> fset (fmdom (fm_layers m)))"
    using calculation(2) v(1) by (intro image_eqI [of hex snd "(alg, hex)"]) simp_all
  ultimately show ?thesis
    using getLayerDirectory_Some [OF d] by (auto simp: fms_List_def supportedAlgorithms_def)
qed

lemma loadable_listed: "meta_ok m \<Longrightarrow> loadable m c \<Longrightarrow> c \<in> set (fst (fms_List m))"
  by (erule readable_listed) (auto elim: loadableE)

lemma fms_List_distinct: "distinct (fst (fms_List m))"
  by (auto simp: fms_List_def supportedAlgorithms_def distinct_map inj_on_def sorted_list_of_fset.rep_eq intro!: distinct_filter)

text \<open>A store just opened on the metadata \<open>m\<close>: it has the loadable layers, as described, and no references.\<close>

definition opened_ok :: "fileMetadataStore \<Rightarrow> layerStore \<Rightarrow> bool" where
  "opened_ok m s \<longleftrightarrow> ls_inv {#} s \<and> ls_store s = m \<and> (\<forall>c. fmlookup (ls_layerMap s) c \<noteq> None \<longleftrightarrow> loadable m c) \<and>
     (\<forall>a l. fmlookup (ls_heap s) a = Some l \<longrightarrow> live s a \<and> rl_references l = {||} \<and> described s l)"

lemma load_ok_complete:
  assumes ok: "load_ok E s" and all: "\<And>a l. fmlookup (ls_heap s) a = Some l \<Longrightarrow> a |\<in>| E"
  shows "ls_inv {#} s"
  unfolding ls_inv_def
proof (intro conjI ballI allI impI load_okD(1) [OF ok])
  fix a l assume a: "live s a \<and> fmlookup (ls_heap s) a = Some l"
  have "children s a |\<subseteq>| E"
    using all by (auto simp: children_iff [OF load_okD(1) [OF ok]] live_def)
  then have "children s a |\<inter>| E = children s a" by auto
  moreover have "mounted s a = {||}" using load_okD(2) [OF ok] by (auto simp: mounted_iff fset_eq_iff)
  ultimately show "rl_referenceCount l = fcard (rl_references l) + fcard (children s a) + fcard (mounted s a) + count {#} a"
    using load_okD(5,7) [OF ok, of a l] a by simp
qed simp

lemma load_layers_opened:
  assumes m: "meta_ok m"
    and l: "load_layers fuel (fst (fms_List m)) \<lparr>ls_heap = fmempty, ls_layerMap = fmempty, ls_mounts = fmempty, ls_fresh = 0,
      ls_store = m, ls_driver = driver\<rparr> = Some s"
  shows "opened_ok m s"
proof -
  let ?s0 = "\<lparr>ls_heap = fmempty, ls_layerMap = fmempty, ls_mounts = fmempty, ls_fresh = 0, ls_store = m, ls_driver = driver\<rparr>"
  have "load_ok {||} ?s0" by (simp add: load_ok_def ls_shape_def)
  from load_layers_ok [OF this l fms_List_distinct] obtain E where E: "load_ok E s" "grows ?s0 s"
    "\<And>c. c \<in> set (fst (fms_List m)) \<Longrightarrow> loadable m c \<Longrightarrow> \<exists>a l. a |\<in>| E \<and> fmlookup (ls_heap s) a = Some l \<and> rl_chainID l = c"
    by auto
  have st: "ls_store s = m" using E(2) by (simp add: grows_def)
  have inE: "a |\<in>| E" if a: "fmlookup (ls_heap s) a = Some k" for a k
  proof -
    have "loadable m (rl_chainID k)" using load_okD(6) [OF E(1) a] st by (simp add: described_def)
    with E(3) loadable_listed [OF m] obtain b l where b: "b |\<in>| E" "fmlookup (ls_heap s) b = Some l" "rl_chainID l = rl_chainID k" by blast
    have "a = b" using load_okD(4) [OF E(1) a] load_okD(4) [OF E(1) b(2)] a b by (auto simp: live_def)
    with b show ?thesis by simp
  qed
  have "fmlookup (ls_layerMap s) c \<noteq> None \<longleftrightarrow> loadable m c" for c
  proof
    assume "fmlookup (ls_layerMap s) c \<noteq> None"
    then obtain a where "fmlookup (ls_layerMap s) c = Some a" by blast
    from ls_shapeD(1) [OF load_okD(1) [OF E(1)] this] load_okD(6) [OF E(1)] st show "loadable m c" by (auto simp: described_def)
  next
    assume "loadable m c"
    with E(3) loadable_listed [OF m] obtain a l where "fmlookup (ls_heap s) a = Some l" "rl_chainID l = c" by blast
    with load_okD(4) [OF E(1)] show "fmlookup (ls_layerMap s) c \<noteq> None" by (auto simp: live_def)
  qed
  then show ?thesis
    using load_ok_complete [OF E(1) inE] st load_okD(4,5,6) [OF E(1)] by (simp add: opened_ok_def)
qed

lemma loadLayer_opened:
  assumes o: "opened_ok m s" and "loadLayer fuel c s = Some (r, t)"
  shows "t = s \<and> (case r of Inl e \<Rightarrow> True | Inr a \<Rightarrow> fmlookup (ls_layerMap s) c = Some a)"
  using assms(2)
proof (induction fuel arbitrary: c r t)
  case 0
  then show ?case by simp
next
  case (Suc fuel)
  have dom: "fmlookup (ls_layerMap s) x \<noteq> None \<longleftrightarrow> loadable (ls_store s) x" for x using o by (auto simp: opened_ok_def)
  from Suc(2) show ?case
  proof (cases rule: loadLayer_cases)
    case (root diff sz cacheID d a)
    then have "loadable (ls_store s) c" by (auto intro: loadable_root)
    with dom root show ?thesis by blast
  next
    case (child diff sz cacheID parent d p u a)
    from Suc(1) [OF child(4)] have "fmlookup (ls_layerMap s) parent \<noteq> None" by simp
    with dom child(2) have "loadable (ls_store s) c" by (auto intro: loadable_child)
    with dom child show ?thesis by blast
  next
    case (orphan diff sz cacheID parent d e)
    then show ?thesis using Suc(1) [OF orphan(4)] by simp
  qed simp_all
qed

lemma loadMount_opened:
  assumes o: "opened_ok m s" and l: "loadMount fuel n s = Some (e, t)"
  shows "opened_ok m t"
proof -
  note inv = o [unfolded opened_ok_def, THEN conjunct1]
  have pub: "opened_ok m (u\<lparr>ls_mounts := fmupd n k (ls_mounts u)\<rparr>)"
    if "fmlookup (ls_mounts s) n = None" "ml_name k = n" and u: "u = s \<and> ml_parent k = None \<or>
      (\<exists>p c. fmlookup (ls_layerMap s) c = Some p \<and> ml_parent k = Some p \<and> u = upd_layer p (\<lambda>l. l\<lparr>rl_referenceCount := rl_referenceCount l + 1\<rparr>) s)"
    for k u
  proof -
    let ?t = "u\<lparr>ls_mounts := fmupd n k (ls_mounts u)\<rparr>"
    have g: "same_graph s u" using u by (auto simp: same_graph_upd) (simp add: same_graph_def)
    have fr: "ls_mounts u = ls_mounts s" "ls_store u = ls_store s" "ls_layerMap u = ls_layerMap s" using u by auto
    have lk: "\<exists>l0. fmlookup (ls_heap s) a = Some l0 \<and> (\<exists>j. l = l0\<lparr>rl_referenceCount := j\<rparr>)" if "fmlookup (ls_heap u) a = Some l" for a l
    proof -
      have self: "\<exists>j. l = l\<lparr>rl_referenceCount := j\<rparr>" by (rule exI [of _ "rl_referenceCount l"]) simp
      from u show ?thesis
      proof (elim disjE exE conjE)
        fix p assume "u = upd_layer p (\<lambda>l. l\<lparr>rl_referenceCount := rl_referenceCount l + 1\<rparr>) s"
        then show ?thesis using that self by (cases "a = p") (auto simp: upd_layer_lookup)
      qed (use that self in simp)
    qed
    have "ls_inv (tok (ml_parent k)) u"
      using u
    proof (elim disjE exE conjE)
      fix p c assume pc: "fmlookup (ls_layerMap s) c = Some p" "ml_parent k = Some p" and u': "u = upd_layer p (\<lambda>l. l\<lparr>rl_referenceCount := rl_referenceCount l + 1\<rparr>) s"
      then have "getWithoutLock c s = (Some p, u)" by (simp add: getWithoutLock_def)
      from getWithoutLock_inv(1) [OF inv this] pc(2) show ?thesis by simp
    qed (use inv in simp)
    then have "ls_inv {#} ?t" using that(1,2) fr by (intro mount_add_inv [of "{#}" k u ?t]) simp_all
    moreover have "live ?t a = live s a" for a using same_graph_live(1) [OF g, of a] by (simp add: live_def)
    moreover have "described ?t (l\<lparr>rl_referenceCount := j\<rparr>) = described s l" for l j
    proof -
      have g': "same_graph s ?t" using g by (simp add: same_graph_def)
      show ?thesis by (rule described_same_graph [OF g']) (simp_all add: fr)
    qed
    moreover have "rl_references l = {||}" "live s a" "described ?t l" if l: "fmlookup (ls_heap u) a = Some l" for a l
    proof -
      obtain l0 j where l0: "fmlookup (ls_heap s) a = Some l0" "l = l0\<lparr>rl_referenceCount := j\<rparr>" using lk [OF l] by blast
      have a: "live s a \<and> rl_references l0 = {||} \<and> described s l0" using o l0(1) by (simp add: opened_ok_def)
      then show "rl_references l = {||}" "live s a" using l0(2) by simp_all
      show "described ?t l" using a l0(2) calculation(3) [of j l0] by simp
    qed
    ultimately show ?thesis using o fr unfolding opened_ok_def by simp
  qed
  show ?thesis
  proof (cases "fmlookup (ls_mounts s) n")
    case (Some k)
    then show ?thesis using l o by (simp add: loadMount_def)
  next
    case None
    show ?thesis
    proof (cases "\<exists>mountID initID parent. fms_GetMountID n (ls_store s) = Inr mountID \<and> fms_GetInitID n (ls_store s) = Inr initID \<and>
        fms_GetMountParent n (ls_store s) = Inr parent")
      case False
      then have "t = s" using l None by (auto simp: loadMount_def split: sum.splits)
      with o show ?thesis by simp
    next
      case True
      then obtain mountID initID parent where rd: "fms_GetMountID n (ls_store s) = Inr mountID" "fms_GetInitID n (ls_store s) = Inr initID"
        "fms_GetMountParent n (ls_store s) = Inr parent" by blast
      let ?k = "\<lambda>p. \<lparr>ml_name = n, ml_mountID = mountID, ml_initID = initID, ml_parent = p, ml_references = {||}\<rparr>"
      show ?thesis
      proof (cases "parent = ''''")
        case True
        then show ?thesis using l None rd pub [OF None, of "?k None" s] by (simp add: loadMount_def)
      next
        case False
        then obtain q u where q: "loadLayer fuel parent s = Some (q, u)"
          using l None rd by (cases "loadLayer fuel parent s") (auto simp: loadMount_def)
        have us: "u = s" using loadLayer_opened [OF o q] by simp
        show ?thesis
        proof (cases q)
          case (Inl e')
          then show ?thesis using l None rd False q us o by (simp add: loadMount_def)
        next
          case (Inr p)
          let ?v = "upd_layer p (\<lambda>l. l\<lparr>rl_referenceCount := rl_referenceCount l + 1\<rparr>) s"
          have "fmlookup (ls_layerMap s) parent = Some p" using loadLayer_opened [OF o q] Inr by simp
          then have "opened_ok m (?v\<lparr>ls_mounts := fmupd n (?k (Some p)) (ls_mounts ?v)\<rparr>)"
            by (intro pub [OF None]) auto
          then show ?thesis using l None rd False q us Inr by (simp add: loadMount_def)
        qed
      qed
    qed
  qed
qed

lemma load_mounts_opened: "opened_ok m s \<Longrightarrow> load_mounts fuel ns s = Some t \<Longrightarrow> opened_ok m t"
proof (induction ns arbitrary: s)
  case (Cons n ns)
  then obtain e u where u: "loadMount fuel n s = Some (e, u)" by (cases "loadMount fuel n s") auto
  with Cons show ?case using loadMount_opened [OF Cons(2) u] by simp
qed simp

lemma NewStore_opened:
  assumes "meta_ok m" and "NewStoreFromGraphDriver fuel m driver = Some s"
  shows "opened_ok m s"
proof -
  from assms(2) obtain u where "load_layers fuel (fst (fms_List m)) \<lparr>ls_heap = fmempty, ls_layerMap = fmempty, ls_mounts = fmempty,
      ls_fresh = 0, ls_store = m, ls_driver = driver\<rparr> = Some u" and l: "load_mounts fuel (snd (fms_List m)) u = Some s"
    by (auto simp: NewStoreFromGraphDriver_def Let_def split: prod.splits option.splits)
  from load_layers_opened [OF assms(1) this(1)] l show ?thesis by (rule load_mounts_opened)
qed

section \<open>Termination\<close>

text \<open>
  Loading follows the parents that the metadata names. If it runs out of \<open>n\<close> steps, it has followed \<open>n\<close>
  of them; if they do not repeat, there are no more of them than directories.
\<close>

lemma loadLayer_None:
  assumes "loadLayer fuel c s = None"
  shows "\<exists>cs. length cs = fuel \<and> successively (parent_of (ls_store s)) cs \<and> (\<forall>x \<in> set cs. read_layer (ls_store s) x \<noteq> None) \<and>
    (cs \<noteq> [] \<longrightarrow> hd cs = c)"
  using assms
proof (induction fuel arbitrary: c)
  case 0
  then show ?case by simp
next
  case (Suc fuel)
  have miss: "fmlookup (ls_layerMap s) c = None" using Suc(2) by (cases "fmlookup (ls_layerMap s) c") auto
  have "read_layer (ls_store s) c \<noteq> None"
    using Suc(2) miss by (auto simp: read_layer_def split: sum.splits)
  then obtain diff sz cacheID parent d where rd: "read_layer (ls_store s) c = Some (diff, sz, cacheID, parent, d)" by force
  have p: "parent \<noteq> ''''" "loadLayer fuel parent s = None"
    using Suc(2) loadLayer_miss [OF miss rd, of fuel] by (auto split: if_splits option.splits sum.splits)
  from Suc(1) [OF p(2)] obtain cs where cs: "length cs = fuel" "successively (parent_of (ls_store s)) cs"
    "\<forall>x \<in> set cs. read_layer (ls_store s) x \<noteq> None" "cs \<noteq> [] \<longrightarrow> hd cs = parent" by blast
  have "parent_of (ls_store s) c parent" using rd p(1) by (auto simp: parent_of_def)
  then show ?case using cs rd by (intro exI [of _ "c # cs"]) (auto simp: successively_Cons)
qed

lemma successively_tranclp: "successively R xs \<Longrightarrow> i < j \<Longrightarrow> j < length xs \<Longrightarrow> R\<^sup>+\<^sup>+ (xs ! i) (xs ! j)"
proof (induction j)
  case (Suc j)
  have step: "R (xs ! j) (xs ! Suc j)" using Suc(2,4) by (simp add: successively_conv_nth)
  show ?case
  proof (cases "i = j")
    case True
    with step show ?thesis by blast
  next
    case False
    with Suc have "R\<^sup>+\<^sup>+ (xs ! i) (xs ! j)" by simp
    from this step show ?thesis by (rule tranclp.trancl_into_trancl)
  qed
qed simp

lemma loadLayer_enough:
  assumes acyclic: "\<And>c. \<not> (parent_of (ls_store s))\<^sup>+\<^sup>+ c c" and fuel: "fcard (fmdom (fm_layers (ls_store s))) < fuel"
  shows "loadLayer fuel c s \<noteq> None"
proof
  assume "loadLayer fuel c s = None"
  from loadLayer_None [OF this] obtain cs where cs: "length cs = fuel" "successively (parent_of (ls_store s)) cs"
    "\<And>x. x \<in> set cs \<Longrightarrow> read_layer (ls_store s) x \<noteq> None" by blast
  have "distinct cs"
    unfolding distinct_conv_nth
  proof (intro allI impI)
    fix i j assume "i < length cs" "j < length cs" "i \<noteq> j"
    then show "cs ! i \<noteq> cs ! j"
      using successively_tranclp [OF cs(2), of i j] successively_tranclp [OF cs(2), of j i] acyclic [of "cs ! i"]
      by (cases "i < j") auto
  qed
  have inj: "inj_on (\<lambda>c. the (getLayerDirectory c)) (set cs)"
  proof (rule inj_onI)
    fix x y assume xy: "x \<in> set cs" "y \<in> set cs" "the (getLayerDirectory x) = the (getLayerDirectory y)"
    obtain alg hex where x: "getLayerDirectory x = Some (alg, hex)" using readable_directory [OF cs(3) [OF xy(1)]] by blast
    obtain alg' hex' where y: "getLayerDirectory y = Some (alg', hex')" using readable_directory [OF cs(3) [OF xy(2)]] by blast
    from x y xy(3) getLayerDirectory_Some [OF x] getLayerDirectory_Some [OF y] show "x = y" by simp
  qed
  have "(\<lambda>c. the (getLayerDirectory c)) ` set cs \<subseteq> fset (fmdom (fm_layers (ls_store s)))"
  proof (intro image_subsetI)
    fix x assume "x \<in> set cs"
    from readable_directory [OF cs(3) [OF this]] show "the (getLayerDirectory x) \<in> fset (fmdom (fm_layers (ls_store s)))" by force
  qed
  then have "card (set cs) \<le> fcard (fmdom (fm_layers (ls_store s)))"
    using card_mono [of "fset (fmdom (fm_layers (ls_store s)))"] card_image [OF inj] by (metis fcard.rep_eq finite_fset)
  with cs(1) \<open>distinct cs\<close> fuel show False by (simp add: distinct_card)
qed

lemma loadLayer_store: "loadLayer fuel c s = Some (r, t) \<Longrightarrow> ls_store t = ls_store s"
proof (induction fuel arbitrary: c r t)
  case (Suc fuel)
  from Suc(2) show ?case
  proof (cases rule: loadLayer_cases)
    case (root diff sz cacheID d a)
    then show ?thesis using add_layer_fields(6) [OF root(3)] by simp
  next
    case (orphan diff sz cacheID parent d e)
    then show ?thesis using Suc(1) [OF orphan(4)] by simp
  next
    case (child diff sz cacheID parent d p u a)
    then show ?thesis using Suc(1) [OF child(4)] add_layer_fields(6) [OF child(5)] by simp
  qed simp_all
qed simp

lemma load_layers_enough:
  assumes acyclic: "\<And>c. \<not> (parent_of m)\<^sup>+\<^sup>+ c c" and fuel: "fcard (fmdom (fm_layers m)) < fuel" and "ls_store s = m"
  shows "\<exists>t. load_layers fuel cs s = Some t \<and> ls_store t = m"
  using assms(3)
proof (induction cs arbitrary: s)
  case (Cons c cs)
  obtain r u where u: "loadLayer fuel c s = Some (r, u)"
    using loadLayer_enough [of s fuel c] acyclic fuel Cons(2) by auto
  have st: "ls_store u = m" using loadLayer_store [OF u] Cons(2) by simp
  show ?case
  proof (cases r)
    case (Inl e)
    then show ?thesis using u Cons(1) [OF st] by simp
  next
    case (Inr a)
    show ?thesis using u Inr st Cons(1) by (auto split: option.splits)
  qed
qed simp

lemma load_mounts_enough:
  assumes acyclic: "\<And>c. \<not> (parent_of m)\<^sup>+\<^sup>+ c c" and fuel: "fcard (fmdom (fm_layers m)) < fuel" and "ls_store s = m"
  shows "load_mounts fuel ns s \<noteq> None"
  using assms(3)
proof (induction ns arbitrary: s)
  case (Cons n ns)
  have ll: "loadLayer fuel c s \<noteq> None" for c using loadLayer_enough [of s fuel c] acyclic fuel Cons(2) by auto
  have "\<exists>c. loadLayer fuel c s = None" if "loadMount fuel n s = None"
    using that by (auto simp: loadMount_def Let_def split: sum.splits option.splits if_splits)
  with ll have "loadMount fuel n s \<noteq> None" by blast
  then obtain e u where u: "loadMount fuel n s = Some (e, u)" by force
  have "ls_store u = m"
  proof -
    have st: "ls_store v = m" if "loadLayer fuel c s = Some (r, v)" for c r v using loadLayer_store [OF that] Cons(2) by simp
    show ?thesis
      using u Cons(2) st by (auto simp: loadMount_def Let_def split: sum.splits option.splits if_splits)
  qed
  then show ?case using u Cons(1) by simp
qed simp

text \<open>On a cycle of parents the recursion never ends: none of its layers is ever loaded.\<close>

definition only_loadable :: "layerStore \<Rightarrow> bool" where
  "only_loadable s \<longleftrightarrow> (\<forall>c. fmlookup (ls_layerMap s) c \<noteq> None \<longrightarrow> loadable (ls_store s) c)"

lemma loadLayer_only_loadable:
  assumes "only_loadable s" and "loadLayer fuel c s = Some (r, t)"
  shows "only_loadable t \<and> (case r of Inl e \<Rightarrow> True | Inr a \<Rightarrow> loadable (ls_store s) c)"
  using assms
proof (induction fuel arbitrary: c r t)
  case (Suc fuel)
  from Suc(3) show ?case
  proof (cases rule: loadLayer_cases)
    case (hit a)
    then show ?thesis using Suc(2) by (auto simp: only_loadable_def)
  next
    case (bad e)
    then show ?thesis using Suc(2) by simp
  next
    case (root diff sz cacheID d a)
    then have "loadable (ls_store s) c" by (auto intro: loadable_root)
    then show ?thesis using root Suc(2) add_layer_fields(3,6) [OF root(3)] by (auto simp: only_loadable_def)
  next
    case (orphan diff sz cacheID parent d e)
    then show ?thesis using Suc(1) [OF Suc(2) orphan(4)] by simp
  next
    case (child diff sz cacheID parent d p u a)
    then have u: "only_loadable u" "loadable (ls_store s) parent" using Suc(1) [OF Suc(2) child(4)] by simp_all
    then have "loadable (ls_store s) c" using child(2) by (auto intro: loadable_child)
    then show ?thesis using u child(6) loadLayer_store [OF child(4)] add_layer_fields(3,6) [OF child(5)] by (auto simp: only_loadable_def)
  qed
qed simp

lemma loadLayer_cycle:
  assumes "only_loadable s" and "(parent_of (ls_store s))\<^sup>+\<^sup>+ c c"
  shows "loadLayer fuel c s = None"
  using assms(2)
proof (induction fuel arbitrary: c)
  case (Suc fuel)
  have miss: "fmlookup (ls_layerMap s) c = None"
    using assms(1) Suc(2) loadable_no_cycle by (auto simp: only_loadable_def)
  obtain p where p: "parent_of (ls_store s) c p" "(parent_of (ls_store s))\<^sup>*\<^sup>* p c" using Suc(2) by (meson tranclpD)
  then obtain diff sz cacheID d where rd: "read_layer (ls_store s) c = Some (diff, sz, cacheID, p, d)" "p \<noteq> ''''" by (auto simp: parent_of_def)
  have "(parent_of (ls_store s))\<^sup>+\<^sup>+ p p" using p(2,1) by (rule rtranclp_into_tranclp1)
  from Suc(1) [OF this] loadLayer_miss [OF miss rd(1), of fuel] rd(2) show ?case by simp
qed simp

lemma load_layers_cycle:
  assumes "only_loadable s" and "c \<in> set cs" and "(parent_of (ls_store s))\<^sup>+\<^sup>+ c c"
  shows "load_layers fuel cs s = None"
  using assms
proof (induction cs arbitrary: s)
  case (Cons x cs)
  show ?case
  proof (cases "loadLayer fuel x s")
    case None
    then show ?thesis by simp
  next
    case (Some y)
    obtain r u where y: "y = (r, u)" by force
    note l = Some [unfolded y]
    have "c \<noteq> x" using loadLayer_cycle [OF Cons(2,4)] l by auto
    then have c: "c \<in> set cs" using Cons(3) by simp
    have u: "only_loadable u" "ls_store u = ls_store s" using loadLayer_only_loadable [OF Cons(2) l] loadLayer_store [OF l] by simp_all
    have "load_layers fuel cs u = None" using Cons(1) [OF u(1) c] Cons(4) u(2) by simp
    moreover have "load_layers fuel cs (retain_parent k u) = None" for k
      using Cons(1) [of "retain_parent k u", OF _ c] Cons(4) u retain_parent_graph [of u k]
      by (simp add: only_loadable_def same_graph_def)
    ultimately show ?thesis using l by (cases r) (auto simp: retain_parent_def split: option.splits)
  qed
qed simp

lemma open_enough:
  assumes ac: "\<And>c. \<not> (parent_of m)\<^sup>+\<^sup>+ c c" and fu: "fcard (fmdom (fm_layers m)) < fuel"
  shows "NewStoreFromGraphDriver fuel m driver \<noteq> None"
proof -
  let ?s = "\<lparr>ls_heap = fmempty, ls_layerMap = fmempty, ls_mounts = fmempty, ls_fresh = 0, ls_store = m, ls_driver = driver\<rparr>"
  obtain t where t: "load_layers fuel (fst (fms_List m)) ?s = Some t" "ls_store t = m"
    using load_layers_enough [of m fuel ?s "fst (fms_List m)", OF ac fu] by auto
  have "load_mounts fuel (snd (fms_List m)) t \<noteq> None" using load_mounts_enough [of m fuel t] ac fu t(2) by blast
  then show ?thesis using t(1) by (cases "fms_List m") (simp add: NewStoreFromGraphDriver_def)
qed

text \<open>
  C32. Opening a store returns if and only if no layer is its own ancestor according to the parent
  files; and then a recursion depth of one more than the number of layer directories is enough. On a
  cycle the recursion of \<open>loadLayer\<close> never ends, since nothing marks a layer that is being loaded.
\<close>

theorem open_terminates_iff_no_cycle:
  assumes m: "meta_ok m"
  shows "((\<exists>fuel. NewStoreFromGraphDriver fuel m driver \<noteq> None) \<longleftrightarrow> (\<forall>c. \<not> (parent_of m)\<^sup>+\<^sup>+ c c)) \<and>
    ((\<exists>fuel. NewStoreFromGraphDriver fuel m driver \<noteq> None) \<longrightarrow>
      (\<forall>fuel > fcard (fmdom (fm_layers m)). NewStoreFromGraphDriver fuel m driver \<noteq> None))"
proof -
  let ?s = "\<lparr>ls_heap = fmempty, ls_layerMap = fmempty, ls_mounts = fmempty, ls_fresh = 0, ls_store = m, ls_driver = driver\<rparr>"
  have never: "NewStoreFromGraphDriver fuel m driver = None" if c: "(parent_of m)\<^sup>+\<^sup>+ c c" for c fuel
  proof -
    obtain p where "parent_of m c p" using c by (meson tranclpD)
    then have "c \<in> set (fst (fms_List m))" by (intro readable_listed [OF m]) (auto simp: parent_of_def)
    then have "load_layers fuel (fst (fms_List m)) ?s = None" using c by (intro load_layers_cycle) (auto simp: only_loadable_def)
    then show ?thesis by (cases "fms_List m") (simp add: NewStoreFromGraphDriver_def)
  qed
  show ?thesis using open_enough [of m] never by (metis lessI)
qed

definition cyclic_meta :: fileMetadataStore where
  "cyclic_meta =
     (let hex = replicate 64 CHR ''a''; d = ''sha256:'' @ hex
      in \<lparr>fm_layers = fmap_of_list [((''sha256'', hex), fmap_of_list
            [(''diff'', d), (''size'', ''1''), (''cache-id'', hex), (''parent'', d)])], fm_mounts = fmempty\<rparr>)"

theorem open_terminates_iff_no_cycle_witness:
  "meta_ok cyclic_meta \<and> (\<forall>fuel. NewStoreFromGraphDriver fuel cyclic_meta {||} = None)"
proof -
  let ?d = "''sha256:'' @ replicate 64 CHR ''a''"
  have m: "meta_ok cyclic_meta" by code_simp
  have "map_option (\<lambda>(diff, sz, cacheID, p, d). p) (read_layer cyclic_meta ?d) = Some ?d" by code_simp
  then have "parent_of cyclic_meta ?d ?d" by (auto simp: parent_of_def)
  then have "(parent_of cyclic_meta)\<^sup>+\<^sup>+ ?d ?d" by blast
  then show ?thesis using m open_terminates_iff_no_cycle [OF m, of "{||}"] by blast
qed

end
