(* ===== verification/LayerSystem.thy ===== *)
theory LayerSystem
  imports LayerRestart
begin

text \<open>
  The layer store as a system: any number of concurrent callers, any failure of the driver or the disk,
  and restarts of the engine. Two invariants hold in every state: the counts of \<^verbatim>\<open>LayerRefs\<close>, and that the
  metadata on disk describes exactly the registered layers.
\<close>

section \<open>The metadata on disk\<close>

lemma read_layer_files:
  assumes "\<And>n. layer_file c n m = layer_file c n m'"
  shows "read_layer m c = read_layer m' c"
proof -
  have "fms_GetDiffID c m = fms_GetDiffID c m'" "fms_GetSize c m = fms_GetSize c m'" "fms_GetCacheID c m = fms_GetCacheID c m'"
    "fms_GetParent c m = fms_GetParent c m'" "fms_GetDescriptor c m = fms_GetDescriptor c m'"
    by (simp_all only: fms_GetDiffID_def fms_GetSize_def fms_GetCacheID_def fms_GetParent_def fms_GetDescriptor_def assms)
  then show ?thesis by (simp only: read_layer_def)
qed

lemma read_layer_cong: "fm_layers m = fm_layers m' \<Longrightarrow> read_layer m c = read_layer m' c"
  by (rule read_layer_files) (simp only: layer_file_def)

lemma loadable_cong:
  assumes "fm_layers m = fm_layers m'"
  shows "loadable m c = loadable m' c"
proof -
  have imp: "loadable n c \<Longrightarrow> loadable n' c" if eq: "fm_layers n = fm_layers n'" for n n' c
    by (induction rule: loadable.induct) (auto intro: loadable.intros simp: read_layer_cong [OF eq])
  show ?thesis using imp [OF assms] imp [OF assms [symmetric]] by blast
qed

text \<open>A committed layer is read back as it was written, and the other layers are not affected.\<close>

lemma read_committed:
  assumes c: "canonical (rl_chainID l)" "canonical (rl_diffID l)" "v1_ValidateID (rl_cacheID l)" "- (2 ^ 63) \<le> rl_size l" "rl_size l < 2 ^ 63"
    and p: "\<And>pc. parent = Some pc \<Longrightarrow> canonical pc"
    and m: "fmlookup (fm_layers m) (''sha256'', drop 7 (rl_chainID l)) = Some (storeLayer parent l (tx_TarSplit ts StartTransaction))"
  shows "read_layer m (rl_chainID l) =
    Some (rl_diffID l, rl_size l, rl_cacheID l, (case parent of None \<Rightarrow> '''' | Some pc \<Rightarrow> pc), rl_descriptor l)"
proof -
  have f: "layer_file (rl_chainID l) n m =
      (case fmlookup (storeLayer parent l (tx_TarSplit ts StartTransaction)) n of None \<Rightarrow> Inl MetaNotExist | Some c \<Rightarrow> Inr c)" for n
    using canonical_digest(2) [OF c(1)] m by (simp add: layer_file_def map_get_def)
  have id: "trim_space (rl_cacheID l) = rl_cacheID l" "stringIDRegexp (rl_cacheID l)"
    using trim_space_nospace [OF ValidateID_no_space [OF c(3)]] c(3) by (simp_all add: stringIDRegexp_def)
  have "read_digest (rl_diffID l) = Inr (rl_diffID l)" "\<And>pc. parent = Some pc \<Longrightarrow> read_digest pc = Inr pc"
    using canonical_digest(3) c(2) p by auto
  then show ?thesis
    using id parse_int64_itoa [OF c(4,5)]
    by (cases parent) (simp_all add: read_layer_def fms_GetDiffID_def fms_GetSize_def fms_GetCacheID_def fms_GetParent_def fms_GetDescriptor_def
        f storeLayer_def Let_def tx_TarSplit_def StartTransaction_def tx_SetDiffID_def tx_SetSize_def tx_SetCacheID_def
        tx_SetDescriptor_def tx_SetParent_def)
qed

lemma read_other:
  assumes "getLayerDirectory c = Some dir" "c' \<noteq> c" "\<And>d. d \<noteq> dir \<Longrightarrow> fmlookup (fm_layers m') d = fmlookup (fm_layers m) d"
  shows "read_layer m' c' = read_layer m c'"
proof -
  have "layer_file c' n m' = layer_file c' n m" for n
  proof (cases "getLayerDirectory c'")
    case (Some d)
    obtain alg hex where dir: "dir = (alg, hex)" by force
    obtain alg' hex' where d: "d = (alg', hex')" by force
    have "d \<noteq> dir" using getLayerDirectory_Some [of c alg hex] getLayerDirectory_Some [of c' alg' hex'] assms(1,2) Some dir d by auto
    then show ?thesis using Some assms(3) by (simp add: layer_file_def map_get_def)
  qed (simp add: layer_file_def)
  then show ?thesis by (rule read_layer_files)
qed

lemma read_removed:
  assumes "getLayerDirectory c = Some dir"
  shows "read_layer (fms_Remove c m) c = None"
  using assms by (simp add: read_layer_def fms_GetDiffID_def layer_file_def fms_Remove_def)

section \<open>Disk and memory agree\<close>

text \<open>
  The registered layers have canonical identifiers, each computed from its parent's and its difference;
  each is described by its metadata; and no other metadata can be read.
\<close>

definition chained :: "(string \<Rightarrow> string) \<Rightarrow> layerStore \<Rightarrow> roLayer \<Rightarrow> bool" where
  "chained H s l \<longleftrightarrow> rl_chainID l = (case chain_of (rl_parent l) s of None \<Rightarrow> rl_diffID l | Some pc \<Rightarrow> createChainIDFromParent H pc [rl_diffID l])"

definition disk_ok :: "(string \<Rightarrow> string) \<Rightarrow> layerStore \<Rightarrow> bool" where
  "disk_ok H s \<longleftrightarrow> meta_ok (ls_store s) \<and> (\<forall>c. fmlookup (ls_layerMap s) c \<noteq> None \<longrightarrow> canonical c) \<and>
     (\<forall>c. read_layer (ls_store s) c \<noteq> None \<longrightarrow> fmlookup (ls_layerMap s) c \<noteq> None) \<and>
     (\<forall>a l. live s a \<and> fmlookup (ls_heap s) a = Some l \<longrightarrow> described s l \<and> chained H s l)"

lemma disk_okD:
  assumes "disk_ok H s"
  shows "meta_ok (ls_store s)" "\<And>c a. fmlookup (ls_layerMap s) c = Some a \<Longrightarrow> canonical c"
    "\<And>c. read_layer (ls_store s) c \<noteq> None \<Longrightarrow> fmlookup (ls_layerMap s) c \<noteq> None"
    "\<And>a l. live s a \<Longrightarrow> fmlookup (ls_heap s) a = Some l \<Longrightarrow> described s l"
    "\<And>a l. live s a \<Longrightarrow> fmlookup (ls_heap s) a = Some l \<Longrightarrow> chained H s l"
  using assms unfolding disk_ok_def by blast+

text \<open>Counts and references, the mounts and the driver do not matter.\<close>

definition core :: "roLayer \<Rightarrow> roLayer" where
  "core l = l\<lparr>rl_referenceCount := 0, rl_references := {||}\<rparr>"

lemma core_simps [simp]:
  "rl_chainID (core l) = rl_chainID l" "rl_diffID (core l) = rl_diffID l" "rl_parent (core l) = rl_parent l"
  "rl_cacheID (core l) = rl_cacheID l" "rl_size (core l) = rl_size l" "rl_descriptor (core l) = rl_descriptor l"
  by (simp_all add: core_def)

definition same_core :: "layerStore \<Rightarrow> layerStore \<Rightarrow> bool" where
  "same_core s t \<longleftrightarrow> ls_layerMap t = ls_layerMap s \<and> fm_layers (ls_store t) = fm_layers (ls_store s) \<and>
     (\<forall>a. map_option core (fmlookup (ls_heap t) a) = map_option core (fmlookup (ls_heap s) a))"

lemma same_core_refl [simp]: "same_core s s" by (simp add: same_core_def)
lemma same_core_trans: "same_core s t \<Longrightarrow> same_core t u \<Longrightarrow> same_core s u" by (simp add: same_core_def)
lemma same_core_sym: "same_core s t \<Longrightarrow> same_core t s" by (simp add: same_core_def)

lemma same_core_upd:
  assumes "\<And>l. core (f l) = core l"
  shows "same_core s (upd_layer a f s)"
  using assms by (auto simp: same_core_def upd_layer_lookup option.map_comp comp_def)

lemma same_core_outside [simp]:
  "same_core s (s\<lparr>ls_driver := d\<rparr>)" "same_core s (s\<lparr>ls_mounts := m\<rparr>)" "same_core s (s\<lparr>ls_fresh := n\<rparr>)"
  by (simp_all add: same_core_def)

lemma same_core_disk_imp:
  assumes c: "same_core s t" and d: "disk_ok H s"
  shows "disk_ok H t"
proof -
  have m: "ls_layerMap t = ls_layerMap s" and f: "fm_layers (ls_store t) = fm_layers (ls_store s)"
    and h: "map_option core (fmlookup (ls_heap t) a) = map_option core (fmlookup (ls_heap s) a)" for a
    using c by (simp_all add: same_core_def)
  have lk: "\<exists>k. fmlookup (ls_heap s) a = Some k \<and> core k = core l" if "fmlookup (ls_heap t) a = Some l" for a l
    using h [of a] that by (cases "fmlookup (ls_heap s) a") auto
  have chain: "chain_of p t = chain_of p s" for p
  proof (cases p)
    case (Some a)
    have "map_option rl_chainID (map_option core (fmlookup (ls_heap t) a)) = map_option rl_chainID (map_option core (fmlookup (ls_heap s) a))"
      using h [of a] by simp
    then show ?thesis by (simp add: Some chain_of_def option.map_comp comp_def)
  qed (simp add: chain_of_def)
  have fields: "described t l = described s k" "chained H t l = chained H s k" if eq: "core k = core l" for k l
  proof -
    have e: "rl_chainID k = rl_chainID l" "rl_diffID k = rl_diffID l" "rl_parent k = rl_parent l" "rl_cacheID k = rl_cacheID l"
      "rl_size k = rl_size l" "rl_descriptor k = rl_descriptor l"
      using eq by (metis core_simps)+
    show "described t l = described s k" "chained H t l = chained H s k"
      by (simp_all only: described_def chained_def read_layer_cong [OF f] loadable_cong [OF f] e chain)
  qed
  show ?thesis
    unfolding disk_ok_def
  proof (intro conjI allI impI)
    show "meta_ok (ls_store t)" using disk_okD(1) [OF d] f by (simp add: meta_ok_def)
    show "canonical x" if "fmlookup (ls_layerMap t) x \<noteq> None" for x using that disk_okD(2) [OF d] m by auto
    show "fmlookup (ls_layerMap t) x \<noteq> None" if "read_layer (ls_store t) x \<noteq> None" for x
      using that disk_okD(3) [OF d] m read_layer_cong [OF f] by metis
    fix a l assume a: "live t a \<and> fmlookup (ls_heap t) a = Some l"
    then obtain k where k: "fmlookup (ls_heap s) a = Some k" "core k = core l" using lk by blast
    have "rl_chainID k = rl_chainID l" using k(2) by (metis core_simps(1))
    then have "live s a" using a k(1) m by (auto simp: live_def)
    then show "described t l" "chained H t l" using disk_okD(4,5) [OF d _ k(1)] fields [OF k(2)] by simp_all
  qed
qed

lemma same_core_disk: "same_core s t \<Longrightarrow> disk_ok H t \<longleftrightarrow> disk_ok H s"
  using same_core_disk_imp same_core_sym by blast

section \<open>The critical sections keep the disk\<close>

lemma getWithoutLock_core: "getWithoutLock c s = (r, t) \<Longrightarrow> same_core s t"
  by (auto simp: getWithoutLock_def core_def intro!: same_core_upd split: option.splits)

lemma getReference_core: "getReference a s = (r, t) \<Longrightarrow> same_core s t"
  by (auto simp: getReference_def core_def Let_def intro!: same_core_trans [OF same_core_outside(3) same_core_upd] split: option.splits)

lemma deleteReference_core: "same_core s (deleteReference a r s)"
  unfolding deleteReference_def by (rule same_core_upd) (simp add: core_def)

lemma ls_Get_core: "ls_Get c s = (r, t) \<Longrightarrow> same_core s t"
  by (auto simp: ls_Get_def dest!: getWithoutLock_core getReference_core intro: same_core_trans split: prod.splits option.splits)

lemma register_begin_core: "register_begin parent s = (r, t) \<Longrightarrow> same_core s t"
  by (auto simp: register_begin_def dest!: getWithoutLock_core split: if_splits prod.splits option.splits)

text \<open>Removing a layer nothing holds.\<close>

lemma fms_Remove_layers: "getLayerDirectory c = Some dir \<Longrightarrow> fm_layers (fms_Remove c m) = fmdrop dir (fm_layers m)"
  by (simp add: fms_Remove_def)

lemma disk_drop:
  assumes d: "disk_ok H s" and inv: "ls_inv F s" and a: "live s a" "fmlookup (ls_heap s) a = Some l" "rl_referenceCount l = 0"
  shows "disk_ok H (s\<lparr>ls_store := fms_Remove (rl_chainID l) (ls_store s), ls_layerMap := fmdrop (rl_chainID l) (ls_layerMap s)\<rparr>)"
    (is "disk_ok H ?t")
proof -
  note sh = ls_invD(1) [OF inv]
  have map_a: "fmlookup (ls_layerMap s) (rl_chainID l) = Some a" using a by (auto simp: live_def)
  let ?dir = "(''sha256'', drop 7 (rl_chainID l))"
  have dir: "getLayerDirectory (rl_chainID l) = Some ?dir" using canonical_digest(2) [OF disk_okD(2) [OF d map_a]] .
  have live: "live ?t b \<longleftrightarrow> live s b \<and> b \<noteq> a" for b by (rule live_drop [OF a(2,1)]) simp_all
  have other: "read_layer (ls_store ?t) c = read_layer (ls_store s) c" if "c \<noteq> rl_chainID l" for c
    using that by (intro read_other [OF dir]) (auto simp: fms_Remove_layers [OF dir])
  have chain: "chain_of p ?t = chain_of p s" for p by (cases p) (simp_all add: chain_of_def)
  have "fcard (children s a) = 0" using ls_invD(3) [OF inv a(1,2)] a(3) by simp
  then have nochild: "rl_parent k \<noteq> Some a" if "live s b" "fmlookup (ls_heap s) b = Some k" for b k
    using that children_iff [OF sh, of b a] by (auto simp: has_parent_def fcard_0_eq)
  have ne: "rl_chainID k \<noteq> rl_chainID l" if "live s b" "fmlookup (ls_heap s) b = Some k" "b \<noteq> a" for b k
    using that map_a by (auto simp: live_def)
  have load: "loadable (ls_store ?t) (rl_chainID k)" if "live s b" "fmlookup (ls_heap s) b = Some k" "b \<noteq> a" for b k
    using that
  proof (induction b arbitrary: k rule: less_induct)
    case (less b)
    have rd: "read_layer (ls_store ?t) (rl_chainID k) = Some (rl_diffID k, rl_size k, rl_cacheID k,
        (case chain_of (rl_parent k) s of None \<Rightarrow> '''' | Some c \<Rightarrow> c), rl_descriptor k)"
      using other [OF ne [OF less(2-4)]] disk_okD(4) [OF d less(2,3)] by (simp add: described_def)
    show ?case
    proof (cases "rl_parent k")
      case None
      then show ?thesis using rd by (auto simp: chain_of_def intro: loadable_root)
    next
      case (Some p)
      have p: "p < b" "live s p" "p \<noteq> a" using ls_shapeD(4) [OF sh less(2,3) Some] nochild [OF less(2,3)] Some by auto
      then obtain kp where kp: "fmlookup (ls_heap s) p = Some kp" by (auto simp: live_def)
      have "loadable (ls_store ?t) (rl_chainID kp)" using less(1) [OF p(1,2) kp p(3)] .
      then show ?thesis using rd Some kp by (auto simp: chain_of_def intro: loadable_child)
    qed
  qed
  show ?thesis
    unfolding disk_ok_def
  proof (intro conjI allI impI)
    show "meta_ok (ls_store ?t)" using disk_okD(1) [OF d] by (auto simp: meta_ok_def fms_Remove_layers [OF dir])
    show "canonical c" if "fmlookup (ls_layerMap ?t) c \<noteq> None" for c using that disk_okD(2) [OF d] by (auto split: if_splits)
    show "fmlookup (ls_layerMap ?t) c \<noteq> None" if "read_layer (ls_store ?t) c \<noteq> None" for c
    proof -
      have "c \<noteq> rl_chainID l" using that read_removed [OF dir] by auto
      then show ?thesis using that other disk_okD(3) [OF d, of c] by simp
    qed
    fix b k assume b: "live ?t b \<and> fmlookup (ls_heap ?t) b = Some k"
    then have k: "live s b" "b \<noteq> a" "fmlookup (ls_heap s) b = Some k" using live by auto
    show "chained H ?t k" using disk_okD(5) [OF d k(1,3)] by (simp only: chained_def chain)
    show "described ?t k"
      using disk_okD(4) [OF d k(1,3)] load [OF k(1,3,2)] other [OF ne [OF k(1,3,2)]] by (simp only: described_def chain)
  qed
qed

lemma releaseLayer_disk:
  assumes "ls_inv (F + {#a#}) s" and "disk_ok H s" and "releaseLayer env 0 [] a s = (r, t)"
  shows "disk_ok H t"
proof -
  have "ls_inv F t \<and> (\<forall>m. r \<noteq> ReleasePanic m) \<and> keeps s t \<and> disk_ok H t"
  proof (rule releaseLayer_rule [OF assms(1) _ assms(3), of "disk_ok H"])
    show "disk_ok H (upd_layer a (\<lambda>l. l\<lparr>rl_referenceCount := n l\<rparr>) s)" if "disk_ok H s" for s a n
      using that same_core_upd [of "\<lambda>l. l\<lparr>rl_referenceCount := n l\<rparr>" s a] same_core_disk by (simp add: core_def)
    show "disk_ok H (s\<lparr>ls_driver := d\<rparr>)" if "disk_ok H s" for s d using that same_core_disk [OF same_core_outside(1)] by blast
  qed (use assms(2) disk_drop in auto)
  then show ?thesis by simp
qed

text \<open>Publishing a new layer.\<close>

lemma tx_Commit_layers:
  assumes "tx_Commit c tx m = (None, m')" "getLayerDirectory c = Some dir"
  shows "fm_layers m' = fmupd dir tx (fm_layers m)"
  using assms by (auto simp: tx_Commit_def split: if_splits)

lemma disk_publish:
  assumes d: "disk_ok H s" and inv: "ls_inv (F + tok (rl_parent l)) s" and new: "fmlookup (ls_layerMap s) (rl_chainID l) = None"
    and l: "canonical (rl_chainID l)" "canonical (rl_diffID l)" "v1_ValidateID (rl_cacheID l)" "- (2 ^ 63) \<le> rl_size l" "rl_size l < 2 ^ 63"
      "chained H s l" "rl_references l = {||}"
    and c: "tx_Commit (rl_chainID l) (storeLayer (chain_of (rl_parent l) s) l (tx_TarSplit ts StartTransaction)) (ls_store s) = (None, meta)"
    and add: "add_layer l (s\<lparr>ls_driver := drv, ls_store := meta\<rparr>) = (a, t)"
  shows "disk_ok H t"
proof -
  let ?u = "s\<lparr>ls_driver := drv, ls_store := meta\<rparr>"
  let ?dir = "(''sha256'', drop 7 (rl_chainID l))"
  note dir = canonical_digest(2) [OF l(1)] and t = add_layer_fields [OF add]
  note fl = tx_Commit_layers [OF c dir]
  have invu: "ls_inv (F + tok (rl_parent l)) ?u" using inv by simp
  have liveu: "live ?u b = live s b" for b by (simp add: live_def)
  have par: "live ?u p" if "rl_parent l = Some p" for p using ls_invD(2) [OF invu, of p] that by simp
  have newu: "fmlookup (ls_layerMap ?u) (rl_chainID l) = None" using new by simp
  have live: "live t b \<longleftrightarrow> live ?u b \<or> b = a" and na: "\<not> live ?u a" for b
    by (rule add_layer_graph [OF ls_invD(1) [OF invu] newu par l(7) add]; assumption)+
  have st: "ls_store t = meta" using t(6) by simp
  have other: "read_layer (ls_store t) x = read_layer (ls_store s) x" if "x \<noteq> rl_chainID l" for x
    using that st by (intro read_other [OF dir]) (simp_all add: fl)
  have pchain: "canonical pc" if pc: "chain_of (rl_parent l) s = Some pc" for pc
  proof -
    obtain p k where k: "rl_parent l = Some p" "fmlookup (ls_heap s) p = Some k" "rl_chainID k = pc"
      using pc by (auto simp: chain_of_def split: option.splits)
    then have "live s p" using par liveu by simp
    then show ?thesis using disk_okD(2) [OF d] k by (auto simp: live_def)
  qed
  have chain: "chain_of q t = chain_of q s" if "\<And>b. q = Some b \<Longrightarrow> live s b" for q
    using that na liveu t(2) by (cases q) (auto simp: chain_of_def)
  have rd: "read_layer (ls_store t) (rl_chainID l) =
      Some (rl_diffID l, rl_size l, rl_cacheID l, (case chain_of (rl_parent l) s of None \<Rightarrow> '''' | Some pc \<Rightarrow> pc), rl_descriptor l)"
    using pchain fl st by (intro read_committed [OF l(1-5)]) auto
  have ne: "rl_chainID k \<noteq> rl_chainID l" if "live s b" "fmlookup (ls_heap s) b = Some k" for b k
    using that new by (auto simp: live_def)
  have mono: "loadable (ls_store t) x" if "loadable (ls_store s) x" for x
    using that
  proof (induction rule: loadable.induct)
    case (loadable_root x diff sz cid ds)
    then have "x \<noteq> rl_chainID l" using disk_okD(3) [OF d, of x] new by auto
    then show ?case using other loadable_root by (auto intro: loadable.loadable_root)
  next
    case (loadable_child x diff sz cid p ds)
    then have "x \<noteq> rl_chainID l" using disk_okD(3) [OF d, of x] new by auto
    then show ?case using other loadable_child by (auto intro: loadable.loadable_child)
  qed
  have chain_l: "chain_of (rl_parent l) t = chain_of (rl_parent l) s" using chain par liveu by blast
  have load_l: "loadable (ls_store t) (rl_chainID l)"
  proof (cases "rl_parent l")
    case None
    then show ?thesis using rd by (auto simp: chain_of_def intro: loadable_root)
  next
    case (Some p)
    then obtain k where k: "fmlookup (ls_heap s) p = Some k" "live s p" using par liveu by (auto simp: live_def)
    then have "loadable (ls_store t) (rl_chainID k)" using disk_okD(4) [OF d k(2,1)] mono by (simp add: described_def)
    then show ?thesis using rd Some k by (auto simp: chain_of_def intro: loadable_child)
  qed
  show ?thesis
    unfolding disk_ok_def
  proof (intro conjI allI impI)
    show "meta_ok (ls_store t)"
      using disk_okD(1) [OF d] canonical_digest(1,4) [OF l(1)] by (auto simp: meta_ok_def st fl)
    show "canonical x" if "fmlookup (ls_layerMap t) x \<noteq> None" for x
      using that disk_okD(2) [OF d] l(1) t(3) by (auto split: if_splits)
    show "fmlookup (ls_layerMap t) x \<noteq> None" if "read_layer (ls_store t) x \<noteq> None" for x
      using that other [of x] disk_okD(3) [OF d, of x] t(3) by (cases "x = rl_chainID l") simp_all
    fix b k assume b: "live t b \<and> fmlookup (ls_heap t) b = Some k"
    have "described t k \<and> chained H t k"
    proof (cases "b = a")
      case True
      then have "k = l" using b t(2) by simp
      then show ?thesis using rd load_l l(6) chain_l by (simp only: described_def chained_def)
    next
      case False
      then have k: "fmlookup (ls_heap s) b = Some k" "live s b" using b t(2) live liveu by auto
      have ck: "chain_of (rl_parent k) t = chain_of (rl_parent k) s"
        using chain ls_shapeD(4) [OF ls_invD(1) [OF inv] k(2,1)] by blast
      have "loadable (ls_store t) (rl_chainID k)" using disk_okD(4) [OF d k(2,1)] mono by (simp add: described_def)
      then show ?thesis using disk_okD(4,5) [OF d k(2,1)] other [OF ne [OF k(2,1)]] ck by (simp only: described_def chained_def)
    qed
    then show "described t k" "chained H t k" by simp_all
  qed
qed

lemma handle_result_core: "handle_result (getReference a s) = (r, t) \<Longrightarrow> same_core s t"
  by (cases "getReference a s") (auto simp: handle_result_def dest!: getReference_core split: option.splits)

lemma register_cleanup_core: "same_core s (register_cleanup env s)"
  by (simp add: register_cleanup_def)

lemma register_publish_disk:
  assumes H: "\<And>x. canonical (H x)" and tar: "tar_ok env" and inv: "ls_inv (F + tok p) s" and d: "disk_ok H s"
    and pub: "register_publish H env descriptor p s = ((failed, r), t)"
  shows "disk_ok H t"
  using pub
proof (cases rule: register_publish_cases)
  case (error e dr)
  then show ?thesis using d same_core_disk [OF same_core_outside(1)] by blast
next
  case (existing sz diff ts a u v)
  have "same_core s t"
    using same_core_trans [OF same_core_trans [OF same_core_trans [OF same_core_outside(1) getWithoutLock_core [OF existing(2)]]
      handle_result_core [OF existing(3)]] register_cleanup_core] existing(5) by simp
  then show ?thesis using d same_core_disk by blast
next
  case (panic sz diff ts tx m m')
  have "canonical diff" using tar panic(1) by (simp add: tar_ok_def)
  from canonical_digest(2) [OF new_layer_digest [OF H this]] show ?thesis using panic(2) tx_Commit_no_panic by fastforce
next
  case (fresh sz diff ts meta a v)
  let ?l = "new_layer H env descriptor p sz diff s"
  have tr: "canonical diff" "v1_ValidateID (re_cacheID env)" "- (2 ^ 63) \<le> sz" "sz < 2 ^ 63" using tar fresh(1) by (simp_all add: tar_ok_def)
  have ch: "canonical (rl_chainID ?l)" by (rule new_layer_digest [OF H tr(1)])
  have "disk_ok H v"
  proof (rule disk_publish [OF d _ fresh(2) ch _ _ _ _ _ _ _ fresh(4)])
    show "ls_inv (F + tok (rl_parent ?l)) s" using inv by simp
    show "chained H s ?l" by (cases "chain_of p s") (simp_all add: chained_def new_layer_def)
    show "tx_Commit (rl_chainID ?l) (storeLayer (chain_of (rl_parent ?l) s) ?l (tx_TarSplit ts StartTransaction)) (ls_store s) = (None, meta)"
      using fresh(3) by simp
  qed (use tr in \<open>simp_all add: new_layer_def\<close>)
  then show ?thesis using same_core_disk [OF handle_result_core [OF fresh(5)]] by blast
qed

text \<open>Mounts have their own directories.\<close>

lemma same_core_meta: "fm_layers m = fm_layers (ls_store s) \<Longrightarrow> same_core s (s\<lparr>ls_store := m\<rparr>)"
  by (simp add: same_core_def)

lemma saveMount_core:
  assumes "saveMount n m s = (r, t)"
  shows "same_core s t"
proof -
  have w: "fm_layers (fold (\<lambda>w. w) ws st) = fm_layers st"
    if "\<forall>w \<in> set ws. \<forall>st. fm_layers (w st) = fm_layers st" for ws :: "(fileMetadataStore \<Rightarrow> fileMetadataStore) list" and st
    using that by (induction ws arbitrary: st) simp_all
  let ?ws = "[fms_SetMountID (ml_name m) (ml_mountID m)] @
            (if ml_initID m \<noteq> '''' then [fms_SetInitID (ml_name m) (ml_initID m)] else []) @
            (case chain_of (ml_parent m) s of None \<Rightarrow> [] | Some c \<Rightarrow> [fms_SetMountParent (ml_name m) c])"
  have "\<forall>w \<in> set (take n ?ws). \<forall>st. fm_layers (w st) = fm_layers st"
    by (auto simp: fms_SetMountID_def fms_SetInitID_def fms_SetMountParent_def set_mount_file_def split: option.splits dest!: in_set_takeD)
  from w [OF this] have "same_core s (s\<lparr>ls_store := fold (\<lambda>w. w) (take n ?ws) (ls_store s)\<rparr>)" by (rule same_core_meta)
  then show ?thesis using assms by (auto simp: saveMount_def Let_def same_core_def split: if_splits)
qed

lemma create_mount_core:
  assumes "create_mount env name init mountID p s = (x, t)"
  shows "same_core s t"
proof -
  obtain ri u where i: "(if init then initMount (me_initMount env) mountID s else (Inr '''', s)) = (ri, u)" by fastforce
  have u: "same_core s u" using i initMount_frame [of "me_initMount env" mountID s ri u] by (cases init) auto
  show ?thesis
  proof (cases "(\<exists>e. ri = Inl e) \<or> \<not> me_CreateReadWrite env")
    case True
    then have "t = u" using assms i by (cases ri) (auto simp: create_mount_def)
    with u show ?thesis by simp
  next
    case False
    then obtain initID where ri: "ri = Inr initID" by (cases ri) auto
    let ?m = "\<lparr>ml_name = name, ml_mountID = mountID, ml_initID = initID, ml_parent = p, ml_references = {||}\<rparr>"
    let ?u = "u\<lparr>ls_driver := finsert mountID (ls_driver u)\<rparr>"
    obtain se v where sv: "saveMount (me_saveMount env) ?m ?u = (se, v)" by fastforce
    have "same_core s v" using u saveMount_core [OF sv] same_core_trans same_core_outside(1) by blast
    moreover have "same_core v t"
      using assms i ri False sv by (cases se) (auto simp: create_mount_def Let_def ml_getReference_def same_core_def)
    ultimately show ?thesis by (rule same_core_trans)
  qed
qed

lemma GetRWLayer_core: "GetRWLayer name s = (r, t) \<Longrightarrow> same_core s t"
  by (auto simp: GetRWLayer_def ml_getReference_def Let_def same_core_def split: option.splits)

lemma release_mount_core: "release_mount env h s = (r, t) \<Longrightarrow> same_core s t"
  by (auto simp: release_mount_def Let_def fms_RemoveMount_def same_core_def split: option.splits if_splits)

text \<open>Reopening the store.\<close>

lemma disk_loadable:
  assumes d: "disk_ok H s" and sh: "ls_shape s"
  shows "loadable (ls_store s) c \<longleftrightarrow> fmlookup (ls_layerMap s) c \<noteq> None"
proof
  assume "loadable (ls_store s) c"
  then have "read_layer (ls_store s) c \<noteq> None" by (cases rule: loadable.cases) simp_all
  then show "fmlookup (ls_layerMap s) c \<noteq> None" by (rule disk_okD(3) [OF d])
next
  assume "fmlookup (ls_layerMap s) c \<noteq> None"
  then obtain a where a: "fmlookup (ls_layerMap s) c = Some a" by blast
  then obtain l where "fmlookup (ls_heap s) a = Some l" "rl_chainID l = c" using ls_shapeD(1) [OF sh] by blast
  then show "loadable (ls_store s) c" using disk_okD(4) [OF d live_in_map [OF sh a]] by (auto simp: described_def)
qed

text \<open>What a layer is, without its address: all but the counts, and its parent by identifier.\<close>

definition layer_view :: "layerStore \<Rightarrow> string \<Rightarrow> (string \<times> int \<times> string \<times> string option \<times> string) option" where
  "layer_view s c =
     (case fmlookup (ls_layerMap s) c of
        None \<Rightarrow> None
      | Some a \<Rightarrow> map_option (\<lambda>l. (rl_diffID l, rl_size l, rl_cacheID l, chain_of (rl_parent l) s, rl_descriptor l)) (fmlookup (ls_heap s) a))"

lemma described_view:
  assumes "ls_shape s" and d: "\<And>a l. live s a \<Longrightarrow> fmlookup (ls_heap s) a = Some l \<Longrightarrow> described s l"
    and can: "\<And>c. fmlookup (ls_layerMap s) c \<noteq> None \<Longrightarrow> c \<noteq> ''''"
  shows "layer_view s c = (if fmlookup (ls_layerMap s) c = None then None else
    map_option (\<lambda>(diff, sz, cacheID, p, ds). (diff, sz, cacheID, if p = '''' then None else Some p, ds)) (read_layer (ls_store s) c))"
proof (cases "fmlookup (ls_layerMap s) c")
  case None
  then show ?thesis by (simp add: layer_view_def)
next
  case (Some a)
  then obtain l where l: "fmlookup (ls_heap s) a = Some l" "rl_chainID l = c" using ls_shapeD(1) [OF assms(1)] by blast
  have live: "live s a" by (rule live_in_map [OF assms(1) Some])
  have ne: "pc \<noteq> ''''" if "chain_of (rl_parent l) s = Some pc" for pc
  proof -
    obtain p k where "rl_parent l = Some p" "fmlookup (ls_heap s) p = Some k" "rl_chainID k = pc"
      using \<open>chain_of (rl_parent l) s = Some pc\<close> by (auto simp: chain_of_def split: option.splits)
    then show ?thesis using ls_shapeD(4) [OF assms(1) live l(1)] can [of pc] by (auto simp: live_def)
  qed
  show ?thesis
    using d [OF live l(1)] l Some ne by (cases "chain_of (rl_parent l) s") (auto simp: layer_view_def described_def)
qed

lemma reopen_spec:
  assumes inv: "ls_inv F s" and d: "disk_ok H s" and o: "NewStoreFromGraphDriver fuel (ls_store s) driver = Some t"
  shows "ls_inv {#} t" "disk_ok H t" "\<not> held t h" "layer_view t = layer_view s"
proof -
  note sh = ls_invD(1) [OF inv]
  have ok: "opened_ok (ls_store s) t" by (rule NewStore_opened [OF disk_okD(1) [OF d] o])
  then show inv': "ls_inv {#} t" by (simp add: opened_ok_def)
  note sht = ls_invD(1) [OF inv']
  have st: "ls_store t = ls_store s" and desc: "\<And>a l. fmlookup (ls_heap t) a = Some l \<Longrightarrow> described t l"
    and refs: "\<And>a l. fmlookup (ls_heap t) a = Some l \<Longrightarrow> rl_references l = {||}"
    and dom: "\<And>c. fmlookup (ls_layerMap t) c \<noteq> None \<longleftrightarrow> fmlookup (ls_layerMap s) c \<noteq> None"
    using ok disk_loadable [OF d sh] by (auto simp: opened_ok_def)
  show "\<not> held t h" using refs by (auto simp: held_def)
  have can: "canonical c" if "fmlookup (ls_layerMap s) c \<noteq> None" for c using that disk_okD(2) [OF d] by blast
  have ne: "c \<noteq> ''''" if "fmlookup (ls_layerMap s) c \<noteq> None" for c using canonical_nonempty [OF can [OF that]] .
  have vs: "layer_view s c = (if fmlookup (ls_layerMap s) c = None then None else
      map_option (\<lambda>(diff, sz, cacheID, p, ds). (diff, sz, cacheID, if p = '''' then None else Some p, ds)) (read_layer (ls_store s) c))" for c
    by (rule described_view [OF sh disk_okD(4) [OF d] ne]; assumption)
  have vt: "layer_view t c = (if fmlookup (ls_layerMap t) c = None then None else
      map_option (\<lambda>(diff, sz, cacheID, p, ds). (diff, sz, cacheID, if p = '''' then None else Some p, ds)) (read_layer (ls_store t) c))" for c
    using dom ne desc by (intro described_view [OF sht]) blast+
  show view: "layer_view t = layer_view s"
    unfolding fun_eq_iff vs vt st using dom by metis
  have "chained H t l" if l: "live t a" "fmlookup (ls_heap t) a = Some l" for a l
  proof -
    have mt: "fmlookup (ls_layerMap t) (rl_chainID l) = Some a" using l by (auto simp: live_def)
    then obtain b where b: "fmlookup (ls_layerMap s) (rl_chainID l) = Some b" using dom [of "rl_chainID l"] by auto
    then obtain k where k: "fmlookup (ls_heap s) b = Some k" "rl_chainID k = rl_chainID l" using ls_shapeD(1) [OF sh] by blast
    have "chained H s k" using disk_okD(5) [OF d live_in_map [OF sh b] k(1)] .
    moreover have "rl_diffID l = rl_diffID k" "chain_of (rl_parent l) t = chain_of (rl_parent k) s"
      using fun_cong [OF view, of "rl_chainID l"] mt b l(2) k(1) by (simp_all add: layer_view_def)
    ultimately show ?thesis using k(2) by (simp only: chained_def)
  qed
  then show "disk_ok H t"
    using disk_okD(1,3) [OF d] can dom desc unfolding disk_ok_def st by blast
qed

lemma ls_Release_disk:
  assumes inv: "ls_inv F s" and d: "disk_ok H s" and rel: "ls_Release env h s = (r, t)"
  shows "disk_ok H t"
proof (cases "held s h")
  case True
  obtain a l where a: "fmlookup (ls_layerMap s) (lh_ChainID h) = Some a" "fmlookup (ls_heap s) a = Some l" "live s a"
    "lh_ref h |\<in>| rl_references l"
    using held_live [OF inv True] by metis
  have r: "releaseLayer env 0 [] a (deleteReference a (lh_ref h) s) = (r, t)"
    using rel a by (simp add: ls_Release_def hasReference_def)
  have "disk_ok H (deleteReference a (lh_ref h) s)" using d same_core_disk [OF deleteReference_core] by blast
  then show ?thesis using releaseLayer_disk [OF deleteReference_inv [OF inv a(3,2,4)] _ r] by blast
next
  case False
  have "t = s"
  proof (cases "fmlookup (ls_layerMap s) (lh_ChainID h)")
    case (Some a)
    then obtain l where l: "fmlookup (ls_heap s) a = Some l" "rl_chainID l = lh_ChainID h"
      using ls_shapeD(1) [OF ls_invD(1) [OF inv]] by blast
    then have "\<not> hasReference (lh_ref h) l" using False by (auto simp: held_def hasReference_def)
    then show ?thesis using rel Some l by (auto simp: ls_Release_def)
  qed (use rel in \<open>auto simp: ls_Release_def\<close>)
  with d show ?thesis by simp
qed

section \<open>The system\<close>

text \<open>
  The store under any number of concurrent callers. A state has the retentions of the calls that are
  between two critical sections, the store, and whether a call has panicked; each step is one critical
  section, or a restart, which opens a new store on the metadata. Calls that create mounts exclude each
  other, so that a name found free stays free. The event of a step is what it did to the references
  held by callers.
\<close>

datatype handle_event = Acquired layer_handle | Dropped layer_handle | Restarted | Quiet

fun result_event :: "layer_handle layer_result \<Rightarrow> handle_event" where
  "result_event (LayerOK h) = Acquired h"
| "result_event _ = Quiet"

fun layer_panics :: "'h layer_result \<Rightarrow> bool" where
  "layer_panics (LayerPanic m) = True"
| "layer_panics _ = False"

fun release_panics :: "release_result \<Rightarrow> bool" where
  "release_panics (ReleasePanic m) = True"
| "release_panics _ = False"

type_synonym ls_sys = "nat multiset \<times> layerStore \<times> bool"

inductive ls_step :: "(string \<Rightarrow> string) \<Rightarrow> ls_sys \<Rightarrow> handle_event \<Rightarrow> ls_sys \<Rightarrow> bool" for H where
  step_Get: "ls_Get c s = (r, t) \<Longrightarrow> ls_step H (F, s, b) (result_event r) (F, t, b \<or> layer_panics r)"
| step_Release: "ls_Release env h s = (r, t) \<Longrightarrow> ls_step H (F, s, b) (Dropped h) (F, t, b \<or> release_panics r)"
| step_begin: "register_begin parent s = (Inr p, t) \<Longrightarrow> ls_step H (F, s, b) Quiet (F + tok p, t, b)"
| step_publish: "tar_ok renv \<Longrightarrow> register_publish H renv descriptor p s = ((failed, r), t) \<Longrightarrow>
    ls_step H (F + tok p, s, b) (result_event r) (F + (if failed then tok p else {#}), t, b \<or> layer_panics r)"
| step_abandon: "releaseLayer env 0 [] p s = (r, t) \<Longrightarrow> ls_step H (F + {#p#}, s, b) Quiet (F, t, b \<or> release_panics r)"
| step_create: "fmlookup (ls_mounts s) name = None \<Longrightarrow> create_mount menv name init mountID p s = ((failed, m), t) \<Longrightarrow>
    ls_step H (F + tok p, s, b) Quiet (F + (if failed then tok p else {#}), t, b \<or> layer_panics m)"
| step_GetRWLayer: "GetRWLayer name s = (m, t) \<Longrightarrow> ls_step H (F, s, b) Quiet (F, t, b \<or> layer_panics m)"
| step_release_mount: "release_mount menv w s = (Inl r, t) \<Longrightarrow> ls_step H (F, s, b) Quiet (F, t, b \<or> release_panics r)"
| step_detach: "release_mount menv w s = (Inr p, t) \<Longrightarrow> ls_step H (F, s, b) Quiet (F + {#p#}, t, b)"
| step_restart: "NewStoreFromGraphDriver fuel (ls_store s) driver = Some t \<Longrightarrow> ls_step H (F, s, b) Restarted ({#}, t, b)"

text \<open>The abstract store: the references held, and nothing else.\<close>

fun handles_step :: "(layer_handle \<Rightarrow> bool) \<Rightarrow> handle_event \<Rightarrow> (layer_handle \<Rightarrow> bool) \<Rightarrow> bool" where
  "handles_step A (Acquired h) B \<longleftrightarrow> \<not> A h \<and> B = A(h := True)"
| "handles_step A (Dropped h) B \<longleftrightarrow> B = A(h := False)"
| "handles_step A Restarted B \<longleftrightarrow> B = (\<lambda>_. False)"
| "handles_step A Quiet B \<longleftrightarrow> B = A"

definition sys_ok :: "(string \<Rightarrow> string) \<Rightarrow> ls_sys \<Rightarrow> bool" where
  "sys_ok H x \<longleftrightarrow> (case x of (F, s, b) \<Rightarrow> ls_inv F s \<and> disk_ok H s \<and> \<not> b)"

lemma release_panics_iff [simp]: "release_panics r \<longleftrightarrow> (\<exists>m. r = ReleasePanic m)" by (cases r) auto
lemma layer_panics_iff [simp]: "layer_panics r \<longleftrightarrow> (\<exists>m. r = LayerPanic m)" by (cases r) auto

lemma ls_step_simulates:
  assumes H: "\<And>x. canonical (H x)" and "ls_step H x e y" and ok: "sys_ok H x"
  shows "sys_ok H y \<and> handles_step (held (fst (snd x))) e (held (fst (snd y)))"
  using assms(2)
proof (cases rule: ls_step.cases)
  case (step_Get c s r t F b)
  then have i: "ls_inv F s" "disk_ok H s" "\<not> b" using ok by (simp_all add: sys_ok_def)
  note d = i(2) [folded same_core_disk [OF ls_Get_core [OF step_Get(4)], of H]]
  from ls_Get_spec [OF i(1) step_Get(4)] d i step_Get show ?thesis by (cases r) (auto simp: sys_ok_def)
next
  case (step_Release env h s r t F b)
  then have i: "ls_inv F s" "disk_ok H s" "\<not> b" using ok by (simp_all add: sys_ok_def)
  from ls_Release_spec [OF i(1) step_Release(4)] ls_Release_disk [OF i(1,2) step_Release(4)] i step_Release
  show ?thesis by (simp add: sys_ok_def)
next
  case (step_begin parent s p t F b)
  then have i: "ls_inv F s" "disk_ok H s" "\<not> b" using ok by (simp_all add: sys_ok_def)
  note d = i(2) [folded same_core_disk [OF register_begin_core [OF step_begin(4)], of H]]
  from register_begin_spec [OF i(1) step_begin(4)] d i step_begin show ?thesis by (simp add: sys_ok_def)
next
  case (step_publish renv descriptor p s failed r t F b)
  then have i: "ls_inv (F + tok p) s" "disk_ok H s" "\<not> b" using ok by (simp_all add: sys_ok_def)
  note d = register_publish_disk [OF H step_publish(4) i(1,2) step_publish(5)]
  from register_publish_spec [OF H step_publish(4) i(1) step_publish(5)] d i step_publish show ?thesis
    by (cases r) (simp_all add: sys_ok_def)
next
  case (step_abandon env p s r t F b)
  then have i: "ls_inv (F + {#p#}) s" "disk_ok H s" "\<not> b" using ok by (simp_all add: sys_ok_def)
  have "ls_inv F t \<and> (\<forall>m. r \<noteq> ReleasePanic m) \<and> keeps s t" using releaseLayer_inv [OF i(1) _ step_abandon(4)] by simp
  with i releaseLayer_disk [OF i(1,2) step_abandon(4)] step_abandon held_keeps [of s t] show ?thesis by (simp add: sys_ok_def)
next
  case (step_create s name menv init mountID p failed m t F b)
  then have i: "ls_inv (F + tok p) s" "disk_ok H s" "\<not> b" using ok by (simp_all add: sys_ok_def)
  note d = i(2) [folded same_core_disk [OF create_mount_core [OF step_create(5)], of H]]
  note spec = create_mount_spec(1-3) [OF i(1) step_create(4,5)]
  show ?thesis using spec i(3) d step_create(1-3) by (cases failed) (simp_all add: sys_ok_def)
next
  case (step_GetRWLayer name s m t F b)
  then have i: "ls_inv F s" "disk_ok H s" "\<not> b" using ok by (simp_all add: sys_ok_def)
  note d = i(2) [folded same_core_disk [OF GetRWLayer_core [OF step_GetRWLayer(4)], of H]]
  from GetRWLayer_spec [OF i(1) step_GetRWLayer(4)] d i step_GetRWLayer show ?thesis by (simp add: sys_ok_def)
next
  case (step_release_mount menv w s r t F b)
  then have i: "ls_inv F s" "disk_ok H s" "\<not> b" using ok by (simp_all add: sys_ok_def)
  note d = i(2) [folded same_core_disk [OF release_mount_core [OF step_release_mount(4)], of H]]
  from release_mount_spec [OF i(1) step_release_mount(4)] d i step_release_mount show ?thesis by (simp add: sys_ok_def)
next
  case (step_detach menv w s p t F b)
  then have i: "ls_inv F s" "disk_ok H s" "\<not> b" using ok by (simp_all add: sys_ok_def)
  note d = i(2) [folded same_core_disk [OF release_mount_core [OF step_detach(4)], of H]]
  from release_mount_spec [OF i(1) step_detach(4)] d i step_detach show ?thesis by (simp add: sys_ok_def)
next
  case (step_restart fuel s driver t F b)
  then have i: "ls_inv F s" "disk_ok H s" "\<not> b" using ok by (simp_all add: sys_ok_def)
  from reopen_spec [OF i(1,2) step_restart(4)] i step_restart show ?thesis by (auto simp: sys_ok_def)
qed

text \<open>A new store: nothing on disk.\<close>

definition new_system :: "ls_sys \<Rightarrow> bool" where
  "new_system x \<longleftrightarrow> (\<exists>driver s. NewStoreFromGraphDriver 1 NewFSMetadataStore driver = Some s \<and> x = ({#}, s, False))"

lemma new_system_ok: "new_system x \<Longrightarrow> sys_ok H x"
proof -
  assume "new_system x"
  then obtain driver s where s: "NewStoreFromGraphDriver 1 NewFSMetadataStore driver = Some s" and x: "x = ({#}, s, False)"
    by (auto simp: new_system_def)
  have "fms_List NewFSMetadataStore = ([], [])" by code_simp
  then have "s = \<lparr>ls_heap = fmempty, ls_layerMap = fmempty, ls_mounts = fmempty, ls_fresh = 0, ls_store = NewFSMetadataStore, ls_driver = driver\<rparr>"
    using s by (simp add: NewStoreFromGraphDriver_def)
  moreover have "read_layer NewFSMetadataStore c = None" for c
    by (simp add: read_layer_def fms_GetDiffID_def layer_file_def NewFSMetadataStore_def split: option.splits)
  ultimately show ?thesis
    by (simp add: x sys_ok_def ls_inv_def ls_shape_def disk_ok_def live_def meta_ok_def NewFSMetadataStore_def)
qed

text \<open>The digests the engine computes are canonical; the steps of the store under that condition.\<close>

definition engine_step :: "(string \<Rightarrow> string) \<Rightarrow> ls_sys \<Rightarrow> ls_sys \<Rightarrow> bool" where
  "engine_step H x y \<longleftrightarrow> (\<forall>s. canonical (H s)) \<and> (\<exists>e. ls_step H x e y)"

interpretation layers: transition_system new_system "engine_step H" "sys_ok H" for H
proof
  show "sys_ok H s" if "new_system s" for s using that by (rule new_system_ok)
  show "sys_ok H t" if "sys_ok H s" "engine_step H s t" for s t
    using that ls_step_simulates [of H s _ t] by (auto simp: engine_step_def)
qed

section \<open>Collecting layers\<close>

text \<open>
  A layer is in use if a caller or a running call holds it or a mount is based on it; it is needed if it
  is in use or an ancestor of one that is.
\<close>

definition in_use :: "nat multiset \<Rightarrow> layerStore \<Rightarrow> nat \<Rightarrow> bool" where
  "in_use F s a \<longleftrightarrow> live s a \<and> ((\<exists>l. fmlookup (ls_heap s) a = Some l \<and> rl_references l \<noteq> {||}) \<or> mounted s a \<noteq> {||} \<or> a \<in># F)"

definition needed :: "nat multiset \<Rightarrow> layerStore \<Rightarrow> nat \<Rightarrow> bool" where
  "needed F s a \<longleftrightarrow> (\<exists>b. in_use F s b \<and> (\<lambda>x y. has_parent s y x)\<^sup>*\<^sup>* b a)"

definition counted :: "layerStore \<Rightarrow> bool" where
  "counted s \<longleftrightarrow> (\<forall>a l. live s a \<and> fmlookup (ls_heap s) a = Some l \<longrightarrow> 0 < rl_referenceCount l)"

lemma needed_live:
  assumes inv: "ls_inv F s" and "needed F s a"
  shows "live s a"
proof -
  obtain b where b: "live s b" "(\<lambda>x y. has_parent s y x)\<^sup>*\<^sup>* b a" using assms(2) by (auto simp: needed_def in_use_def)
  from b(2,1) show ?thesis
  proof (induction rule: rtranclp_induct)
    case (step y z)
    then show ?case using ls_shapeD(4) [OF ls_invD(1) [OF inv], of y] by (auto simp: has_parent_def split: option.splits)
  qed
qed

lemma counted_needed:
  assumes inv: "ls_inv F s" and cnt: "counted s" and a: "live s a"
  shows "needed F s a"
  using a
proof (induction "ls_fresh s - a" arbitrary: a rule: less_induct)
  case less
  note sh = ls_invD(1) [OF inv]
  obtain l where l: "fmlookup (ls_heap s) a = Some l" using less(2) by (auto simp: live_def)
  have "0 < rl_referenceCount l" using cnt less(2) l by (auto simp: counted_def)
  then consider "rl_references l \<noteq> {||}" | "children s a \<noteq> {||}" | "mounted s a \<noteq> {||}" | "a \<in># F"
    using count_pos_iff [OF inv less(2) l] by blast
  then show ?case
  proof cases
    case 2
    then obtain b where "b |\<in>| children s a" by auto
    then have b: "live s b" "has_parent s a b" by (simp_all add: children_iff [OF sh])
    then have "a < b" "b < ls_fresh s" using ls_shapeD(2,4) [OF sh, of b] by (auto simp: has_parent_def live_def split: option.splits)
    then have "needed F s b" using less(1) [OF _ b(1)] by auto
    then show ?thesis using b(2) by (auto simp: needed_def intro: rtranclp.rtrancl_into_rtrancl)
  qed (use less(2) l in \<open>auto simp: needed_def in_use_def\<close>)
qed

lemma needed_counted:
  assumes inv: "ls_inv F s" and n: "\<And>a. live s a \<Longrightarrow> needed F s a"
  shows "counted s"
  unfolding counted_def
proof (intro allI impI)
  fix a l assume a: "live s a \<and> fmlookup (ls_heap s) a = Some l"
  note sh = ls_invD(1) [OF inv]
  obtain b where b: "in_use F s b" "(\<lambda>x y. has_parent s y x)\<^sup>*\<^sup>* b a" using n a by (auto simp: needed_def)
  have "rl_references l \<noteq> {||} \<or> children s a \<noteq> {||} \<or> mounted s a \<noteq> {||} \<or> a \<in># F"
  proof (cases "b = a")
    case True
    then show ?thesis using b(1) a by (auto simp: in_use_def)
  next
    case False
    then obtain y where y: "(\<lambda>x y. has_parent s y x)\<^sup>*\<^sup>* b y" "has_parent s a y" using b(2) by (metis rtranclp.cases)
    have "needed F s y" using b(1) y(1) by (auto simp: needed_def)
    then have "y |\<in>| children s a" using y(2) needed_live [OF inv] by (simp add: children_iff [OF sh])
    then show ?thesis by auto
  qed
  then show "0 < rl_referenceCount l" using count_pos_iff [OF inv, of a l] a by simp
qed

lemma releaseLayer_counted:
  assumes "ls_inv (F + {#a#}) s" and "counted s" and "depth = 0 \<or> removed \<noteq> []" and ok: "\<And>k. env k = (True, True)"
    and "releaseLayer env depth removed a s = (r, t)"
  shows "counted t \<and> (\<exists>mds. r = Released (removed @ mds) \<and>
    (\<forall>c. fmlookup (ls_layerMap t) c = (if c \<in> md_ChainID ` set mds then None else fmlookup (ls_layerMap s) c)))"
  using assms(1-3,5)
proof (induction a arbitrary: F s depth removed rule: less_induct)
  case (less a)
  have other: "counted u" if u: "ls_heap u = ls_heap (decrement a s)" "\<And>b. live u b \<Longrightarrow> live s b"
      "\<And>l. live u a \<Longrightarrow> fmlookup (ls_heap s) a = Some l \<Longrightarrow> 1 < rl_referenceCount l" for u
    unfolding counted_def
  proof (intro allI impI)
    fix b k assume b: "live u b \<and> fmlookup (ls_heap u) b = Some k"
    show "0 < rl_referenceCount k"
    proof (cases "b = a")
      case True
      then obtain l where "fmlookup (ls_heap s) a = Some l" "k = l\<lparr>rl_referenceCount := rl_referenceCount l - 1\<rparr>"
        using b u(1) by (auto simp: decrement_def upd_layer_lookup)
      then show ?thesis using u(3) [of l] b True by simp
    next
      case False
      then have "fmlookup (ls_heap s) b = Some k" "live s b" using b u(1,2) by (simp_all add: decrement_def upd_layer_lookup)
      then show ?thesis using less(3) by (simp add: counted_def)
    qed
  qed
  have g: "same_graph s (decrement a s)" unfolding decrement_def by (rule same_graph_upd) simp
  from less(2,4) show ?case
  proof (cases rule: releaseLayer_cases [where env = env])
    case (kept l)
    then have "counted (decrement a s)" using same_graph_live(1) [OF g] by (intro other) simp_all
    then show ?thesis using kept less(5) by (intro conjI exI [of _ "[]"]) (auto simp: decrement_def)
  next
    case (failed l e d)
    then show ?thesis using ok by simp
  next
    case (dropped l md d u v)
    have lv: "live v b \<longleftrightarrow> live s b \<and> b \<noteq> a" for b
    proof -
      have "live u b = live s b" for b using same_graph_live(1) [OF g, of b] by (simp add: dropped(5) live_def)
      moreover have "live v b \<longleftrightarrow> live u b \<and> b \<noteq> a"
        using decrement_inv(4,5) [OF less(2) dropped(1)] dropped(5,6)
        by (intro live_drop [of _ _ "l\<lparr>rl_referenceCount := rl_referenceCount l - 1\<rparr>"]) (simp_all add: live_def)
      ultimately show ?thesis by simp
    qed
    have cv: "counted v" using lv by (intro other) (simp_all add: dropped(5,6))
    have mv: "fmlookup (ls_layerMap v) c = (if c = rl_chainID l then None else fmlookup (ls_layerMap s) c)" for c
      by (simp add: dropped(5,6) decrement_def)
    show ?thesis
    proof (cases "rl_parent l")
      case None
      then have "r = Released (removed @ [md])" "t = v" using dropped(9) less(5) by simp_all
      then show ?thesis using cv mv dropped(4) by (intro conjI exI [of _ "[md]"]) auto
    next
      case (Some p)
      then have "releaseLayer env (Suc depth) (removed @ [md]) p v = (r, t)" using dropped(9) less(5) by simp
      then obtain mds where "counted t" "r = Released ((removed @ [md]) @ mds)"
        "\<And>c. fmlookup (ls_layerMap t) c = (if c \<in> md_ChainID ` set mds then None else fmlookup (ls_layerMap v) c)"
        using less(1) [OF dropped(8) [OF Some], of F v "Suc depth" "removed @ [md]"] dropped(7) Some cv by auto
      then show ?thesis using mv dropped(4) by (intro conjI exI [of _ "md # mds"]) auto
    qed
  qed
qed

section \<open>Chain identifiers\<close>

text \<open>The differences of a layer and its ancestors, from the bottom.\<close>

function diff_chain :: "(nat, roLayer) fmap \<Rightarrow> nat \<Rightarrow> string list" where
  "diff_chain h a =
     (case fmlookup h a of
        None \<Rightarrow> []
      | Some l \<Rightarrow> (case rl_parent l of None \<Rightarrow> [] | Some p \<Rightarrow> if p < a then diff_chain h p else []) @ [rl_diffID l])"
  by pat_completeness auto
termination by (relation "measure snd") auto

declare diff_chain.simps [simp del]

lemma createChainIDFromParent_append:
  "createChainIDFromParent H p (xs @ ys) = createChainIDFromParent H (createChainIDFromParent H p xs) ys"
  by (induction H p xs rule: createChainIDFromParent.induct) simp_all

lemma CreateChainID_snoc: "CreateChainID H (ds @ [d]) = (if ds = [] then d else createChainIDFromParent H (CreateChainID H ds) [d])"
  by (simp add: CreateChainID_def createChainIDFromParent_append)

lemma chained_chainID:
  assumes sh: "ls_shape s" and d: "disk_ok H s" and a: "live s a" "fmlookup (ls_heap s) a = Some l"
  shows "rl_chainID l = CreateChainID H (diff_chain (ls_heap s) a) \<and> diff_chain (ls_heap s) a \<noteq> []"
  using a
proof (induction a arbitrary: l rule: less_induct)
  case (less a)
  have ch: "chained H s l" by (rule disk_okD(5) [OF d less(2,3)])
  show ?case
  proof (cases "rl_parent l")
    case None
    then show ?thesis using ch less(3) by (simp add: diff_chain.simps [of _ a] chained_def chain_of_def CreateChainID_def)
  next
    case (Some p)
    have p: "p < a" "live s p" using ls_shapeD(4) [OF sh less(2,3) Some] by auto
    then obtain k where k: "fmlookup (ls_heap s) p = Some k" by (auto simp: live_def)
    note ih = less(1) [OF p k]
    have dc: "diff_chain (ls_heap s) a = diff_chain (ls_heap s) p @ [rl_diffID l]"
      using less(3) Some p(1) by (simp add: diff_chain.simps [of _ a])
    show ?thesis using ih ch Some k by (simp add: dc CreateChainID_snoc chained_def chain_of_def)
  qed
qed

section \<open>The properties\<close>

lemma disk_acyclic:
  assumes sh: "ls_shape s" and d: "disk_ok H s"
  shows "\<not> (parent_of (ls_store s))\<^sup>+\<^sup>+ c c"
proof -
  have step: "the (fmlookup (ls_layerMap s) p) < the (fmlookup (ls_layerMap s) x)" if po: "parent_of (ls_store s) x p" for x p
  proof -
    obtain diff sz cid ds where rd: "read_layer (ls_store s) x = Some (diff, sz, cid, p, ds)" and ne: "p \<noteq> ''''"
      using po by (auto simp: parent_of_def)
    then obtain a where a: "fmlookup (ls_layerMap s) x = Some a" using disk_okD(3) [OF d, of x] by auto
    then obtain l where l: "fmlookup (ls_heap s) a = Some l" "rl_chainID l = x" using ls_shapeD(1) [OF sh] by blast
    note live = live_in_map [OF sh a]
    have "(case chain_of (rl_parent l) s of None \<Rightarrow> '''' | Some c \<Rightarrow> c) = p"
      using disk_okD(4) [OF d live l(1)] rd l(2) by (simp add: described_def)
    then obtain q k where q: "rl_parent l = Some q" "fmlookup (ls_heap s) q = Some k" "rl_chainID k = p"
      using ne by (auto simp: chain_of_def split: option.splits)
    then have "q < a" "fmlookup (ls_layerMap s) p = Some q" using ls_shapeD(4) [OF sh live l(1) q(1)] by (auto simp: live_def)
    then show ?thesis using a by simp
  qed
  have "the (fmlookup (ls_layerMap s) y) < the (fmlookup (ls_layerMap s) x)" if "(parent_of (ls_store s))\<^sup>+\<^sup>+ x y" for x y
    using that by (induction rule: tranclp_induct) (auto dest!: step)
  then show ?thesis by blast
qed

text \<open>
  C1. No interleaving of calls, with any failures of the driver and the disk and any restarts in
  between, reaches one of the panics of \<open>releaseLayer\<close> (a layer not retained, a layer with a child, a
  layer still referenced) or of the metadata store.
\<close>

theorem layer_store_never_panics:
  assumes "new_system x" and "(engine_step H)\<^sup>*\<^sup>* x (F, s, panicked)"
  shows "\<not> panicked"
  using layers.reachable_inv [OF assms] by (simp add: sys_ok_def)

text \<open>
  C5. In every reachable state the count of a registered layer is the number of its references that
  callers hold, of the registered layers and of the mounts based on it, and of the running calls that
  retain it; its parent, and every layer a mount is based on, is registered.
\<close>

theorem layer_reference_counts:
  assumes "new_system x" and "(engine_step H)\<^sup>*\<^sup>* x (F, s, panicked)"
    and "fmlookup (ls_layerMap s) c = Some a" and "fmlookup (ls_heap s) a = Some l"
  shows "rl_referenceCount l = fcard (rl_references l) + fcard (children s a) + fcard (mounted s a) + count F a \<and>
    rl_chainID l = c \<and> (\<forall>p. rl_parent l = Some p \<longrightarrow> (\<exists>k. fmlookup (ls_heap s) p = Some k \<and> fmlookup (ls_layerMap s) (rl_chainID k) = Some p))"
proof -
  have inv: "ls_inv F s" using layers.reachable_inv [OF assms(1,2)] by (simp add: sys_ok_def)
  note sh = ls_invD(1) [OF inv] and live = live_in_map [OF ls_invD(1) [OF inv] assms(3)]
  show ?thesis
    using ls_invD(3) [OF inv live assms(4)] ls_shapeD(1) [OF sh assms(3)] ls_shapeD(4) [OF sh live assms(4)] assms(4)
    by (auto simp: live_def)
qed

text \<open>
  C3. To its callers the store is the set of references they hold: every step changes that set as its
  event says, a reference handed out is never one already held, and as long as a reference is held its
  layer is registered under the identifier of the reference, so that \<open>Get\<close> succeeds.
\<close>

theorem layer_store_refines_handles:
  assumes "new_system x" and "(engine_step H)\<^sup>*\<^sup>* x (F, s, b)" and "\<forall>s. canonical (H s)" and "ls_step H (F, s, b) e (F', s', b')"
  shows "handles_step (held s) e (held s') \<and> (held s' h \<longrightarrow> (\<exists>h' t. ls_Get (lh_ChainID h) s' = (LayerOK h', t) \<and> lh_ChainID h' = lh_ChainID h))"
proof -
  note ok = layers.reachable_inv [OF assms(1,2)]
  from ls_step_simulates [OF _ assms(4) ok] assms(3)
  have sim: "sys_ok H (F', s', b')" "handles_step (held s) e (held s')" by auto
  then have inv: "ls_inv F' s'" by (simp add: sys_ok_def)
  have "\<exists>h' t. ls_Get (lh_ChainID h) s' = (LayerOK h', t) \<and> lh_ChainID h' = lh_ChainID h" if hd: "held s' h"
  proof -
    obtain r t where r: "ls_Get (lh_ChainID h) s' = (r, t)" by fastforce
    obtain a where "fmlookup (ls_layerMap s') (lh_ChainID h) = Some a" using held_live [OF inv hd] by blast
    then show ?thesis using ls_Get_spec(2) [OF inv r] r by (cases r) auto
  qed
  with sim show ?thesis by blast
qed

text \<open>
  C18. The identifier under which a layer is registered is the chain identifier of the differences of the
  layer and its ancestors, as the image store computes it from an image's list of differences; so two
  layers with the same content are one layer.
\<close>

theorem chain_ids_name_contents:
  assumes "new_system x" and "(engine_step H)\<^sup>*\<^sup>* x (F, s, b)"
    and "fmlookup (ls_layerMap s) c = Some a" and "fmlookup (ls_layerMap s) c' = Some a'"
  shows "c = CreateChainID H (diff_chain (ls_heap s) a) \<and> (diff_chain (ls_heap s) a = diff_chain (ls_heap s) a' \<longrightarrow> a = a')"
proof -
  have ok: "ls_inv F s" "disk_ok H s" using layers.reachable_inv [OF assms(1,2)] by (simp_all add: sys_ok_def)
  have c: "x = CreateChainID H (diff_chain (ls_heap s) y)" if "fmlookup (ls_layerMap s) x = Some y" for x y
    using ls_shapeD(1) [OF ls_invD(1) [OF ok(1)] that] chained_chainID [OF ls_invD(1) [OF ok(1)] ok(2) live_in_map [OF ls_invD(1) [OF ok(1)] that]]
    by blast
  have "a = a'" if "diff_chain (ls_heap s) a = diff_chain (ls_heap s) a'"
  proof -
    have "c = c'" using c [OF assms(3)] c [OF assms(4)] that by (simp only:)
    with assms(3,4) show ?thesis by simp
  qed
  with c [OF assms(3)] show ?thesis by blast
qed



section \<open>A run\<close>

text \<open>Two layers, the second on the first; the reference to the second is released.\<close>

definition demo_hash :: "string \<Rightarrow> string" where
  "demo_hash x = ''sha256:'' @ replicate 64 CHR ''c''"

definition demo_env :: "char \<Rightarrow> register_env" where
  "demo_env ch = \<lparr>re_Create = True, re_StartTransaction = True, re_applyTar = Some (7, ''sha256:'' @ replicate 64 ch, ''''),
     re_storeLayer = True, re_Commit = True, re_cleanup_Remove = True, re_cacheID = replicate 64 ch, re_release = (\<lambda>_. (True, True))\<rparr>"

definition demo0 :: layerStore where
  "demo0 = \<lparr>ls_heap = fmempty, ls_layerMap = fmempty, ls_mounts = fmempty, ls_fresh = 0, ls_store = NewFSMetadataStore, ls_driver = {||}\<rparr>"

definition demo_root :: string where "demo_root = ''sha256:'' @ replicate 64 CHR ''a''"
definition demo1 :: layerStore where "demo1 = snd (register_publish demo_hash (demo_env CHR ''a'') '''' None demo0)"
definition demo2 :: layerStore where "demo2 = snd (register_begin demo_root demo1)"
definition demo3 :: layerStore where "demo3 = snd (register_publish demo_hash (demo_env CHR ''b'') '''' (Some 0) demo2)"
definition demo_handle :: layer_handle where "demo_handle = \<lparr>lh_ChainID = demo_hash '''', lh_ref = 3\<rparr>"
definition demo4 :: layerStore where "demo4 = snd (ls_Release (\<lambda>_. (True, True)) demo_handle demo3)"

lemma demo_canonical: "canonical (demo_hash x)"
  unfolding demo_hash_def by code_simp

lemma demo_results:
  "fst (register_publish demo_hash (demo_env CHR ''a'') '''' None demo0) = (False, LayerOK \<lparr>lh_ChainID = demo_root, lh_ref = 1\<rparr>)"
  "fst (register_begin demo_root demo1) = Inr (Some 0)"
  "fst (register_publish demo_hash (demo_env CHR ''b'') '''' (Some 0) demo2) = (False, LayerOK demo_handle)"
  "\<not> release_panics (fst (ls_Release (\<lambda>_. (True, True)) demo_handle demo3))"
  by code_simp+

lemma demo_tar_ok: "tar_ok (demo_env CHR ''a'')" "tar_ok (demo_env CHR ''b'')"
  by code_simp+

lemma demo_new: "new_system ({#}, demo0, False)"
proof -
  have "fms_List NewFSMetadataStore = ([], [])" by code_simp
  then have "NewStoreFromGraphDriver 1 NewFSMetadataStore {||} = Some demo0"
    by (simp add: NewStoreFromGraphDriver_def demo0_def)
  then show ?thesis by (auto simp: new_system_def)
qed

lemma demo_steps:
  "ls_step demo_hash ({#}, demo0, False) (Acquired \<lparr>lh_ChainID = demo_root, lh_ref = 1\<rparr>) ({#}, demo1, False)"
  "ls_step demo_hash ({#}, demo1, False) Quiet ({#0#}, demo2, False)"
  "ls_step demo_hash ({#0#}, demo2, False) (Acquired demo_handle) ({#}, demo3, False)"
  "ls_step demo_hash ({#}, demo3, False) (Dropped demo_handle) ({#}, demo4, False)"
proof -

  have 1: "register_publish demo_hash (demo_env CHR ''a'') '''' None demo0 = ((False, LayerOK \<lparr>lh_ChainID = demo_root, lh_ref = 1\<rparr>), demo1)"
    using demo_results(1) unfolding demo1_def by (metis prod.collapse)
  show "ls_step demo_hash ({#}, demo0, False) (Acquired \<lparr>lh_ChainID = demo_root, lh_ref = 1\<rparr>) ({#}, demo1, False)"
    using step_publish [OF demo_tar_ok(1) 1, of "{#}" False] by simp
  have 2: "register_begin demo_root demo1 = (Inr (Some 0), demo2)"
    using demo_results(2) unfolding demo2_def by (metis prod.collapse)
  show "ls_step demo_hash ({#}, demo1, False) Quiet ({#0#}, demo2, False)"
    using step_begin [OF 2, of demo_hash "{#}" False] by simp
  have 3: "register_publish demo_hash (demo_env CHR ''b'') '''' (Some 0) demo2 = ((False, LayerOK demo_handle), demo3)"
    using demo_results(3) unfolding demo3_def by (metis prod.collapse)
  show "ls_step demo_hash ({#0#}, demo2, False) (Acquired demo_handle) ({#}, demo3, False)"
    using step_publish [OF demo_tar_ok(2) 3, of "{#}" False] by simp
  have 4: "ls_Release (\<lambda>_. (True, True)) demo_handle demo3 = (fst (ls_Release (\<lambda>_. (True, True)) demo_handle demo3), demo4)"
    unfolding demo4_def by simp
  show "ls_step demo_hash ({#}, demo3, False) (Dropped demo_handle) ({#}, demo4, False)"
    using step_Release [OF 4, of demo_hash "{#}" False] demo_results(4) by simp
qed

lemma demo_reach:
  "(engine_step demo_hash)\<^sup>*\<^sup>* ({#}, demo0, False) ({#}, demo3, False)"
  "(engine_step demo_hash)\<^sup>*\<^sup>* ({#}, demo0, False) ({#}, demo4, False)"
proof -
  have e: "ls_step demo_hash x e y \<Longrightarrow> engine_step demo_hash x y" for x e y using demo_canonical by (auto simp: engine_step_def)
  show r: "(engine_step demo_hash)\<^sup>*\<^sup>* ({#}, demo0, False) ({#}, demo3, False)"
    by (rule rtranclp.rtrancl_into_rtrancl [OF rtranclp.rtrancl_into_rtrancl [OF r_into_rtranclp
      [of "engine_step demo_hash", OF e [OF demo_steps(1)]] e [OF demo_steps(2)]] e [OF demo_steps(3)]])
  show "(engine_step demo_hash)\<^sup>*\<^sup>* ({#}, demo0, False) ({#}, demo4, False)"
    by (rule rtranclp.rtrancl_into_rtrancl [OF r e [OF demo_steps(4)]])
qed

lemma demo_held: "held demo3 demo_handle"
proof -
  have "map_option (\<lambda>l. rl_chainID l = lh_ChainID demo_handle \<and> lh_ref demo_handle |\<in>| rl_references l) (fmlookup (ls_heap demo3) 2) = Some True"
    by code_simp
  then show ?thesis by (auto simp: held_def)
qed

theorem layer_store_never_panics_witness:
  "(engine_step demo_hash)\<^sup>*\<^sup>* ({#}, demo0, False) ({#}, demo4, False) \<and> \<not> False"
  using layer_store_never_panics [OF demo_new demo_reach(2)] demo_reach(2) by blast

theorem layer_reference_counts_witness:
  "fmlookup (ls_layerMap demo3) demo_root = Some 0 \<and> map_option rl_referenceCount (fmlookup (ls_heap demo3) 0) = Some 2 \<and>
   fcard (children demo3 0) = 1"
proof -
  have m: "fmlookup (ls_layerMap demo3) demo_root = Some 0" "map_option rl_referenceCount (fmlookup (ls_heap demo3) 0) = Some 2"
    "map_option (\<lambda>l. fcard (rl_references l)) (fmlookup (ls_heap demo3) 0) = Some 1" "fcard (mounted demo3 0) = 0"
    by code_simp+
  then obtain l where l: "fmlookup (ls_heap demo3) 0 = Some l" "rl_referenceCount l = 2" "fcard (rl_references l) = 1" by auto
  from layer_reference_counts [OF demo_new demo_reach(1) m(1) l(1)] l m show ?thesis by simp
qed

theorem layer_store_refines_handles_witness:
  "held demo3 demo_handle \<and> \<not> held demo4 demo_handle \<and>
   (\<exists>h t. ls_Get demo_root demo4 = (LayerOK h, t) \<and> lh_ChainID h = demo_root)"
proof -
  have root: "held demo4 \<lparr>lh_ChainID = demo_root, lh_ref = 1\<rparr>"
  proof -
    have "map_option (\<lambda>l. rl_chainID l = demo_root \<and> 1 |\<in>| rl_references l) (fmlookup (ls_heap demo4) 0) = Some True"
      by code_simp
    then show ?thesis by (auto simp: held_def)
  qed
  have H: "\<forall>s. canonical (demo_hash s)" using demo_canonical by blast
  note spec = layer_store_refines_handles [OF demo_new demo_reach(1) H demo_steps(4), of "\<lparr>lh_ChainID = demo_root, lh_ref = 1\<rparr>"]
  from spec root have "\<exists>h t. ls_Get demo_root demo4 = (LayerOK h, t) \<and> lh_ChainID h = demo_root" by simp
  moreover from spec have "\<not> held demo4 demo_handle" by simp
  ultimately show ?thesis using demo_held by blast
qed

theorem chain_ids_name_contents_witness:
  "fmlookup (ls_layerMap demo3) (demo_hash '''') = Some 2 \<and> demo_hash '''' = CreateChainID demo_hash (diff_chain (ls_heap demo3) 2) \<and>
   length (diff_chain (ls_heap demo3) 2) = 2"
proof -
  have m: "fmlookup (ls_layerMap demo3) (demo_hash '''') = Some 2" "length (diff_chain (ls_heap demo3) 2) = 2" by code_simp+
  from chain_ids_name_contents [OF demo_new demo_reach(1) m(1) m(1)] m show ?thesis by simp
qed



end
