(* ===== verification/ImageStore.thy ===== *)
theory ImageStore
  imports ImageFS DigestSet LayerSystem
begin

text \<open>
  The image store (\<^verbatim>\<open>src/image/store.go\<close>). It keeps, per image, the layer it retains and the set of its
  children, and a set of digests for look-up by prefix; configurations and parent links are in the
  backend. The layer store and the backend are reached through their interfaces, as records of
  operations; \<open>is_ls\<close> and \<open>is_fs\<close> are the states behind them. \<open>Create\<close> writes the configuration before it
  takes the lock, so it is two steps, \<open>create_prepare\<close> and \<open>create_publish\<close>, with other calls in between.
\<close>

section \<open>Definitions\<close>

record ('l, 'h) LayerGetReleaser =
  lgr_Get :: "string \<Rightarrow> 'l \<Rightarrow> 'h layer_result \<times> 'l"
  lgr_Release :: "'h \<Rightarrow> 'l \<Rightarrow> release_result \<times> 'l"

record 'h imageMeta =
  meta_layer :: "'h option"
  meta_children :: "string fset"

record ('b, 'l, 'h) image_store =
  is_ls :: 'l
  is_images :: "(string, 'h imageMeta) fmap"
  is_fs :: 'b
  is_digestSet :: "digestEntry list"

definition is_GetParent :: "'b StoreBackend \<Rightarrow> string \<Rightarrow> ('b, 'l, 'h) image_store \<Rightarrow> string image_result" where
  "is_GetParent be dgst s = sb_GetMetadata be dgst ''parent'' (is_fs s)"

definition is_Get :: "(string \<Rightarrow> 'c Image option) \<Rightarrow> 'b StoreBackend \<Rightarrow> string \<Rightarrow> ('b, 'l, 'h) image_store \<Rightarrow> 'c Image image_result" where
  "is_Get unmarshal be dgst s =
     (case sb_Get be dgst (is_fs s) of
        ImgErr e \<Rightarrow> ImgErr e
      | ImgPanic m \<Rightarrow> ImgPanic m
      | ImgOK config \<Rightarrow>
          (case NewFromJSON unmarshal config of
             ImgErr e \<Rightarrow> ImgErr e
           | ImgPanic m \<Rightarrow> ImgPanic m
           | ImgOK img \<Rightarrow>
               (case is_GetParent be dgst s of
                  ImgOK parent \<Rightarrow> ImgOK (img\<lparr>im_computedID := dgst, im_Parent := parent\<rparr>)
                | ImgErr e \<Rightarrow> ImgOK (img\<lparr>im_computedID := dgst, im_Parent := ''''\<rparr>)
                | ImgPanic m \<Rightarrow> ImgPanic m)))"

text \<open>Removing an image from the children of another, and adding it.\<close>

definition drop_child :: "string \<Rightarrow> string \<Rightarrow> (string, 'h imageMeta) fmap \<Rightarrow> (string, 'h imageMeta) fmap" where
  "drop_child parent child images =
     (case fmlookup images parent of
        None \<Rightarrow> images
      | Some m \<Rightarrow> fmupd parent (m\<lparr>meta_children := meta_children m |-| {|child|}\<rparr>) images)"

definition add_child :: "string \<Rightarrow> string \<Rightarrow> (string, 'h imageMeta) fmap \<Rightarrow> (string, 'h imageMeta) fmap" where
  "add_child parent child images =
     (case fmlookup images parent of
        None \<Rightarrow> images
      | Some m \<Rightarrow> fmupd parent (m\<lparr>meta_children := finsert child (meta_children m)\<rparr>) images)"

subsection \<open>Opening the store\<close>

text \<open>The layer of an image: none for an image without layers.\<close>

definition get_layer :: "(string \<Rightarrow> string) \<Rightarrow> ('l, 'h) LayerGetReleaser \<Rightarrow> RootFS \<Rightarrow> 'l \<Rightarrow> 'h option image_result \<times> 'l" where
  "get_layer H lgr rootfs l =
     (let chainID = rootfs_ChainID H rootfs
      in if chainID \<noteq> '''' then
           (case lgr_Get lgr chainID l of
              (LayerOK h, l') \<Rightarrow> (ImgOK (Some h), l')
            | (LayerErr e, l') \<Rightarrow> (ImgErr (LayerFailed e), l')
            | (LayerPanic m, l') \<Rightarrow> (ImgPanic m, l'))
         else (ImgOK None, l))"

fun restore_walk :: "(string \<Rightarrow> 'c Image option) \<Rightarrow> (string \<Rightarrow> string) \<Rightarrow> 'b StoreBackend \<Rightarrow> ('l, 'h) LayerGetReleaser
    \<Rightarrow> string list \<Rightarrow> ('b, 'l, 'h) image_store \<Rightarrow> unit image_result \<times> ('b, 'l, 'h) image_store" where
  "restore_walk unmarshal H be lgr [] s = (ImgOK (), s)"
| "restore_walk unmarshal H be lgr (dgst # dgsts) s =
     (case is_Get unmarshal be dgst s of
        ImgPanic m \<Rightarrow> (ImgPanic m, s)
      | ImgErr _ \<Rightarrow> restore_walk unmarshal H be lgr dgsts s
      | ImgOK img \<Rightarrow>
          (case im_RootFS img of
             None \<Rightarrow> (ImgPanic ''nil RootFS'', s)
           | Some rootfs \<Rightarrow>
               (case get_layer H lgr rootfs (is_ls s) of
                  (ImgErr e, l) \<Rightarrow> (ImgErr e, s\<lparr>is_ls := l\<rparr>)
                | (ImgPanic m, l) \<Rightarrow> (ImgPanic m, s\<lparr>is_ls := l\<rparr>)
                | (ImgOK layer, l) \<Rightarrow>
                    (case set_Add dgst (is_digestSet s) of
                       (Some e, d) \<Rightarrow> (ImgErr (DigestFailed e), s\<lparr>is_ls := l, is_digestSet := d\<rparr>)
                     | (None, d) \<Rightarrow>
                         restore_walk unmarshal H be lgr dgsts
                           (s\<lparr>is_ls := l, is_digestSet := d,
                              is_images := fmupd dgst \<lparr>meta_layer = layer, meta_children = {||}\<rparr> (is_images s)\<rparr>)))))"

fun restore_children :: "'b StoreBackend \<Rightarrow> string list \<Rightarrow> ('b, 'l, 'h) image_store \<Rightarrow> unit image_result \<times> ('b, 'l, 'h) image_store" where
  "restore_children be [] s = (ImgOK (), s)"
| "restore_children be (dgst # dgsts) s =
     (case is_GetParent be dgst s of
        ImgPanic m \<Rightarrow> (ImgPanic m, s)
      | ImgErr _ \<Rightarrow> restore_children be dgsts s
      | ImgOK parent \<Rightarrow> restore_children be dgsts (s\<lparr>is_images := add_child parent dgst (is_images s)\<rparr>))"

definition restore :: "(string \<Rightarrow> 'c Image option) \<Rightarrow> (string \<Rightarrow> string) \<Rightarrow> 'b StoreBackend \<Rightarrow> ('l, 'h) LayerGetReleaser
    \<Rightarrow> ('b, 'l, 'h) image_store \<Rightarrow> unit image_result \<times> ('b, 'l, 'h) image_store" where
  "restore unmarshal H be lgr s =
     (case sb_Walk be (is_fs s) of
        ImgErr e \<Rightarrow> (ImgErr e, s)
      | ImgPanic m \<Rightarrow> (ImgPanic m, s)
      | ImgOK dgsts \<Rightarrow>
          (case restore_walk unmarshal H be lgr dgsts s of
             (ImgOK _, s') \<Rightarrow> restore_children be (sorted_list_of_fset (fmdom (is_images s'))) s'
           | (r, s') \<Rightarrow> (r, s')))"

definition NewImageStore :: "(string \<Rightarrow> 'c Image option) \<Rightarrow> (string \<Rightarrow> string) \<Rightarrow> 'b StoreBackend \<Rightarrow> ('l, 'h) LayerGetReleaser
    \<Rightarrow> 'b \<Rightarrow> 'l \<Rightarrow> unit image_result \<times> ('b, 'l, 'h) image_store" where
  "NewImageStore unmarshal H be lgr b l =
     restore unmarshal H be lgr \<lparr>is_ls = l, is_images = fmempty, is_fs = b, is_digestSet = []\<rparr>"

subsection \<open>Creating an image\<close>

definition create_prepare :: "(string \<Rightarrow> 'c Image option) \<Rightarrow> 'b StoreBackend \<Rightarrow> string \<Rightarrow> ('b, 'l, 'h) image_store
    \<Rightarrow> (RootFS \<times> string) image_result \<times> ('b, 'l, 'h) image_store" where
  "create_prepare unmarshal be config s =
     (case unmarshal config of
        None \<Rightarrow> (ImgErr InvalidJSON, s)
      | Some img \<Rightarrow>
          (case im_RootFS img of
             None \<Rightarrow> (ImgPanic ''nil RootFS'', s)
           | Some rootfs \<Rightarrow>
               if length (rf_DiffIDs rootfs) < length (filter (\<lambda>h. \<not> hi_EmptyLayer h) (im_History img))
               then (ImgErr TooManyLayers, s)
               else
                 (case sb_Set be config (is_fs s) of
                    (ImgErr e, b) \<Rightarrow> (ImgErr e, s\<lparr>is_fs := b\<rparr>)
                  | (ImgPanic m, b) \<Rightarrow> (ImgPanic m, s\<lparr>is_fs := b\<rparr>)
                  | (ImgOK dgst, b) \<Rightarrow> (ImgOK (rootfs, dgst), s\<lparr>is_fs := b\<rparr>))))"

definition create_publish :: "(string \<Rightarrow> string) \<Rightarrow> ('l, 'h) LayerGetReleaser \<Rightarrow> RootFS \<Rightarrow> string \<Rightarrow> ('b, 'l, 'h) image_store
    \<Rightarrow> string image_result \<times> ('b, 'l, 'h) image_store" where
  "create_publish H lgr rootfs imageID s =
     (if fmlookup (is_images s) imageID \<noteq> None then (ImgOK imageID, s)
      else
        (case get_layer H lgr rootfs (is_ls s) of
           (ImgErr e, l) \<Rightarrow> (ImgErr e, s\<lparr>is_ls := l\<rparr>)
         | (ImgPanic m, l) \<Rightarrow> (ImgPanic m, s\<lparr>is_ls := l\<rparr>)
         | (ImgOK layer, l) \<Rightarrow>
             (let s1 = s\<lparr>is_ls := l, is_images := fmupd imageID \<lparr>meta_layer = layer, meta_children = {||}\<rparr> (is_images s)\<rparr>
              in case set_Add imageID (is_digestSet s1) of
                   (Some e, d) \<Rightarrow> (ImgErr (DigestFailed e), s1\<lparr>is_digestSet := d, is_images := fmdrop imageID (is_images s1)\<rparr>)
                 | (None, d) \<Rightarrow> (ImgOK imageID, s1\<lparr>is_digestSet := d\<rparr>))))"

definition is_Create :: "(string \<Rightarrow> 'c Image option) \<Rightarrow> (string \<Rightarrow> string) \<Rightarrow> 'b StoreBackend \<Rightarrow> ('l, 'h) LayerGetReleaser
    \<Rightarrow> string \<Rightarrow> ('b, 'l, 'h) image_store \<Rightarrow> string image_result \<times> ('b, 'l, 'h) image_store" where
  "is_Create unmarshal H be lgr config s =
     (case create_prepare unmarshal be config s of
        (ImgErr e, s1) \<Rightarrow> (ImgErr e, s1)
      | (ImgPanic m, s1) \<Rightarrow> (ImgPanic m, s1)
      | (ImgOK (rootfs, imageID), s1) \<Rightarrow> create_publish H lgr rootfs imageID s1)"

subsection \<open>Deleting an image\<close>

text \<open>\<open>Delete\<close> ignores the errors of the backend, but not its panics.\<close>

fun delete_links :: "'b StoreBackend \<Rightarrow> string list \<Rightarrow> 'b \<Rightarrow> string option \<times> 'b" where
  "delete_links be [] b = (None, b)"
| "delete_links be (dgst # dgsts) b =
     (case sb_DeleteMetadata be dgst ''parent'' b of
        (ImgPanic m, b') \<Rightarrow> (Some m, b')
      | (_, b') \<Rightarrow> delete_links be dgsts b')"

definition is_Delete :: "'b StoreBackend \<Rightarrow> ('l, 'h) LayerGetReleaser \<Rightarrow> string \<Rightarrow> ('b, 'l, 'h) image_store
    \<Rightarrow> layer_md list image_result \<times> ('b, 'l, 'h) image_store" where
  "is_Delete be lgr dgst s =
     (case fmlookup (is_images s) dgst of
        None \<Rightarrow> (ImgErr UnrecognizedImage, s)
      | Some meta \<Rightarrow>
          (case delete_links be (sorted_list_of_fset (meta_children meta)) (is_fs s) of
             (Some m, b) \<Rightarrow> (ImgPanic m, s\<lparr>is_fs := b\<rparr>)
           | (None, b) \<Rightarrow>
               (case is_GetParent be dgst (s\<lparr>is_fs := b\<rparr>) of
                  ImgPanic m \<Rightarrow> (ImgPanic m, s\<lparr>is_fs := b\<rparr>)
                | p \<Rightarrow>
                    (let images = (case p of ImgOK parent \<Rightarrow> drop_child parent dgst (is_images s) | _ \<Rightarrow> is_images s);
                         s1 = s\<lparr>is_images := fmdrop dgst images, is_digestSet := snd (set_Remove dgst (is_digestSet s))\<rparr>
                     in case sb_Delete be dgst b of
                          (ImgPanic m, b') \<Rightarrow> (ImgPanic m, s1\<lparr>is_fs := b'\<rparr>)
                        | (_, b') \<Rightarrow>
                            (case meta_layer meta of
                               None \<Rightarrow> (ImgOK [], s1\<lparr>is_fs := b'\<rparr>)
                             | Some layer \<Rightarrow>
                                 (case lgr_Release lgr layer (is_ls s1) of
                                    (Released mds, l) \<Rightarrow> (ImgOK mds, s1\<lparr>is_fs := b', is_ls := l\<rparr>)
                                  | (ReleaseError e, l) \<Rightarrow> (ImgErr (LayerFailed e), s1\<lparr>is_fs := b', is_ls := l\<rparr>)
                                  | (ReleasePanic m, l) \<Rightarrow> (ImgPanic m, s1\<lparr>is_fs := b', is_ls := l\<rparr>)))))))"

subsection \<open>Parents and children\<close>

definition is_SetParent :: "'b StoreBackend \<Rightarrow> string \<Rightarrow> string \<Rightarrow> ('b, 'l, 'h) image_store \<Rightarrow> unit image_result \<times> ('b, 'l, 'h) image_store" where
  "is_SetParent be dgst parent s =
     (if fmlookup (is_images s) parent = None then (ImgErr UnknownParent, s)
      else
        (case is_GetParent be dgst s of
           ImgPanic m \<Rightarrow> (ImgPanic m, s)
         | p \<Rightarrow>
             (let images = (case p of ImgOK old \<Rightarrow> drop_child old dgst (is_images s) | _ \<Rightarrow> is_images s);
                  s1 = s\<lparr>is_images := add_child parent dgst images\<rparr>
              in case sb_SetMetadata be dgst ''parent'' parent (is_fs s1) of (r, b) \<Rightarrow> (r, s1\<lparr>is_fs := b\<rparr>))))"

definition is_children :: "string \<Rightarrow> ('b, 'l, 'h) image_store \<Rightarrow> string list" where
  "is_children dgst s = (case fmlookup (is_images s) dgst of None \<Rightarrow> [] | Some m \<Rightarrow> sorted_list_of_fset (meta_children m))"

definition is_Children :: "string \<Rightarrow> ('b, 'l, 'h) image_store \<Rightarrow> string list" where
  "is_Children dgst s = is_children dgst s"

fun images_loop :: "(string \<Rightarrow> 'c Image option) \<Rightarrow> 'b StoreBackend \<Rightarrow> bool \<Rightarrow> string list \<Rightarrow> ('b, 'l, 'h) image_store
    \<Rightarrow> (string, 'c Image) fmap image_result" where
  "images_loop unmarshal be all [] s = ImgOK fmempty"
| "images_loop unmarshal be all (dgst # dgsts) s =
     (if \<not> all \<and> 0 < length (is_children dgst s) then images_loop unmarshal be all dgsts s
      else
        (case is_Get unmarshal be dgst s of
           ImgErr _ \<Rightarrow> images_loop unmarshal be all dgsts s
         | ImgPanic m \<Rightarrow> ImgPanic m
         | ImgOK img \<Rightarrow>
             (case images_loop unmarshal be all dgsts s of
                ImgOK images \<Rightarrow> ImgOK (fmupd dgst img images)
              | r \<Rightarrow> r)))"

definition imagesMap :: "(string \<Rightarrow> 'c Image option) \<Rightarrow> 'b StoreBackend \<Rightarrow> bool \<Rightarrow> ('b, 'l, 'h) image_store \<Rightarrow> (string, 'c Image) fmap image_result" where
  "imagesMap unmarshal be all s = images_loop unmarshal be all (sorted_list_of_fset (fmdom (is_images s))) s"

definition is_Heads :: "(string \<Rightarrow> 'c Image option) \<Rightarrow> 'b StoreBackend \<Rightarrow> ('b, 'l, 'h) image_store \<Rightarrow> (string, 'c Image) fmap image_result" where
  "is_Heads unmarshal be s = imagesMap unmarshal be False s"

definition is_Map :: "(string \<Rightarrow> 'c Image option) \<Rightarrow> 'b StoreBackend \<Rightarrow> ('b, 'l, 'h) image_store \<Rightarrow> (string, 'c Image) fmap image_result" where
  "is_Map unmarshal be s = imagesMap unmarshal be True s"

definition is_Search :: "string \<Rightarrow> ('b, 'l, 'h) image_store \<Rightarrow> string image_result" where
  "is_Search term s =
     (case set_Lookup term (is_digestSet s) of
        Inr dgst \<Rightarrow> ImgOK dgst
      | Inl ErrDigestNotFound \<Rightarrow> ImgErr (NoSuchImage term)
      | Inl ErrDigestAmbiguous \<Rightarrow> ImgErr AmbiguousImage
      | Inl ErrDigestPanic \<Rightarrow> ImgPanic no_colon)"

end
