(* ===== verification/ImageSystem.thy ===== *)
theory ImageSystem
  imports ImageStore
begin

text \<open>
  The image store over the layer store and the file system: its invariant is proved in the locale
  \<open>image_system\<close> from the contracts of the two interfaces, and holds of the engine's stores, whose steps
  interleave, by interpretation.
\<close>

section \<open>The contract of the layer store\<close>

text \<open>
  \<open>has\<close> is the set of the registered layers and \<open>held\<close> the set of the references held. \<open>Get\<close> hands out a
  new reference to a registered layer; a layer stays registered while a reference to it is held.
\<close>

locale layer_provider =
  fixes lgr :: "('l, 'h) LayerGetReleaser" and chain :: "'h \<Rightarrow> string" and has :: "'l \<Rightarrow> string \<Rightarrow> bool"
    and held :: "'l \<Rightarrow> 'h \<Rightarrow> bool" and linv :: "'l \<Rightarrow> bool"
  assumes lgr_Get_has: "linv l \<Longrightarrow> has l c \<Longrightarrow> \<exists>h l'. lgr_Get lgr c l = (LayerOK h, l') \<and> chain h = c \<and> \<not> held l h \<and>
      held l' = (held l)(h := True) \<and> linv l' \<and> has l' = has l"
    and lgr_Get_missing: "linv l \<Longrightarrow> \<not> has l c \<Longrightarrow> \<exists>e. lgr_Get lgr c l = (LayerErr e, l)"
    and lgr_Release_law: "linv l \<Longrightarrow> lgr_Release lgr h l = (r, l') \<Longrightarrow> linv l' \<and> (\<forall>m. r \<noteq> ReleasePanic m) \<and> held l' = (held l)(h := False)"
    and held_has: "linv l \<Longrightarrow> held l h \<Longrightarrow> has l (chain h)"
begin

text \<open>An image's layer: available if the image has no layers or the chain is registered.\<close>

lemma get_layer_law:
  assumes "linv l" and g: "get_layer H lgr rootfs l = (r, l')"
  shows "(case r of
      ImgOK None \<Rightarrow> rootfs_ChainID H rootfs = '''' \<and> l' = l
    | ImgOK (Some h) \<Rightarrow> rootfs_ChainID H rootfs \<noteq> '''' \<and> chain h = rootfs_ChainID H rootfs \<and> has l (chain h) \<and> \<not> held l h \<and>
        held l' = (held l)(h := True) \<and> linv l' \<and> has l' = has l
    | ImgErr e \<Rightarrow> (\<exists>x. e = LayerFailed x) \<and> l' = l \<and> rootfs_ChainID H rootfs \<noteq> '''' \<and> \<not> has l (rootfs_ChainID H rootfs)
    | ImgPanic m \<Rightarrow> False)"
proof (cases "rootfs_ChainID H rootfs = ''''")
  case True
  then show ?thesis using g by (auto simp: get_layer_def)
next
  case False
  then show ?thesis
    using g lgr_Get_has [OF assms(1), of "rootfs_ChainID H rootfs"] lgr_Get_missing [OF assms(1), of "rootfs_ChainID H rootfs"]
    by (cases "has l (rootfs_ChainID H rootfs)") (auto simp: get_layer_def Let_def)
qed

end

definition layer_ops :: "(nat \<Rightarrow> bool \<times> bool) \<Rightarrow> (layerStore, layer_handle) LayerGetReleaser" where
  "layer_ops env = \<lparr>lgr_Get = ls_Get, lgr_Release = ls_Release env\<rparr>"

definition registered :: "layerStore \<Rightarrow> string \<Rightarrow> bool" where
  "registered s c \<longleftrightarrow> c |\<in>| fmdom (ls_layerMap s)"

definition layers_ok :: "(string \<Rightarrow> string) \<Rightarrow> nat multiset \<Rightarrow> layerStore \<Rightarrow> bool" where
  "layers_ok H F s \<longleftrightarrow> ls_inv F s \<and> disk_ok H s"

lemma ls_Get_registered: "ls_Get c s = (r, t) \<Longrightarrow> registered t = registered s"
  by (auto simp: fun_eq_iff registered_def ls_Get_def getWithoutLock_def getReference_def upd_layer_def Let_def split: option.splits)

interpretation lsp: layer_provider "layer_ops env" lh_ChainID registered held "layers_ok H F" for env H F
proof
  fix l assume ok: "layers_ok H F l"
  then have inv: "ls_inv F l" and d: "disk_ok H l" by (simp_all add: layers_ok_def)
  show "\<exists>h l'. lgr_Get (layer_ops env) c l = (LayerOK h, l') \<and> lh_ChainID h = c \<and> \<not> held l h \<and>
      held l' = (held l)(h := True) \<and> layers_ok H F l' \<and> registered l' = registered l" if "registered l c" for c
  proof -
    obtain r t where g: "ls_Get c l = (r, t)" by (cases "ls_Get c l")
    have "layers_ok H F t" using ls_Get_spec(1) [OF inv g] d same_core_disk [OF ls_Get_core [OF g]] by (simp add: layers_ok_def)
    then show ?thesis using ls_Get_spec(2) [OF inv g] that g ls_Get_registered [OF g]
      by (cases r) (auto simp: layer_ops_def registered_def fmlookup_dom_iff)
  qed
  show "\<exists>e. lgr_Get (layer_ops env) c l = (LayerErr e, l)" if "\<not> registered l c" for c
    using that by (auto simp: layer_ops_def registered_def ls_Get_def getWithoutLock_def fmlookup_dom_iff split: option.splits)
  show "layers_ok H F l' \<and> (\<forall>m. r \<noteq> ReleasePanic m) \<and> held l' = (held l)(h := False)"
    if "lgr_Release (layer_ops env) h l = (r, l')" for h r l'
  proof -
    have g: "ls_Release env h l = (r, l')" using that by (simp add: layer_ops_def)
    show ?thesis using ls_Release_spec [OF inv g] ls_Release_disk [OF inv d g] by (simp add: layers_ok_def)
  qed
  show "registered l (lh_ChainID h)" if "held l h" for h
    using held_live [OF inv that] by (metis registered_def fmdomI)
qed

section \<open>The invariant of the image store\<close>

text \<open>
  What an image retains: a reference to the layer its configuration names, or none if it names none.
\<close>

definition retains :: "(string \<Rightarrow> string) \<Rightarrow> ('h \<Rightarrow> string) \<Rightarrow> ('h \<Rightarrow> bool) \<Rightarrow> RootFS \<Rightarrow> 'h option \<Rightarrow> bool" where
  "retains H chain holds rootfs layer \<longleftrightarrow>
     (case layer of None \<Rightarrow> rootfs_ChainID H rootfs = ''''
      | Some h \<Rightarrow> rootfs_ChainID H rootfs \<noteq> '''' \<and> chain h = rootfs_ChainID H rootfs \<and> holds h)"

text \<open>The chain identifier of the layer, if there is one.\<close>

definition chain_name :: "(string \<Rightarrow> string) \<Rightarrow> RootFS \<Rightarrow> string option" where
  "chain_name H rootfs = (if rootfs_ChainID H rootfs = '''' then None else Some (rootfs_ChainID H rootfs))"

text \<open>A configuration that names the root file system of an image.\<close>

definition config_for :: "(string \<Rightarrow> 'c Image option) \<Rightarrow> (string \<Rightarrow> string) \<Rightarrow> string \<Rightarrow> RootFS \<Rightarrow> bool" where
  "config_for unmarshal H dgst rootfs \<longleftrightarrow> (\<exists>config img. H config = dgst \<and> unmarshal config = Some img \<and> im_RootFS img = Some rootfs)"

definition images_inv :: "(string \<Rightarrow> 'c Image option) \<Rightarrow> (string \<Rightarrow> string) \<Rightarrow> ('h \<Rightarrow> string) \<Rightarrow> ('h \<Rightarrow> bool) \<Rightarrow> (string, 'h imageMeta) fmap \<Rightarrow> bool" where
  "images_inv unmarshal H chain holds images \<longleftrightarrow>
     (\<forall>d m. fmlookup images d = Some m \<longrightarrow>
        (\<exists>rootfs. config_for unmarshal H d rootfs \<and> retains H chain holds rootfs (meta_layer m)) \<and>
        (\<forall>q. q |\<in>| meta_children m \<longrightarrow> CHR '':'' \<in> set q)) \<and>
     (\<forall>d d' m m' h. fmlookup images d = Some m \<longrightarrow> fmlookup images d' = Some m' \<longrightarrow>
        meta_layer m = Some h \<longrightarrow> meta_layer m' = Some h \<longrightarrow> d = d')"

text \<open>Every parent link on disk leads to an image that knows the child.\<close>

definition links_inv :: "(string \<Rightarrow> string \<Rightarrow> string option) \<Rightarrow> (string, 'h imageMeta) fmap \<Rightarrow> bool" where
  "links_inv metadata images \<longleftrightarrow>
     (\<forall>q p. metadata q ''parent'' = Some p \<longrightarrow> (\<exists>m. fmlookup images p = Some m \<and> q |\<in>| meta_children m))"

definition index_inv :: "digestEntry list \<Rightarrow> (string, 'h imageMeta) fmap \<Rightarrow> bool" where
  "index_inv es images \<longleftrightarrow> set_inv es \<and> digests es = fset (fmdom images)"

lemma images_inv_held:
  assumes "images_inv unmarshal H chain holds images" "fmlookup images d = Some m" "meta_layer m = Some h"
  shows "holds h"
proof -
  obtain rootfs where "retains H chain holds rootfs (meta_layer m)" using assms(1,2) unfolding images_inv_def by blast
  then show ?thesis using assms(3) by (simp add: retains_def)
qed

text \<open>Changes to the images that the invariant is kept by.\<close>

lemma images_inv_layers:
  assumes "images_inv unmarshal H chain holds images"
    and "\<And>d m h. fmlookup images d = Some m \<Longrightarrow> meta_layer m = Some h \<Longrightarrow> holds h \<Longrightarrow> holds' h"
  shows "images_inv unmarshal H chain holds' images"
proof -
  have "retains H chain holds' rootfs (meta_layer m)" if "fmlookup images d = Some m" "retains H chain holds rootfs (meta_layer m)" for d m rootfs
    using that(2) assms(2) [OF that(1)] by (auto simp: retains_def split: option.splits)
  then show ?thesis using assms(1) unfolding images_inv_def by blast
qed

lemma images_inv_add:
  assumes inv: "images_inv unmarshal H chain holds images" and c: "config_for unmarshal H d rootfs"
    and l: "retains H chain holds rootfs layer"
    and new: "\<And>h d' m. layer = Some h \<Longrightarrow> fmlookup images d' = Some m \<Longrightarrow> meta_layer m \<noteq> Some h"
  shows "images_inv unmarshal H chain holds (fmupd d \<lparr>meta_layer = layer, meta_children = {||}\<rparr> images)"
  using inv c l new unfolding images_inv_def by (auto 0 3)

lemma images_inv_drop: "images_inv unmarshal H chain holds images \<Longrightarrow> images_inv unmarshal H chain holds (fmdrop d images)"
  unfolding images_inv_def by (metis fmlookup_drop option.distinct(1))

lemma images_inv_children:
  assumes inv: "images_inv unmarshal H chain holds images" and m: "fmlookup images p = Some m"
    and c: "\<And>q. q |\<in>| C \<Longrightarrow> q |\<in>| meta_children m \<or> CHR '':'' \<in> set q"
  shows "images_inv unmarshal H chain holds (fmupd p (m\<lparr>meta_children := C\<rparr>) images)"
proof -
  have 1: "(\<exists>rootfs. config_for unmarshal H d rootfs \<and> retains H chain holds rootfs (meta_layer k)) \<and>
      (\<forall>q. q |\<in>| meta_children k \<longrightarrow> CHR '':'' \<in> set q)" if "fmlookup images d = Some k" for d k
    using inv that unfolding images_inv_def by blast
  have 2: "d = d'" if "fmlookup images d = Some k" "fmlookup images d' = Some k'" "meta_layer k = Some h" "meta_layer k' = Some h" for d d' k k' h
    using inv that unfolding images_inv_def by blast
  show ?thesis unfolding images_inv_def
  proof (intro conjI allI impI)
    fix d k assume k: "fmlookup (fmupd p (m\<lparr>meta_children := C\<rparr>) images) d = Some k"
    show "\<exists>rootfs. config_for unmarshal H d rootfs \<and> retains H chain holds rootfs (meta_layer k)"
      using k 1 [of d] 1 [OF m] by (auto split: if_splits)
    show "CHR '':'' \<in> set q" if "q |\<in>| meta_children k" for q
      using k that 1 [of d] 1 [OF m] c [of q] by (auto split: if_splits)
  next
    fix d d' k k' h assume "fmlookup (fmupd p (m\<lparr>meta_children := C\<rparr>) images) d = Some k"
      "fmlookup (fmupd p (m\<lparr>meta_children := C\<rparr>) images) d' = Some k'" "meta_layer k = Some h" "meta_layer k' = Some h"
    then show "d = d'" using 2 m by (auto split: if_splits)
  qed
qed

lemma drop_child_lookup:
  "fmlookup (drop_child p q images) d =
     map_option (\<lambda>m. if d = p then m\<lparr>meta_children := meta_children m |-| {|q|}\<rparr> else m) (fmlookup images d)"
  by (cases "fmlookup images d") (auto simp: drop_child_def split: option.splits)

lemma add_child_lookup:
  "fmlookup (add_child p q images) d =
     map_option (\<lambda>m. if d = p then m\<lparr>meta_children := finsert q (meta_children m)\<rparr> else m) (fmlookup images d)"
  by (cases "fmlookup images d") (auto simp: add_child_def split: option.splits)

text \<open>No image has gained or changed its layer.\<close>

definition same_layers :: "(string, 'h imageMeta) fmap \<Rightarrow> (string, 'h imageMeta) fmap \<Rightarrow> bool" where
  "same_layers images images' \<longleftrightarrow>
     (\<forall>d m. fmlookup images' d = Some m \<longrightarrow> (\<exists>k. fmlookup images d = Some k \<and> meta_layer k = meta_layer m))"

lemma images_inv_more_children:
  assumes inv: "images_inv unmarshal H chain holds images"
    and lk: "\<And>p. fmlookup images' p = map_option (\<lambda>m. m\<lparr>meta_children := meta_children m |\<union>| C p\<rparr>) (fmlookup images p)"
    and C: "\<And>p q. q |\<in>| C p \<Longrightarrow> CHR '':'' \<in> set q"
  shows "images_inv unmarshal H chain holds images'"
proof -
  have old: "\<exists>k. fmlookup images d = Some k \<and> meta_layer k = meta_layer m \<and> meta_children m = meta_children k |\<union>| C d"
    if "fmlookup images' d = Some m" for d m using that by (auto simp: lk)
  show ?thesis unfolding images_inv_def
  proof (intro conjI allI impI)
    fix d m assume "fmlookup images' d = Some m"
    then obtain k where k: "fmlookup images d = Some k" "meta_layer k = meta_layer m" "meta_children m = meta_children k |\<union>| C d"
      using old by blast
    then show "\<exists>rootfs. config_for unmarshal H d rootfs \<and> retains H chain holds rootfs (meta_layer m)"
      using inv unfolding images_inv_def by metis
    show "CHR '':'' \<in> set q" if "q |\<in>| meta_children m" for q
      using inv k that C unfolding images_inv_def by (metis funion_iff)
  next
    fix d d' m m' h
    assume "fmlookup images' d = Some m" "fmlookup images' d' = Some m'" "meta_layer m = Some h" "meta_layer m' = Some h"
    then show "d = d'" using old inv unfolding images_inv_def by metis
  qed
qed

lemma child_dom [simp]: "fmdom (drop_child p q images) = fmdom images" "fmdom (add_child p q images) = fmdom images"
  by (auto simp: drop_child_def add_child_def split: option.splits intro: fmdomI)

lemma images_inv_drop_child: "images_inv unmarshal H chain holds images \<Longrightarrow> images_inv unmarshal H chain holds (drop_child p q images)"
  by (auto simp: drop_child_def split: option.splits intro: images_inv_children)

lemma images_inv_add_child: "images_inv unmarshal H chain holds images \<Longrightarrow> CHR '':'' \<in> set q \<Longrightarrow>
    images_inv unmarshal H chain holds (add_child p q images)"
  by (auto simp: add_child_def split: option.splits intro!: images_inv_children)

definition store_inv :: "(string \<Rightarrow> 'c Image option) \<Rightarrow> (string \<Rightarrow> string) \<Rightarrow> ('b \<Rightarrow> string \<Rightarrow> string \<Rightarrow> string option) \<Rightarrow> ('b \<Rightarrow> bool)
    \<Rightarrow> ('h \<Rightarrow> string) \<Rightarrow> ('l \<Rightarrow> 'h \<Rightarrow> bool) \<Rightarrow> ('l \<Rightarrow> bool) \<Rightarrow> ('b, 'l, 'h) image_store \<Rightarrow> bool" where
  "store_inv unmarshal H metadata binv chain holds linv s \<longleftrightarrow>
     linv (is_ls s) \<and> binv (is_fs s) \<and> images_inv unmarshal H chain (holds (is_ls s)) (is_images s) \<and>
     links_inv (metadata (is_fs s)) (is_images s) \<and> index_inv (is_digestSet s) (is_images s)"

lemma links_invD: "links_inv metadata images \<Longrightarrow> metadata q ''parent'' = Some p \<Longrightarrow> \<exists>m. fmlookup images p = Some m \<and> q |\<in>| meta_children m"
  by (auto simp: links_inv_def)

lemma images_inv_canonical:
  assumes "images_inv unmarshal H chain holds images" "fmlookup images d = Some m" "\<And>x. canonical (H x)"
  shows "canonical d" and "CHR '':'' \<in> set d"
proof -
  obtain config where "H config = d" using assms(1,2) unfolding images_inv_def config_for_def by blast
  then show d: "canonical d" using assms(3) by auto
  obtain hex where "d = ''sha256:'' @ hex" using canonicalE [OF d] by blast
  then show "CHR '':'' \<in> set d" by simp
qed

text \<open>The images on disk: those whose content decodes to a configuration with a root file system.\<close>

definition disk_image :: "(string \<Rightarrow> 'c Image option) \<Rightarrow> (string \<Rightarrow> string option) \<Rightarrow> string \<Rightarrow> RootFS \<Rightarrow> bool" where
  "disk_image unmarshal content d rootfs \<longleftrightarrow>
     (\<exists>config img. content d = Some config \<and> unmarshal config = Some img \<and> im_RootFS img = Some rootfs)"

locale image_system =
  image_backend be H content metadata binv + layer_provider lgr chain has held linv
  for be :: "'b StoreBackend" and H content metadata binv and lgr :: "('l, 'h) LayerGetReleaser" and chain has held linv +
  fixes unmarshal :: "string \<Rightarrow> 'c Image option"
begin

abbreviation inv :: "('b, 'l, 'h) image_store \<Rightarrow> bool" where
  "inv \<equiv> store_inv unmarshal H metadata binv chain held linv"

lemma prepare_law:
  assumes inv: "inv s" and p: "create_prepare unmarshal be config s = (r, t)"
    and root: "\<And>img. unmarshal config = Some img \<Longrightarrow> im_RootFS img \<noteq> None"
  shows "inv t" and "is_images t = is_images s" and "is_ls t = is_ls s" and "metadata (is_fs t) = metadata (is_fs s)"
    and "case r of ImgOK (rootfs, d) \<Rightarrow> d = H config \<and> disk_image unmarshal (content (is_fs t)) d rootfs \<and> content (is_fs t) = (content (is_fs s))(d \<mapsto> config)
      | ImgErr e \<Rightarrow> content (is_fs t) = content (is_fs s) | ImgPanic m \<Rightarrow> False"
proof -
  have b: "binv (is_fs s)" using inv by (simp add: store_inv_def)
  obtain w b' where w: "sb_Set be config (is_fs s) = (w, b')" by (cases "sb_Set be config (is_fs s)")
  note law = Set_law [OF b w]
  have "(r, t) = (r, s) \<and> (\<exists>e. r = ImgErr e) \<or> (\<exists>img rootfs. unmarshal config = Some img \<and> im_RootFS img = Some rootfs \<and> t = s\<lparr>is_fs := b'\<rparr> \<and>
      (case w of ImgOK d \<Rightarrow> r = ImgOK (rootfs, d) | ImgErr e \<Rightarrow> r = ImgErr e | ImgPanic m \<Rightarrow> False))"
    using p root w law by (auto simp: create_prepare_def split: option.splits if_splits image_result.splits)
  then have "inv t \<and> is_images t = is_images s \<and> is_ls t = is_ls s \<and> metadata (is_fs t) = metadata (is_fs s) \<and>
    (case r of ImgOK (rootfs, d) \<Rightarrow> d = H config \<and> disk_image unmarshal (content (is_fs t)) d rootfs \<and> content (is_fs t) = (content (is_fs s))(d \<mapsto> config)
      | ImgErr e \<Rightarrow> content (is_fs t) = content (is_fs s) | ImgPanic m \<Rightarrow> False)"
    using inv law by (auto simp: store_inv_def disk_image_def split: image_result.splits)
  then show "inv t" "is_images t = is_images s" "is_ls t = is_ls s" "metadata (is_fs t) = metadata (is_fs s)"
    "case r of ImgOK (rootfs, d) \<Rightarrow> d = H config \<and> disk_image unmarshal (content (is_fs t)) d rootfs \<and> content (is_fs t) = (content (is_fs s))(d \<mapsto> config)
      | ImgErr e \<Rightarrow> content (is_fs t) = content (is_fs s) | ImgPanic m \<Rightarrow> False" by blast+
qed

text \<open>Adding an image with its layer, as \<open>Create\<close> and \<open>restore\<close> do.\<close>

lemma add_image:
  assumes images: "images_inv unmarshal H chain (held l) images" and index: "index_inv es images" and l: "linv l" and b: "binv b"
    and c: "config_for unmarshal H d rootfs" and g: "get_layer H lgr rootfs l = (ImgOK layer, l')"
  obtains es' where "set_Add d es = (None, es')" "linv l'" "has l' = has l"
    "images_inv unmarshal H chain (held l') (fmupd d \<lparr>meta_layer = layer, meta_children = {||}\<rparr> images)"
    "index_inv es' (fmupd d \<lparr>meta_layer = layer, meta_children = {||}\<rparr> images)" "\<And>h. held l h \<Longrightarrow> held l' h"
    "rootfs_ChainID H rootfs = '''' \<or> has l (rootfs_ChainID H rootfs)" "map_option chain layer = chain_name H rootfs"
proof -
  note law = get_layer_law [OF l g]
  obtain config where "H config = d" using c by (auto simp: config_for_def)
  then have d: "canonical d" using canonical_H [OF b] by auto
  obtain es' where es: "set_Add d es = (None, es')" "set_inv es'" "digests es' = insert d (digests es)"
    by (rule set_Add_spec [OF _ d]) (use index in \<open>auto simp: index_inv_def\<close>)
  have mono: "held l h \<Longrightarrow> held l' h" for h using law by (auto split: option.splits)
  have inv': "images_inv unmarshal H chain (held l') images" by (rule images_inv_layers [OF images]) (rule mono)
  have "retains H chain (held l') rootfs layer" using law by (auto simp: retains_def split: option.splits)
  moreover have "meta_layer m \<noteq> Some h" if "layer = Some h" "fmlookup images d' = Some m" for h d' m
  proof
    assume "meta_layer m = Some h"
    then have "held l h" using images_inv_held [OF images that(2)] by blast
    then show False using law that(1) by simp
  qed
  ultimately have "images_inv unmarshal H chain (held l') (fmupd d \<lparr>meta_layer = layer, meta_children = {||}\<rparr> images)"
    by (rule images_inv_add [OF inv' c])
  moreover have "index_inv es' (fmupd d \<lparr>meta_layer = layer, meta_children = {||}\<rparr> images)"
    using es index by (simp add: index_inv_def)
  ultimately show thesis using that es(1) mono law l by (auto simp: chain_name_def split: option.splits)
qed

lemma publish_law:
  assumes inv: "inv s" and c: "config_for unmarshal H d rootfs" and p: "create_publish H lgr rootfs d s = (r, t)"
  shows "inv t" and "is_fs t = is_fs s"
    and "\<And>x m. fmlookup (is_images t) x = Some m \<Longrightarrow> fmlookup (is_images s) x = Some m \<or> x = d \<and> map_option chain (meta_layer m) = chain_name H rootfs"
    and "case r of ImgOK x \<Rightarrow> x = d \<and> fmdom (is_images t) = finsert d (fmdom (is_images s))
      | ImgErr e \<Rightarrow> t = s \<and> (\<exists>x. e = LayerFailed x) \<and> rootfs_ChainID H rootfs \<noteq> '''' \<and> \<not> has (is_ls s) (rootfs_ChainID H rootfs) \<and>
          fmlookup (is_images s) d = None
      | ImgPanic m \<Rightarrow> False"
proof -
  have i: "linv (is_ls s)" "binv (is_fs s)" "images_inv unmarshal H chain (held (is_ls s)) (is_images s)"
    "links_inv (metadata (is_fs s)) (is_images s)" "index_inv (is_digestSet s) (is_images s)"
    using inv by (simp_all add: store_inv_def)
  have "inv t \<and> is_fs t = is_fs s \<and>
    (\<forall>x m. fmlookup (is_images t) x = Some m \<longrightarrow> fmlookup (is_images s) x = Some m \<or> x = d \<and> map_option chain (meta_layer m) = chain_name H rootfs) \<and> (case r of ImgOK x \<Rightarrow> x = d \<and> fmdom (is_images t) = finsert d (fmdom (is_images s))
      | ImgErr e \<Rightarrow> t = s \<and> (\<exists>x. e = LayerFailed x) \<and> rootfs_ChainID H rootfs \<noteq> '''' \<and> \<not> has (is_ls s) (rootfs_ChainID H rootfs) \<and>
          fmlookup (is_images s) d = None
      | ImgPanic m \<Rightarrow> False)"
  proof (cases "fmlookup (is_images s) d")
    case (Some m)
    then show ?thesis using p inv fmdomI [OF Some] by (auto simp: create_publish_def)
  next
    case None
    obtain w l where g: "get_layer H lgr rootfs (is_ls s) = (w, l)" by (cases "get_layer H lgr rootfs (is_ls s)")
    note law = get_layer_law [OF i(1) g]
    show ?thesis
    proof (cases w)
      case (ImgErr e)
      then show ?thesis using p None g law inv by (auto simp: create_publish_def)
    next
      case (ImgPanic m)
      then show ?thesis using law by simp
    next
      case (ImgOK layer)
      let ?images = "fmupd d \<lparr>meta_layer = layer, meta_children = {||}\<rparr> (is_images s)"
      obtain es where es: "set_Add d (is_digestSet s) = (None, es)" "linv l" "images_inv unmarshal H chain (held l) ?images" "index_inv es ?images"
        "map_option chain layer = chain_name H rootfs"
        using add_image [OF i(3,5,1,2) c g [unfolded ImgOK]] by metis
      have "links_inv (metadata (is_fs s)) ?images"
        using i(4) None by (fastforce simp: links_inv_def)
      then show ?thesis using p None g ImgOK es i(2) by (auto simp: create_publish_def store_inv_def Let_def split: if_splits)
    qed
  qed
  then show "inv t" "is_fs t = is_fs s"
    "\<And>x m. fmlookup (is_images t) x = Some m \<Longrightarrow> fmlookup (is_images s) x = Some m \<or> x = d \<and> map_option chain (meta_layer m) = chain_name H rootfs"
    "case r of ImgOK x \<Rightarrow> x = d \<and> fmdom (is_images t) = finsert d (fmdom (is_images s))
      | ImgErr e \<Rightarrow> t = s \<and> (\<exists>x. e = LayerFailed x) \<and> rootfs_ChainID H rootfs \<noteq> '''' \<and> \<not> has (is_ls s) (rootfs_ChainID H rootfs) \<and>
          fmlookup (is_images s) d = None
      | ImgPanic m \<Rightarrow> False" by blast+
qed

lemma others_law: "inv s \<Longrightarrow> linv l \<Longrightarrow> (\<And>d m h. fmlookup (is_images s) d = Some m \<Longrightarrow> meta_layer m = Some h \<Longrightarrow> held (is_ls s) h \<Longrightarrow> held l h) \<Longrightarrow>
    inv (s\<lparr>is_ls := l\<rparr>)"
  using images_inv_layers [of unmarshal H chain "held (is_ls s)" "is_images s" "held l"] by (auto simp: store_inv_def)

end

section \<open>Deleting and linking\<close>

context image_system
begin

lemma delete_links_law:
  assumes "binv b" "\<forall>q \<in> set ds. CHR '':'' \<in> set q" and rm: "\<And>q b e. fst (sb_DeleteMetadata be q ''parent'' b) \<noteq> ImgErr e"
    and d: "delete_links be ds b = (r, b')"
  shows "r = None \<and> binv b' \<and> content b' = content b \<and>
    metadata b' = (\<lambda>q. if q \<in> set ds then (metadata b q)(''parent'' := None) else metadata b q)"
  using assms(1,2) d
proof (induction ds arbitrary: b)
  case Nil
  then show ?case by simp
next
  case (Cons q ds)
  obtain w b1 where w: "sb_DeleteMetadata be q ''parent'' b = (w, b1)" by (cases "sb_DeleteMetadata be q ''parent'' b")
  have "CHR '':'' \<in> set q" using Cons.prems(2) by simp
  note law = DeleteMetadata_law [OF Cons.prems(1) this w]
  have ok: "\<exists>x. w = ImgOK x" using law rm [of q b] w by (cases w) auto
  then have "delete_links be ds b1 = (r, b')" using Cons.prems(3) w by auto
  then have "r = None \<and> binv b' \<and> content b' = content b1 \<and>
      metadata b' = (\<lambda>q. if q \<in> set ds then (metadata b1 q)(''parent'' := None) else metadata b1 q)"
    using Cons.IH [of b1] Cons.prems(2) law by simp
  then show ?case using law ok by (auto simp: fun_eq_iff)
qed

lemma GetParent_cases:
  assumes "binv (is_fs s)" "CHR '':'' \<in> set d"
  shows "(\<exists>p. is_GetParent be d s = ImgOK p \<and> metadata (is_fs s) d ''parent'' = Some p) \<or>
         (\<exists>e. is_GetParent be d s = ImgErr e) \<and> metadata (is_fs s) d ''parent'' = None"
  using GetMetadata_some [OF assms(1), of d "''parent''"] GetMetadata_none [OF assms, of "''parent''"]
  by (cases "metadata (is_fs s) d ''parent''") (auto simp: is_GetParent_def)

text \<open>Forgetting an image: no other image shares its reference, and no link leads to it.\<close>

lemma forget_image:
  assumes images: "images_inv unmarshal H chain holds images" and m: "fmlookup images d = Some m"
    and h: "\<And>h. holds' h \<longleftrightarrow> holds h \<and> meta_layer m \<noteq> Some h"
  shows "images_inv unmarshal H chain holds' (fmdrop d images)"
proof (rule images_inv_layers [OF images_inv_drop [OF images]])
  fix d' m' h assume m': "fmlookup (fmdrop d images) d' = Some m'" "meta_layer m' = Some h" "holds h"
  then have "d' \<noteq> d" "fmlookup images d' = Some m'" by (auto split: if_splits)
  then have "meta_layer m \<noteq> Some h" using images m m'(2) unfolding images_inv_def by blast
  then show "holds' h" using h m'(3) by simp
qed

lemma forget_links:
  assumes links: "links_inv md images" and m: "fmlookup images d = Some m"
    and md: "\<And>q p. md' q ''parent'' = Some p \<Longrightarrow> md q ''parent'' = Some p \<and> q \<noteq> d \<and> q |\<notin>| meta_children m"
    and images': "\<And>p k q. p \<noteq> d \<Longrightarrow> fmlookup images p = Some k \<Longrightarrow> q \<noteq> d \<Longrightarrow> q |\<in>| meta_children k \<Longrightarrow>
      \<exists>k'. fmlookup images' p = Some k' \<and> q |\<in>| meta_children k'"
  shows "links_inv md' (fmdrop d images')"
  unfolding links_inv_def
proof (intro allI impI)
  fix q p assume q: "md' q ''parent'' = Some p"
  then obtain k where k: "fmlookup images p = Some k" "q |\<in>| meta_children k" using links_invD [OF links] md by blast
  then have "p \<noteq> d" using md [OF q] m by auto
  then show "\<exists>m. fmlookup (fmdrop d images') p = Some m \<and> q |\<in>| meta_children m"
    using images' [OF _ k(1) _ k(2)] md [OF q] by auto
qed

lemma is_Delete_law:
  assumes inv: "inv s" and rm: "\<And>q b e. fst (sb_DeleteMetadata be q ''parent'' b) \<noteq> ImgErr e"
    and rd: "\<And>b e. content b d \<noteq> None \<Longrightarrow> fst (sb_Delete be d b) \<noteq> ImgErr e" and r: "is_Delete be lgr d s = (r, t)"
  shows "inv t" and "\<And>m. r \<noteq> ImgPanic m" and "fmdom (is_images t) = fmdom (is_images s) |-| {|d|}"
    and "fmlookup (is_images s) d \<noteq> None \<Longrightarrow> content (is_fs t) = (content (is_fs s))(d := None)"
    and "fmlookup (is_images s) d = None \<Longrightarrow> t = s" and "same_layers (is_images s) (is_images t)"
proof -
  have i: "linv (is_ls s)" "binv (is_fs s)" "images_inv unmarshal H chain (held (is_ls s)) (is_images s)"
    "links_inv (metadata (is_fs s)) (is_images s)" "index_inv (is_digestSet s) (is_images s)"
    using inv by (simp_all add: store_inv_def)
  have "inv t \<and> (\<forall>m. r \<noteq> ImgPanic m) \<and> fmdom (is_images t) = fmdom (is_images s) |-| {|d|} \<and>
      (fmlookup (is_images s) d \<noteq> None \<longrightarrow> content (is_fs t) = (content (is_fs s))(d := None)) \<and>
      (fmlookup (is_images s) d = None \<longrightarrow> t = s) \<and> same_layers (is_images s) (is_images t)"
  proof (cases "fmlookup (is_images s) d")
    case None
    then have "d |\<notin>| fmdom (is_images s)" by (simp add: fmlookup_dom_iff)
    then show ?thesis using r None inv by (auto simp: is_Delete_def same_layers_def)
  next
    case (Some meta)
    note c = images_inv_canonical [OF i(3) Some canonical_H [OF i(2)]]
    let ?q = "sorted_list_of_fset (meta_children meta)"
    have ch: "\<forall>q \<in> set ?q. CHR '':'' \<in> set q" using i(3) Some unfolding images_inv_def by auto
    obtain x b1 where b1: "delete_links be ?q (is_fs s) = (x, b1)" by (cases "delete_links be ?q (is_fs s)")
    have dl: "x = None" "binv b1" "content b1 = content (is_fs s)"
      "metadata b1 = (\<lambda>q. if q |\<in>| meta_children meta then (metadata (is_fs s) q)(''parent'' := None) else metadata (is_fs s) q)"
      using delete_links_law [OF i(2) ch rm b1] by simp_all
    define images where "images = (case is_GetParent be d (s\<lparr>is_fs := b1\<rparr>) of
      ImgOK parent \<Rightarrow> drop_child parent d (is_images s) | _ \<Rightarrow> is_images s)"
    have im: "images = is_images s \<or> (\<exists>p. images = drop_child p d (is_images s))"
      by (auto simp: images_def split: image_result.splits)
    obtain w b2 where b2: "sb_Delete be d b1 = (w, b2)" by (cases "sb_Delete be d b1")
    note law = Delete_law [OF dl(2) c(2) b2]
    have after: "binv b2" "content b2 = (content b1)(d := None)" "metadata b2 = (metadata b1)(d := Map.empty)" "\<forall>m. w \<noteq> ImgPanic m"
    proof -
      have "content b1 d = None \<Longrightarrow> metadata b1 d = Map.empty" using metadata_content [OF dl(2), of d] by (metis not_None_eq ext)
      moreover have "content b1 d = None" if "w = ImgErr e" for e using rd [of b1 e] b2 that by fastforce
      ultimately have "content b2 = (content b1)(d := None) \<and> metadata b2 = (metadata b1)(d := Map.empty)"
        using law by (cases w) (auto simp: fun_upd_idem)
      then show "binv b2" "content b2 = (content b1)(d := None)" "metadata b2 = (metadata b1)(d := Map.empty)" "\<forall>m. w \<noteq> ImgPanic m"
        using law by auto
    qed
    define es where "es = snd (set_Remove d (is_digestSet s))"
    let ?s = "s\<lparr>is_images := fmdrop d images, is_digestSet := es, is_fs := b2\<rparr>"
    have rt: "case meta_layer meta of None \<Rightarrow> r = ImgOK [] \<and> t = ?s
      | Some h \<Rightarrow> (case lgr_Release lgr h (is_ls s) of
          (Released mds, l) \<Rightarrow> r = ImgOK mds \<and> t = ?s\<lparr>is_ls := l\<rparr>
        | (ReleaseError e, l) \<Rightarrow> r = ImgErr (LayerFailed e) \<and> t = ?s\<lparr>is_ls := l\<rparr>
        | (ReleasePanic m, l) \<Rightarrow> r = ImgPanic m \<and> t = ?s\<lparr>is_ls := l\<rparr>)"
      using r Some b1 dl(1) b2 after(4) GetParent_cases [of "s\<lparr>is_fs := b1\<rparr>" d] dl(2) c(2)
      by (auto simp: is_Delete_def Let_def images_def es_def split: image_result.splits option.splits release_result.splits prod.splits)
    have lk: "fmdom images = fmdom (is_images s)" "images_inv unmarshal H chain (held (is_ls s)) images"
      "map_option meta_layer (fmlookup images d) = Some (meta_layer meta)"
      using im i(3) Some by (auto simp: drop_child_lookup intro: images_inv_drop_child)
    have same: "same_layers (is_images s) (fmdrop d images)"
      using im by (auto simp: same_layers_def drop_child_lookup split: if_splits)
    have links: "links_inv (metadata b2) (fmdrop d images)"
    proof (rule forget_links [OF i(4) Some])
      fix q p assume q: "metadata b2 q ''parent'' = Some p"
      show "metadata (is_fs s) q ''parent'' = Some p \<and> q \<noteq> d \<and> q |\<notin>| meta_children meta"
        using q by (auto simp: after(3) dl(4) split: if_splits)
    next
      fix p k q assume "p \<noteq> d" "fmlookup (is_images s) p = Some k" "q \<noteq> d" "q |\<in>| meta_children k"
      then show "\<exists>k'. fmlookup images p = Some k' \<and> q |\<in>| meta_children k'"
        using im by (auto simp: drop_child_lookup)
    qed
    have "set_inv (is_digestSet s)" using i(5) by (simp add: index_inv_def)
    then obtain es' where "set_Remove d (is_digestSet s) = (None, es')" "set_inv es'" "digests es' = digests (is_digestSet s) - {d}"
      using set_Remove_spec [OF _ c(1)] by blast
    then have index: "index_inv es (fmdrop d images)" using i(5) lk(1) by (auto simp: index_inv_def es_def)
    obtain m' where m': "fmlookup images d = Some m'" "meta_layer m' = meta_layer meta" using lk(3) by auto
    have img: "images_inv unmarshal H chain holds' (fmdrop d images)"
      if "\<And>h. holds' h \<longleftrightarrow> held (is_ls s) h \<and> meta_layer meta \<noteq> Some h" for holds'
      by (rule forget_image [OF lk(2) m'(1)]) (simp add: that m'(2))
    show ?thesis
    proof (cases "meta_layer meta")
      case None
      then show ?thesis using rt i(1) after links index img [of "held (is_ls s)"] lk(1) Some dl(3) same by (simp add: store_inv_def)
    next
      case (Some h)
      obtain x l where l: "lgr_Release lgr h (is_ls s) = (x, l)" by (cases "lgr_Release lgr h (is_ls s)")
      note rel = lgr_Release_law [OF i(1) l]
      have "images_inv unmarshal H chain (held l) (fmdrop d images)" by (rule img) (use rel Some in auto)
      then have "inv (?s\<lparr>is_ls := l\<rparr>)" using rel after links index by (simp add: store_inv_def)
      moreover have "t = ?s\<lparr>is_ls := l\<rparr> \<and> (\<forall>m. r \<noteq> ImgPanic m)" using rt l rel Some by (cases x) simp_all
      ultimately show ?thesis using lk(1) dl(3) after(2) same \<open>fmlookup (is_images s) d = Some meta\<close> by simp
    qed
  qed
  then show "inv t" "\<And>m. r \<noteq> ImgPanic m" "fmdom (is_images t) = fmdom (is_images s) |-| {|d|}"
    "fmlookup (is_images s) d \<noteq> None \<Longrightarrow> content (is_fs t) = (content (is_fs s))(d := None)"
    "fmlookup (is_images s) d = None \<Longrightarrow> t = s" "same_layers (is_images s) (is_images t)" by blast+
qed

end

context image_system
begin

lemma is_SetParent_law:
  assumes inv: "inv s" and d: "CHR '':'' \<in> set d" and wr: "\<And>b v e. binv b \<Longrightarrow> content b d \<noteq> None \<Longrightarrow> fst (sb_SetMetadata be d ''parent'' v b) \<noteq> ImgErr e"
    and r: "is_SetParent be d p s = (r, t)"
  shows "inv t" and "\<And>m. r \<noteq> ImgPanic m" and "fmdom (is_images t) = fmdom (is_images s)" and "content (is_fs t) = content (is_fs s)"
    and "same_layers (is_images s) (is_images t)"
proof -
  have i: "linv (is_ls s)" "binv (is_fs s)" "images_inv unmarshal H chain (held (is_ls s)) (is_images s)"
    "links_inv (metadata (is_fs s)) (is_images s)" "index_inv (is_digestSet s) (is_images s)"
    using inv by (simp_all add: store_inv_def)
  have "inv t \<and> (\<forall>m. r \<noteq> ImgPanic m) \<and> fmdom (is_images t) = fmdom (is_images s) \<and> content (is_fs t) = content (is_fs s) \<and>
      same_layers (is_images s) (is_images t)"
  proof (cases "fmlookup (is_images s) p")
    case None
    then show ?thesis using r inv by (auto simp: is_SetParent_def same_layers_def)
  next
    case (Some m)
    define images where "images = (case is_GetParent be d s of ImgOK old \<Rightarrow> drop_child old d (is_images s) | _ \<Rightarrow> is_images s)"
    have im: "images = is_images s \<and> metadata (is_fs s) d ''parent'' = None \<or> (\<exists>old. images = drop_child old d (is_images s))"
      using GetParent_cases [OF i(2) d] by (auto simp: images_def)
    obtain w b where b: "sb_SetMetadata be d ''parent'' p (is_fs s) = (w, b)" by (cases "sb_SetMetadata be d ''parent'' p (is_fs s)")
    note law = SetMetadata_law [OF i(2) d b]
    have rt: "r = w" "t = s\<lparr>is_images := add_child p d images, is_fs := b\<rparr>"
      using r Some b GetParent_cases [OF i(2) d] by (auto simp: is_SetParent_def images_def Let_def split: image_result.splits)
    have lk: "images_inv unmarshal H chain (held (is_ls s)) (add_child p d images)" "fmdom (add_child p d images) = fmdom (is_images s)"
      using im i(3) d by (auto intro: images_inv_add_child images_inv_drop_child)
    have keep: "\<exists>k'. fmlookup (add_child p d images) x = Some k' \<and> q |\<in>| meta_children k'"
      if "fmlookup (is_images s) x = Some k" "q |\<in>| meta_children k" "q \<noteq> d" for x k q
      using that im by (cases "x = p") (auto simp: add_child_lookup drop_child_lookup)
    have here: "\<exists>k'. fmlookup (add_child p d images) p = Some k' \<and> d |\<in>| meta_children k'"
      using im Some by (auto simp: add_child_lookup drop_child_lookup)
    have err: "metadata (is_fs s) d = Map.empty" if "w = ImgErr e" for e
    proof -
      have "content (is_fs s) d = None" using wr [OF i(2), of p e] b that by fastforce
      then show ?thesis using metadata_content [OF i(2), of d] by (metis not_None_eq ext)
    qed
    have "links_inv (metadata b) (add_child p d images)"
      unfolding links_inv_def
    proof (intro allI impI)
      fix q x assume q: "metadata b q ''parent'' = Some x"
      show "\<exists>k. fmlookup (add_child p d images) x = Some k \<and> q |\<in>| meta_children k"
      proof (cases "q = d")
        case True
        then have "x = p" using q law err by (cases w) auto
        then show ?thesis using here True by simp
      next
        case False
        then have "metadata (is_fs s) q ''parent'' = Some x" using q law by (cases w) auto
        then show ?thesis using links_invD [OF i(4)] keep [OF _ _ False] by blast
      qed
    qed
    moreover have "same_layers (is_images s) (add_child p d images)"
      using im by (auto simp: same_layers_def add_child_lookup drop_child_lookup split: if_splits)
    ultimately show ?thesis using rt law lk i by (cases w) (auto simp: store_inv_def index_inv_def)
  qed
  then show "inv t" "\<And>m. r \<noteq> ImgPanic m" "fmdom (is_images t) = fmdom (is_images s)" "content (is_fs t) = content (is_fs s)"
    "same_layers (is_images s) (is_images t)" by blast+
qed

end

section \<open>Opening the store\<close>

context image_system
begin

lemma is_Get_disk:
  assumes b: "binv (is_fs s)" and d: "content (is_fs s) d = Some config"
  shows "(\<exists>img rootfs. is_Get unmarshal be d s = ImgOK img \<and> im_RootFS img = Some rootfs \<and> disk_image unmarshal (content (is_fs s)) d rootfs) \<or>
         (\<exists>e. is_Get unmarshal be d s = ImgErr e) \<and> (\<nexists>rootfs. disk_image unmarshal (content (is_fs s)) d rootfs)"
proof -
  obtain hex where "d = ''sha256:'' @ hex" using content_canonical [OF b d] canonicalE by metis
  then have c: "CHR '':'' \<in> set d" by simp
  show ?thesis
    using Get_some [OF b d] GetParent_cases [OF b c] d
    by (cases "unmarshal config"; cases "im_RootFS (the (unmarshal config))")
      (auto simp: is_Get_def NewFromJSON_def disk_image_def)
qed

lemma disk_image_config: "binv b \<Longrightarrow> disk_image unmarshal (content b) d rootfs \<Longrightarrow> config_for unmarshal H d rootfs"
  using content_H by (auto simp: disk_image_def config_for_def)

lemma disk_image_unique: "disk_image unmarshal c d rootfs \<Longrightarrow> disk_image unmarshal c d rootfs' \<Longrightarrow> rootfs = rootfs'"
  by (auto simp: disk_image_def)

lemma restore_walk_law:
  assumes "linv (is_ls s)" "binv (is_fs s)" "images_inv unmarshal H chain (held (is_ls s)) (is_images s)" "index_inv (is_digestSet s) (is_images s)"
    "\<forall>d \<in> set ds. content (is_fs s) d \<noteq> None" "restore_walk unmarshal H be lgr ds s = (r, t)"
  shows "(\<forall>m. r \<noteq> ImgPanic m) \<and>
    (r = ImgOK () \<longleftrightarrow> (\<forall>d \<in> set ds. \<forall>rootfs. disk_image unmarshal (content (is_fs s)) d rootfs \<longrightarrow>
        rootfs_ChainID H rootfs = '''' \<or> has (is_ls s) (rootfs_ChainID H rootfs))) \<and>
    (r = ImgOK () \<longrightarrow> linv (is_ls t) \<and> is_fs t = is_fs s \<and> images_inv unmarshal H chain (held (is_ls t)) (is_images t) \<and>
      index_inv (is_digestSet t) (is_images t) \<and> has (is_ls t) = has (is_ls s) \<and>
      (\<forall>d. d \<in> set ds \<longrightarrow> (\<nexists>rootfs. disk_image unmarshal (content (is_fs s)) d rootfs) \<longrightarrow> fmlookup (is_images t) d = fmlookup (is_images s) d) \<and>
      (\<forall>d. d \<notin> set ds \<longrightarrow> fmlookup (is_images t) d = fmlookup (is_images s) d) \<and>
      (\<forall>d rootfs. d \<in> set ds \<longrightarrow> disk_image unmarshal (content (is_fs s)) d rootfs \<longrightarrow>
         (\<exists>m. fmlookup (is_images t) d = Some m \<and> map_option chain (meta_layer m) = chain_name H rootfs \<and> meta_children m = {||})))"
  using assms
proof (induction ds arbitrary: s)
  case Nil
  then show ?case by auto
next
  case (Cons d ds)
  obtain config where config: "content (is_fs s) d = Some config" using Cons.prems(5) by auto
  consider (skip) e where "is_Get unmarshal be d s = ImgErr e" "\<nexists>rootfs. disk_image unmarshal (content (is_fs s)) d rootfs"
    | (image) img rootfs where "is_Get unmarshal be d s = ImgOK img" "im_RootFS img = Some rootfs" "disk_image unmarshal (content (is_fs s)) d rootfs"
    using is_Get_disk [OF Cons.prems(2) config] by blast
  then show ?case
  proof cases
    case skip
    then have w: "restore_walk unmarshal H be lgr ds s = (r, t)" using Cons.prems(6) by simp
    have "\<forall>d \<in> set ds. content (is_fs s) d \<noteq> None" using Cons.prems(5) by simp
    from Cons.IH [OF Cons.prems(1-4) this w] skip(2) show ?thesis by auto
  next
    case image
    obtain w l where g: "get_layer H lgr rootfs (is_ls s) = (w, l)" by (cases "get_layer H lgr rootfs (is_ls s)")
    note law = get_layer_law [OF Cons.prems(1) g]
    note c = disk_image_config [OF Cons.prems(2) image(3)]
    show ?thesis
    proof (cases w)
      case (ImgErr e)
      then have "r = ImgErr e" using Cons.prems(6) image g by simp
      then show ?thesis using law ImgErr image(3) by auto
    next
      case (ImgPanic m)
      then show ?thesis using law by simp
    next
      case (ImgOK layer)
      let ?images = "fmupd d \<lparr>meta_layer = layer, meta_children = {||}\<rparr> (is_images s)"
      obtain es where es: "set_Add d (is_digestSet s) = (None, es)" "linv l" "has l = has (is_ls s)"
        "images_inv unmarshal H chain (held l) ?images" "index_inv es ?images"
        "rootfs_ChainID H rootfs = '''' \<or> has (is_ls s) (rootfs_ChainID H rootfs)" "map_option chain layer = chain_name H rootfs"
        using add_image [OF Cons.prems(3,4,1,2) c g [unfolded ImgOK]] by metis
      let ?s = "s\<lparr>is_ls := l, is_digestSet := es, is_images := ?images\<rparr>"
      have w: "restore_walk unmarshal H be lgr ds ?s = (r, t)" using Cons.prems(6) image g ImgOK es(1) by simp
      note IH = Cons.IH [of ?s, simplified, OF es(2) Cons.prems(2) es(4,5) _ w]
      have all: "\<forall>d \<in> set ds. \<exists>y. content (is_fs s) d = Some y" using Cons.prems(5) by auto
      note IH = IH [OF all, unfolded es(3)]
      have avail: "\<forall>rootfs'. disk_image unmarshal (content (is_fs s)) d rootfs' \<longrightarrow>
          rootfs_ChainID H rootfs' = '''' \<or> has (is_ls s) (rootfs_ChainID H rootfs')"
        using es(6) disk_image_unique [OF image(3)] by metis
      have new: "\<exists>m. fmlookup (is_images t) d = Some m \<and> map_option chain (meta_layer m) = chain_name H rootfs' \<and> meta_children m = {||}"
        if ok: "r = ImgOK ()" and im: "disk_image unmarshal (content (is_fs s)) d rootfs'" for rootfs'
      proof (cases "d \<in> set ds")
        case True
        then show ?thesis using IH ok im by blast
      next
        case False
        then have "fmlookup (is_images t) d = Some \<lparr>meta_layer = layer, meta_children = {||}\<rparr>" using IH ok by simp
        then show ?thesis using es(7) disk_image_unique [OF image(3) im] by simp
      qed
      have old: "fmlookup (is_images t) x = fmlookup (is_images s) x"
        if "r = ImgOK ()" "x \<noteq> d" "x \<notin> set ds \<or> (\<nexists>rootfs. disk_image unmarshal (content (is_fs s)) x rootfs)" for x
        using IH that by (cases "x \<in> set ds") auto
      show ?thesis
      proof (intro conjI impI)
        show "\<forall>m. r \<noteq> ImgPanic m" using IH by blast
        show "r = ImgOK () \<longleftrightarrow> (\<forall>d \<in> set (d # ds). \<forall>rootfs. disk_image unmarshal (content (is_fs s)) d rootfs \<longrightarrow>
            rootfs_ChainID H rootfs = '''' \<or> has (is_ls s) (rootfs_ChainID H rootfs))"
          using conjunct1 [OF conjunct2 [OF IH]] avail by simp
      next
        assume ok: "r = ImgOK ()"
        show "linv (is_ls t)" "is_fs t = is_fs s" "images_inv unmarshal H chain (held (is_ls t)) (is_images t)"
          "index_inv (is_digestSet t) (is_images t)" "has (is_ls t) = has (is_ls s)"
          using mp [OF conjunct2 [OF conjunct2 [OF IH]] ok] by - (elim conjE, assumption)+
        show "\<forall>x. x \<in> set (d # ds) \<longrightarrow> (\<nexists>rootfs. disk_image unmarshal (content (is_fs s)) x rootfs) \<longrightarrow> fmlookup (is_images t) x = fmlookup (is_images s) x"
        proof (intro allI impI)
          fix x assume x: "\<nexists>rootfs. disk_image unmarshal (content (is_fs s)) x rootfs"
          then have "x \<noteq> d" using image(3) by metis
          then show "fmlookup (is_images t) x = fmlookup (is_images s) x" using old [OF ok] x by simp
        qed
        show "\<forall>x. x \<notin> set (d # ds) \<longrightarrow> fmlookup (is_images t) x = fmlookup (is_images s) x"
          using old [OF ok] by simp
        show "\<forall>x rootfs. x \<in> set (d # ds) \<longrightarrow> disk_image unmarshal (content (is_fs s)) x rootfs \<longrightarrow>
            (\<exists>m. fmlookup (is_images t) x = Some m \<and> map_option chain (meta_layer m) = chain_name H rootfs \<and> meta_children m = {||})"
          using new [OF ok] IH ok by (metis set_ConsD)
      qed
    qed
  qed
qed

end

context image_system
begin

lemma restore_children_law:
  assumes "binv (is_fs s)" "\<forall>d \<in> set ds. CHR '':'' \<in> set d" "restore_children be ds s = (r, t)"
  shows "r = ImgOK () \<and> is_fs t = is_fs s \<and> is_ls t = is_ls s \<and> is_digestSet t = is_digestSet s \<and>
    (\<forall>p. fmlookup (is_images t) p = map_option (\<lambda>m. m\<lparr>meta_children := meta_children m |\<union>|
       fset_of_list (filter (\<lambda>q. metadata (is_fs s) q ''parent'' = Some p) ds)\<rparr>) (fmlookup (is_images s) p))"
  using assms
proof (induction ds arbitrary: s)
  case Nil
  then show ?case by (auto simp: option.map_ident)
next
  case (Cons d ds)
  have d: "CHR '':'' \<in> set d" "\<forall>d \<in> set ds. CHR '':'' \<in> set d" using Cons.prems(2) by simp_all
  consider (link) p where "is_GetParent be d s = ImgOK p" "metadata (is_fs s) d ''parent'' = Some p"
    | (none) e where "is_GetParent be d s = ImgErr e" "metadata (is_fs s) d ''parent'' = None"
    using GetParent_cases [OF Cons.prems(1) d(1)] by blast
  then show ?case
  proof cases
    case link
    let ?s = "s\<lparr>is_images := add_child p d (is_images s)\<rparr>"
    have "restore_children be ds ?s = (r, t)" using Cons.prems(3) link by simp
    with Cons.IH [of ?s] Cons.prems(1) d(2) link(2) show ?thesis
      by (auto simp: add_child_lookup option.map_comp comp_def intro!: option.map_cong)
  next
    case none
    then show ?thesis using Cons.IH [of s] Cons.prems d by simp
  qed
qed

text \<open>
  Opening succeeds exactly when the directory can be read and every image on disk has its layer; the
  images are then those on disk, and the children those linked on disk.
\<close>

lemma NewImageStore_law:
  assumes l: "linv l" and b: "binv b" and r: "NewImageStore unmarshal H be lgr b l = (r, t)"
  shows "\<And>m. r \<noteq> ImgPanic m"
    and "r = ImgOK () \<longleftrightarrow> (\<exists>ds. sb_Walk be b = ImgOK ds) \<and>
      (\<forall>d rootfs. disk_image unmarshal (content b) d rootfs \<longrightarrow> rootfs_ChainID H rootfs = '''' \<or> has l (rootfs_ChainID H rootfs))"
    and "r = ImgOK () \<Longrightarrow> linv (is_ls t) \<and> is_fs t = b \<and> images_inv unmarshal H chain (held (is_ls t)) (is_images t) \<and>
      index_inv (is_digestSet t) (is_images t) \<and>
      (\<forall>d. d |\<in>| fmdom (is_images t) \<longleftrightarrow> (\<exists>rootfs. disk_image unmarshal (content b) d rootfs)) \<and>
      (\<forall>d m. fmlookup (is_images t) d = Some m \<longrightarrow>
         (\<exists>rootfs. disk_image unmarshal (content b) d rootfs \<and> map_option chain (meta_layer m) = chain_name H rootfs) \<and>
         (\<forall>q. q |\<in>| meta_children m \<longleftrightarrow> q |\<in>| fmdom (is_images t) \<and> metadata b q ''parent'' = Some d))"
proof -
  let ?s = "\<lparr>is_ls = l, is_images = fmempty, is_fs = b, is_digestSet = []\<rparr> :: ('b, 'l, 'h) image_store"
  let ?ok = "\<forall>d rootfs. disk_image unmarshal (content b) d rootfs \<longrightarrow> rootfs_ChainID H rootfs = '''' \<or> has l (rootfs_ChainID H rootfs)"
  let ?after = "linv (is_ls t) \<and> is_fs t = b \<and> images_inv unmarshal H chain (held (is_ls t)) (is_images t) \<and>
      index_inv (is_digestSet t) (is_images t) \<and>
      (\<forall>d. d |\<in>| fmdom (is_images t) \<longleftrightarrow> (\<exists>rootfs. disk_image unmarshal (content b) d rootfs)) \<and>
      (\<forall>d m. fmlookup (is_images t) d = Some m \<longrightarrow>
         (\<exists>rootfs. disk_image unmarshal (content b) d rootfs \<and> map_option chain (meta_layer m) = chain_name H rootfs) \<and>
         (\<forall>q. q |\<in>| meta_children m \<longleftrightarrow> q |\<in>| fmdom (is_images t) \<and> metadata b q ''parent'' = Some d))"
  have "(\<forall>m. r \<noteq> ImgPanic m) \<and> (r = ImgOK () \<longleftrightarrow> (\<exists>ds. sb_Walk be b = ImgOK ds) \<and> ?ok) \<and> (r = ImgOK () \<longrightarrow> ?after)"
  proof (cases "sb_Walk be b")
    case (ImgErr e)
    then show ?thesis using r by (auto simp: NewImageStore_def restore_def)
  next
    case (ImgPanic m)
    then show ?thesis using Walk_total [OF b] by simp
  next
    case (ImgOK ds)
    note walk = Walk_law [OF b ImgOK]
    obtain w u where w: "restore_walk unmarshal H be lgr ds ?s = (w, u)" by (cases "restore_walk unmarshal H be lgr ds ?s")
    have "images_inv unmarshal H chain (held l) fmempty" "index_inv [] (fmempty :: (string, 'h imageMeta) fmap)"
      by (simp_all add: images_inv_def index_inv_def)
    moreover have "\<forall>d \<in> set ds. content b d \<noteq> None" using walk by blast
    ultimately have law: "(\<forall>m. w \<noteq> ImgPanic m) \<and>
      (w = ImgOK () \<longleftrightarrow> (\<forall>d \<in> set ds. \<forall>rootfs. disk_image unmarshal (content b) d rootfs \<longrightarrow> rootfs_ChainID H rootfs = '''' \<or> has l (rootfs_ChainID H rootfs))) \<and>
      (w = ImgOK () \<longrightarrow> linv (is_ls u) \<and> is_fs u = b \<and> images_inv unmarshal H chain (held (is_ls u)) (is_images u) \<and>
        index_inv (is_digestSet u) (is_images u) \<and> has (is_ls u) = has l \<and>
        (\<forall>d. d \<in> set ds \<longrightarrow> (\<nexists>rootfs. disk_image unmarshal (content b) d rootfs) \<longrightarrow> fmlookup (is_images u) d = None) \<and>
        (\<forall>d. d \<notin> set ds \<longrightarrow> fmlookup (is_images u) d = None) \<and>
        (\<forall>d rootfs. d \<in> set ds \<longrightarrow> disk_image unmarshal (content b) d rootfs \<longrightarrow>
          (\<exists>m. fmlookup (is_images u) d = Some m \<and> map_option chain (meta_layer m) = chain_name H rootfs \<and> meta_children m = {||})))"
      using restore_walk_law [of ?s ds w u] l b w by simp
    have in_ds: "d \<in> set ds" if "disk_image unmarshal (content b) d rootfs" for d rootfs
      using that walk by (auto simp: disk_image_def)
    have iff: "w = ImgOK () \<longleftrightarrow> ?ok" using conjunct1 [OF conjunct2 [OF law]] in_ds by blast
    show ?thesis
    proof (cases "w = ImgOK ()")
      case False
      then have "r = w" using r w ImgOK law by (cases w) (auto simp: NewImageStore_def restore_def)
      then show ?thesis using False law iff by blast
    next
      case True
      note u = mp [OF conjunct2 [OF conjunct2 [OF law]] True]
      have rc: "restore_children be (sorted_list_of_fset (fmdom (is_images u))) u = (r, t)"
        using r w ImgOK True by (simp add: NewImageStore_def restore_def)
      have im: "images_inv unmarshal H chain (held (is_ls u)) (is_images u)" using u by (elim conjE)
      have bu: "is_fs u = b" using u by (elim conjE)
      have "\<forall>d \<in> set (sorted_list_of_fset (fmdom (is_images u))). CHR '':'' \<in> set d"
        using images_inv_canonical(2) [OF im _ canonical_H [OF b]] by (auto simp: fmlookup_dom_iff)
      note rl = restore_children_law [OF b [folded bu] this rc, unfolded bu]
      define C where "C p = fset_of_list (filter (\<lambda>q. metadata b q ''parent'' = Some p) (sorted_list_of_fset (fmdom (is_images u))))" for p
      have C: "q |\<in>| C p \<longleftrightarrow> q |\<in>| fmdom (is_images u) \<and> metadata b q ''parent'' = Some p" for q p
        by (auto simp: C_def fset_of_list.rep_eq)
      have lk: "fmlookup (is_images t) p = map_option (\<lambda>m. m\<lparr>meta_children := meta_children m |\<union>| C p\<rparr>) (fmlookup (is_images u) p)" for p
        using rl by (simp add: C_def)
      have dom: "fmdom (is_images t) = fmdom (is_images u)"
        by (rule fset_eqI) (simp add: fmlookup_dom_iff lk)
      have on_disk: "d |\<in>| fmdom (is_images t) \<longleftrightarrow> (\<exists>rootfs. disk_image unmarshal (content b) d rootfs)" for d
      proof -
        have "(\<exists>m. fmlookup (is_images u) d = Some m) \<longleftrightarrow> (\<exists>rootfs. disk_image unmarshal (content b) d rootfs)"
          using u in_ds by (metis option.distinct(1))
        then show ?thesis unfolding dom by (simp add: fmlookup_dom_iff)
      qed
      have each: "(\<exists>rootfs. disk_image unmarshal (content b) d rootfs \<and> map_option chain (meta_layer m) = chain_name H rootfs) \<and>
         (\<forall>q. q |\<in>| meta_children m \<longleftrightarrow> q |\<in>| fmdom (is_images t) \<and> metadata b q ''parent'' = Some d)"
        if m: "fmlookup (is_images t) d = Some m" for d m
      proof -
        obtain rootfs where rootfs: "disk_image unmarshal (content b) d rootfs" using on_disk fmdomI [OF m] by blast
        then obtain k where k: "fmlookup (is_images u) d = Some k" "map_option chain (meta_layer k) = chain_name H rootfs" "meta_children k = {||}"
          using u in_ds by blast
        then have "m = k\<lparr>meta_children := C d\<rparr>" using m lk by simp
        then show ?thesis using k rootfs C dom by auto
      qed
      have "CHR '':'' \<in> set q" if "q |\<in>| C p" for p q
        using that images_inv_canonical(2) [OF im _ canonical_H [OF b]] by (auto simp: C fmlookup_dom_iff)
      then have imt: "images_inv unmarshal H chain (held (is_ls t)) (is_images t)"
        using images_inv_more_children [OF im lk] rl by simp
      have idx: "index_inv (is_digestSet t) (is_images t)" using u rl dom by (simp add: index_inv_def)
      have "linv (is_ls t)" "is_fs t = b" using u rl by simp_all
      then have ?after using imt idx on_disk each by blast
      then show ?thesis using rl iff True ImgOK by blast
    qed
  qed
  then show "\<And>m. r \<noteq> ImgPanic m" "r = ImgOK () \<longleftrightarrow> (\<exists>ds. sb_Walk be b = ImgOK ds) \<and> ?ok" "r = ImgOK () \<Longrightarrow> ?after" by blast+
qed

end

section \<open>The disk\<close>

text \<open>
  What is on disk relative to the images and to the calls of \<open>Create\<close> that have written a configuration
  and not yet published it: every image and every such call has its configuration there, every content
  file is a configuration, and an image's layer is the one its configuration names.
\<close>

definition disk_inv :: "(string \<Rightarrow> 'c Image option) \<Rightarrow> (string \<Rightarrow> string) \<Rightarrow> ('h \<Rightarrow> string) \<Rightarrow> (string \<Rightarrow> string option)
    \<Rightarrow> (RootFS \<times> string) multiset \<Rightarrow> (string, 'h imageMeta) fmap \<Rightarrow> bool" where
  "disk_inv unmarshal H chain content P images \<longleftrightarrow>
     (\<forall>d m. fmlookup images d = Some m \<longrightarrow>
        (\<exists>rootfs. disk_image unmarshal content d rootfs \<and> map_option chain (meta_layer m) = chain_name H rootfs)) \<and>
     (\<forall>d. content d \<noteq> None \<longrightarrow> (\<exists>rootfs. disk_image unmarshal content d rootfs)) \<and>
     (\<forall>rootfs d. (rootfs, d) \<in># P \<longrightarrow> disk_image unmarshal content d rootfs)"

lemma disk_invD:
  assumes "disk_inv unmarshal H chain content P images"
  shows "\<And>d m. fmlookup images d = Some m \<Longrightarrow> \<exists>rootfs. disk_image unmarshal content d rootfs \<and> map_option chain (meta_layer m) = chain_name H rootfs"
    and "\<And>d c. content d = Some c \<Longrightarrow> \<exists>rootfs. disk_image unmarshal content d rootfs"
    and "\<And>rootfs d. (rootfs, d) \<in># P \<Longrightarrow> disk_image unmarshal content d rootfs"
  using assms unfolding disk_inv_def by blast+

lemma disk_inv_layers:
  assumes "disk_inv unmarshal H chain content P images" "same_layers images images'"
  shows "disk_inv unmarshal H chain content P images'"
  using assms unfolding disk_inv_def same_layers_def by metis

lemma disk_inv_Set:
  assumes d: "disk_inv unmarshal H chain content P images" and c: "content d \<in> {None, Some config}"
    and i: "disk_image unmarshal (content(d \<mapsto> config)) d rootfs"
  shows "disk_inv unmarshal H chain (content(d \<mapsto> config)) (P + {#(rootfs, d)#}) images"
proof -
  have mono: "disk_image unmarshal (content(d \<mapsto> config)) x r" if "disk_image unmarshal content x r" for x r
    using that c by (auto simp: disk_image_def)
  show ?thesis
    unfolding disk_inv_def using disk_invD [OF d] mono i by (auto simp: fun_upd_apply split: if_splits) blast+
qed

lemma disk_inv_Delete:
  assumes d: "disk_inv unmarshal H chain content P images" and P: "\<And>rootfs. (rootfs, d) \<notin># P"
    and s: "same_layers images images'" and dom: "d |\<notin>| fmdom images'"
  shows "disk_inv unmarshal H chain (content(d := None)) P images'"
proof -
  have keep: "disk_image unmarshal (content(d := None)) x r \<longleftrightarrow> x \<noteq> d \<and> disk_image unmarshal content x r" for x r
    by (auto simp: disk_image_def)
  have "x \<noteq> d" if "fmlookup images' x = Some m" for x m using dom fmdomI [OF that] by blast
  then show ?thesis
    unfolding disk_inv_def keep using disk_invD [OF disk_inv_layers [OF d s]] P by (auto split: if_splits)
qed

lemma disk_inv_pending: "disk_inv unmarshal H chain content (P + Q) images \<Longrightarrow> disk_inv unmarshal H chain content P images"
  by (auto simp: disk_inv_def)

section \<open>The engine's stores\<close>

text \<open>
  A state: the layers that running calls retain, the calls of \<open>Create\<close> between their two steps, the image
  store with the layer store behind it, and whether a call has panicked. The steps are the critical
  sections of the calls, those of the layer store's other users, who do not release the references of
  images, and a restart of the engine.

  What the steps assume: a configuration given to \<open>Create\<close> has a root file system, which its callers
  check; no two different configurations with the same digest are met; an image is not deleted while a
  call that creates it is under way; and the file system does not fail while an image is being deleted
  or linked.
\<close>

type_synonym im_sys = "nat multiset \<times> (RootFS \<times> string) multiset \<times> (image_fs, layerStore, layer_handle) image_store \<times> bool"

fun image_panics :: "'a image_result \<Rightarrow> bool" where
  "image_panics (ImgPanic m) = True"
| "image_panics _ = False"

fun pending :: "(RootFS \<times> string) image_result \<Rightarrow> (RootFS \<times> string) multiset" where
  "pending (ImgOK x) = {#x#}"
| "pending _ = {#}"

inductive im_step :: "(string \<Rightarrow> 'c Image option) \<Rightarrow> (string \<Rightarrow> string) \<Rightarrow> im_sys \<Rightarrow> im_sys \<Rightarrow> bool" for unmarshal H where
  im_prepare: "create_prepare unmarshal (NewFSStoreBackend H io) config s = (r, t) \<Longrightarrow>
    (\<And>img. unmarshal config = Some img \<Longrightarrow> im_RootFS img \<noteq> None) \<Longrightarrow> fs_content (is_fs s) (H config) \<in> {None, Some config} \<Longrightarrow>
    im_step unmarshal H (F, P, s, b) (F, P + pending r, t, b \<or> image_panics r)"
| im_publish: "create_publish H (layer_ops env) rootfs dgst s = (r, t) \<Longrightarrow>
    im_step unmarshal H (F, P + {#(rootfs, dgst)#}, s, b) (F, P, t, b \<or> image_panics r)"
| im_delete: "is_Delete (NewFSStoreBackend H io) (layer_ops env) dgst s = (r, t) \<Longrightarrow>
    io_remove io \<Longrightarrow> (\<And>x. io_removeAll io x) \<Longrightarrow> (\<And>rootfs. (rootfs, dgst) \<notin># P) \<Longrightarrow>
    im_step unmarshal H (F, P, s, b) (F, P, t, b \<or> image_panics r)"
| im_setparent: "is_SetParent (NewFSStoreBackend H io) dgst parent s = (r, t) \<Longrightarrow>
    CHR '':'' \<in> set dgst \<Longrightarrow> io_mkdir io \<Longrightarrow> io_write io \<Longrightarrow>
    im_step unmarshal H (F, P, s, b) (F, P, t, b \<or> image_panics r)"
| im_layers: "ls_step H (F, is_ls s, False) e (F', l, c) \<Longrightarrow> e \<noteq> Restarted \<Longrightarrow>
    (\<And>d m h. fmlookup (is_images s) d = Some m \<Longrightarrow> meta_layer m = Some h \<Longrightarrow> e \<noteq> Dropped h) \<Longrightarrow>
    im_step unmarshal H (F, P, s, b) (F', P, s\<lparr>is_ls := l\<rparr>, b \<or> c)"
| im_restart: "NewStoreFromGraphDriver fuel (ls_store (is_ls s)) driver = Some l \<Longrightarrow>
    NewImageStore unmarshal H (NewFSStoreBackend H io) (layer_ops env) (is_fs s) l = (ImgOK (), t) \<Longrightarrow>
    im_step unmarshal H (F, P, s, b) ({#}, {#}, t, b)"

text \<open>Both stores newly created.\<close>

definition new_images :: "(string \<Rightarrow> 'c Image option) \<Rightarrow> (string \<Rightarrow> string) \<Rightarrow> im_sys \<Rightarrow> bool" where
  "new_images unmarshal H x \<longleftrightarrow> (\<forall>y. canonical (H y)) \<and>
     (\<exists>driver l io env s. NewStoreFromGraphDriver 1 NewFSMetadataStore driver = Some l \<and>
        NewImageStore unmarshal H (NewFSStoreBackend H io) (layer_ops env) newFSStore l = (ImgOK (), s) \<and> x = ({#}, {#}, s, False))"

definition im_ok :: "(string \<Rightarrow> 'c Image option) \<Rightarrow> (string \<Rightarrow> string) \<Rightarrow> im_sys \<Rightarrow> bool" where
  "im_ok unmarshal H x \<longleftrightarrow> (case x of (F, P, s, b) \<Rightarrow>
     store_inv unmarshal H fs_metadata (fs_inv H) lh_ChainID held (layers_ok H F) s \<and>
     disk_inv unmarshal H lh_ChainID (fs_content (is_fs s)) P (is_images s) \<and> \<not> b)"

interpretation ims: image_system "NewFSStoreBackend H io" H fs_content fs_metadata "fs_inv H" "layer_ops env" lh_ChainID registered held
  "layers_ok H F" unmarshal for H io env F unmarshal
  by unfold_locales

lemma fs_io_ok:
  shows "io_removeAll io q \<Longrightarrow> fst (sb_DeleteMetadata (NewFSStoreBackend H io) q k b) \<noteq> ImgErr e"
    and "io_remove io \<Longrightarrow> io_removeAll io d \<Longrightarrow> fs_content b d \<noteq> None \<Longrightarrow> fst (sb_Delete (NewFSStoreBackend H io) d b) \<noteq> ImgErr e"
    and "io_mkdir io \<Longrightarrow> io_write io \<Longrightarrow> fs_inv H b \<Longrightarrow> fs_content b d \<noteq> None \<Longrightarrow>
      fst (sb_SetMetadata (NewFSStoreBackend H io) d k v b) \<noteq> ImgErr e"
proof -
  assume "io_removeAll io q"
  then show "fst (sb_DeleteMetadata (NewFSStoreBackend H io) q k b) \<noteq> ImgErr e"
    by (simp add: NewFSStoreBackend_def fs_DeleteMetadata_def split: option.splits)
next
  assume "io_remove io" "io_removeAll io d" "fs_content b d \<noteq> None"
  then show "fst (sb_Delete (NewFSStoreBackend H io) d b) \<noteq> ImgErr e"
    by (auto simp: NewFSStoreBackend_def fs_Delete_def fs_content_def metadataDir_eq Let_def split: option.splits)
next
  assume io: "io_mkdir io" "io_write io" and b: "fs_inv H b" and c: "fs_content b d \<noteq> None"
  obtain c f where "fs_get H d b = ImgOK c" "contentFile d = Some f"
    using c fs_get_content(1) [OF b] by (auto simp: fs_content_def split: option.splits)
  then show "fst (sb_SetMetadata (NewFSStoreBackend H io) d k v b) \<noteq> ImgErr e"
    using io by (simp add: NewFSStoreBackend_def fs_SetMetadata_def metadataDir_eq Let_def)
qed

lemma image_panics_iff [simp]: "image_panics r \<longleftrightarrow> (\<exists>m. r = ImgPanic m)"
  by (cases r) auto

lemma store_invD:
  assumes "store_inv unmarshal H metadata binv chain holds linv s"
  shows "linv (is_ls s)" "binv (is_fs s)" "images_inv unmarshal H chain (holds (is_ls s)) (is_images s)"
    "links_inv (metadata (is_fs s)) (is_images s)" "index_inv (is_digestSet s) (is_images s)"
  using assms by (simp_all add: store_inv_def)

lemma im_okD:
  assumes "im_ok unmarshal H (F, P, s, b)"
  shows "store_inv unmarshal H fs_metadata (fs_inv H) lh_ChainID held (layers_ok H F) s"
    "disk_inv unmarshal H lh_ChainID (fs_content (is_fs s)) P (is_images s)" "\<not> b"
  using assms by (simp_all add: im_ok_def)

lemma im_okI:
  assumes "store_inv unmarshal H fs_metadata (fs_inv H) lh_ChainID held (layers_ok H F) s"
    "disk_inv unmarshal H lh_ChainID (fs_content (is_fs s)) P (is_images s)" "\<not> b"
  shows "im_ok unmarshal H (F, P, s, b)"
  using assms by (simp add: im_ok_def)

text \<open>Opening the stores again: the links on disk are between images, so they are all found.\<close>

lemma reopen_images:
  assumes ok: "im_ok unmarshal H (F, P, s, b)" and l: "NewStoreFromGraphDriver fuel (ls_store (is_ls s)) driver = Some l"
    and r: "NewImageStore unmarshal H (NewFSStoreBackend H io) (layer_ops env) (is_fs s) l = (ImgOK (), t)"
  shows "im_ok unmarshal H ({#}, {#}, t, False)"
proof -
  note i = store_invD [OF im_okD(1) [OF ok]] and disk = disk_invD [OF im_okD(2) [OF ok]]
  have "ls_inv F (is_ls s)" "disk_ok H (is_ls s)" using i(1) by (simp_all add: layers_ok_def)
  then have lo: "layers_ok H {#} l" using reopen_spec [OF _ _ l] by (simp add: layers_ok_def)
  note law = ims.NewImageStore_law(3) [OF lo i(2) r refl]
  have fs: "is_fs t = is_fs s" and on_disk: "\<And>d. d |\<in>| fmdom (is_images t) \<longleftrightarrow> (\<exists>rootfs. disk_image unmarshal (fs_content (is_fs s)) d rootfs)"
    and each: "\<And>d m. fmlookup (is_images t) d = Some m \<Longrightarrow>
        (\<exists>rootfs. disk_image unmarshal (fs_content (is_fs s)) d rootfs \<and> map_option lh_ChainID (meta_layer m) = chain_name H rootfs) \<and>
        (\<forall>q. q |\<in>| meta_children m \<longleftrightarrow> q |\<in>| fmdom (is_images t) \<and> fs_metadata (is_fs s) q ''parent'' = Some d)"
    using law by blast+
  have "links_inv (fs_metadata (is_fs s)) (is_images t)"
    unfolding links_inv_def
  proof (intro allI impI)
    fix q p assume q: "fs_metadata (is_fs s) q ''parent'' = Some p"
    then obtain m where "fmlookup (is_images s) p = Some m" using links_invD [OF i(4)] by blast
    then have "p |\<in>| fmdom (is_images t)" using on_disk disk(1) by blast
    then obtain m' where m': "fmlookup (is_images t) p = Some m'" by (auto simp: fmlookup_dom_iff)
    have "q |\<in>| fmdom (is_images t)" using on_disk disk(2) fs_metadata_content [OF i(2) q] by blast
    then show "\<exists>m. fmlookup (is_images t) p = Some m \<and> q |\<in>| meta_children m" using m' each [OF m'] q by blast
  qed
  then have "store_inv unmarshal H fs_metadata (fs_inv H) lh_ChainID held (layers_ok H {#}) t"
    using law i(2) fs by (simp add: store_inv_def)
  moreover have "disk_inv unmarshal H lh_ChainID (fs_content (is_fs t)) {#} (is_images t)"
    unfolding disk_inv_def fs using each disk(2) by simp blast
  ultimately show ?thesis by (rule im_okI) simp
qed

lemma im_step_ok:
  assumes "im_step unmarshal H x y" and "im_ok unmarshal H x"
  shows "im_ok unmarshal H y"
  using assms
proof (cases rule: im_step.cases)
  case (im_prepare io config s r t F P b)
  then have ok: "im_ok unmarshal H (F, P, s, b)" using assms(2) by simp
  note law = ims.prepare_law [OF im_okD(1) [OF ok] im_prepare(3,4)]
  have "disk_inv unmarshal H lh_ChainID (fs_content (is_fs t)) (P + pending r) (is_images t)"
  proof (cases r)
    case (ImgOK x)
    obtain rootfs d where x: "x = (rootfs, d)" by (cases x)
    then have d: "d = H config" "disk_image unmarshal (fs_content (is_fs t)) d rootfs"
      "fs_content (is_fs t) = (fs_content (is_fs s))(d \<mapsto> config)"
      using law(5) unfolding ImgOK x by auto
    show ?thesis using disk_inv_Set [OF im_okD(2) [OF ok], of d config rootfs] im_prepare(5) d law(2) ImgOK x by simp
  next
    case (ImgErr e)
    then show ?thesis using law(2,5) im_okD(2) [OF ok] by simp
  next
    case (ImgPanic m)
    then show ?thesis using law(5) by simp
  qed
  moreover have "\<forall>m. r \<noteq> ImgPanic m" using law(5) by auto
  ultimately show ?thesis using im_prepare law(1) im_okD(3) [OF ok] by (simp add: im_ok_def)
next
  case (im_publish env rootfs dgst s r t F P b)
  then have ok: "im_ok unmarshal H (F, P + {#(rootfs, dgst)#}, s, b)" using assms(2) by simp
  note i = store_invD [OF im_okD(1) [OF ok]]
  have di: "disk_image unmarshal (fs_content (is_fs s)) dgst rootfs" by (rule disk_invD(3) [OF im_okD(2) [OF ok]]) simp
  note law = ims.publish_law [OF im_okD(1) [OF ok] ims.disk_image_config [OF i(2) di] im_publish(3)]
  have "disk_inv unmarshal H lh_ChainID (fs_content (is_fs t)) P (is_images t)"
    using disk_inv_pending [OF im_okD(2) [OF ok]] law(3) di unfolding law(2) disk_inv_def by metis
  moreover have "\<forall>m. r \<noteq> ImgPanic m" using law(4) by auto
  ultimately show ?thesis using im_publish law(1) im_okD(3) [OF ok] by (simp add: im_ok_def)
next
  case (im_delete io env dgst s r t P F b)
  then have ok: "im_ok unmarshal H (F, P, s, b)" using assms(2) by simp
  note law = ims.is_Delete_law [OF im_okD(1) [OF ok] _ _ im_delete(3)]
  have io: "\<And>q b e. fst (sb_DeleteMetadata (NewFSStoreBackend H io) q ''parent'' b) \<noteq> ImgErr e"
    "\<And>b e. fs_content b dgst \<noteq> None \<Longrightarrow> fst (sb_Delete (NewFSStoreBackend H io) dgst b) \<noteq> ImgErr e"
    using fs_io_ok(1,2) im_delete(4,5) by blast+
  note law = law [OF io]
  have "disk_inv unmarshal H lh_ChainID (fs_content (is_fs t)) P (is_images t)"
  proof (cases "fmlookup (is_images s) dgst")
    case None
    then show ?thesis using law(5) im_okD(2) [OF ok] by simp
  next
    case (Some m)
    have "dgst |\<notin>| fmdom (is_images t)" using law(3) by simp
    then show ?thesis using disk_inv_Delete [OF im_okD(2) [OF ok] im_delete(6) law(6)] law(4) Some by simp
  qed
  then show ?thesis using im_delete law(1,2) im_okD(3) [OF ok] by (simp add: im_ok_def)
next
  case (im_setparent io dgst parent s r t F P b)
  then have ok: "im_ok unmarshal H (F, P, s, b)" using assms(2) by simp
  have io: "\<And>b v e. fs_inv H b \<Longrightarrow> fs_content b dgst \<noteq> None \<Longrightarrow>
      fst (sb_SetMetadata (NewFSStoreBackend H io) dgst ''parent'' v b) \<noteq> ImgErr e"
    using fs_io_ok(3) im_setparent(5,6) by blast
  note law = ims.is_SetParent_law [OF im_okD(1) [OF ok] im_setparent(4) io im_setparent(3)]
  have "disk_inv unmarshal H lh_ChainID (fs_content (is_fs t)) P (is_images t)"
    using disk_inv_layers [OF im_okD(2) [OF ok] law(5)] law(4) by simp
  then show ?thesis using im_setparent law(1,2) im_okD(3) [OF ok] by (simp add: im_ok_def)
next
  case (im_layers F s e F' l c P b)
  then have ok: "im_ok unmarshal H (F, P, s, b)" using assms(2) by simp
  note i = store_invD [OF im_okD(1) [OF ok]]
  have "sys_ok H (F, is_ls s, False)" using i(1) by (simp add: sys_ok_def layers_ok_def)
  from ls_step_simulates [OF fs_invD(1) [OF i(2)] im_layers(3) this]
  have l: "layers_ok H F' l" "\<not> c" and e: "handles_step (held (is_ls s)) e (held l)" by (simp_all add: sys_ok_def layers_ok_def)
  have keep: "held l h" if "fmlookup (is_images s) d = Some m" "meta_layer m = Some h" "held (is_ls s) h" for d m h
    using e im_layers(4) im_layers(5) [OF that(1,2)] that(3) by (cases e) (auto split: if_splits)
  have "images_inv unmarshal H lh_ChainID (held l) (is_images s)" by (rule images_inv_layers [OF i(3)]) (rule keep)
  then have "store_inv unmarshal H fs_metadata (fs_inv H) lh_ChainID held (layers_ok H F') (s\<lparr>is_ls := l\<rparr>)"
    using i(2,4,5) l(1) by (simp add: store_inv_def)
  then show ?thesis using im_layers l(2) im_okD(2,3) [OF ok] by (simp add: im_ok_def)
next
  case (im_restart fuel s driver l io env t F P b)
  then have ok: "im_ok unmarshal H (F, P, s, b)" using assms(2) by simp
  show ?thesis using reopen_images [OF ok im_restart(3,4)] im_restart(2) im_okD(3) [OF ok] by simp
qed

lemma new_images_ok: "new_images unmarshal H x \<Longrightarrow> im_ok unmarshal H x"
proof -
  assume new: "new_images unmarshal H x"
  then obtain driver l io env s where H: "\<forall>y. canonical (H y)" and l: "NewStoreFromGraphDriver 1 NewFSMetadataStore driver = Some l"
    and s: "NewImageStore unmarshal H (NewFSStoreBackend H io) (layer_ops env) newFSStore l = (ImgOK (), s)" and x: "x = ({#}, {#}, s, False)"
    unfolding new_images_def by blast
  have "new_system ({#}, l, False)" using l by (auto simp: new_system_def)
  then have lo: "layers_ok H {#} l" using new_system_ok [of "({#}, l, False)" H] by (simp add: sys_ok_def layers_ok_def)
  have b: "fs_inv H newFSStore" using H by (simp add: fs_inv_def newFSStore_def)
  have none: "fs_content newFSStore d = None" "fs_metadata newFSStore d k = None" for d k
    by (simp_all add: fs_content_def fs_metadata_def newFSStore_def split: option.splits)
  note law = ims.NewImageStore_law(3) [OF lo b s refl]
  then have "fmdom (is_images s) = {||}" using none(1) by (auto simp: disk_image_def)
  then have im: "is_images s = fmempty" by (metis fmrestrict_fset_dom fmrestrict_fset_null)
  have "store_inv unmarshal H fs_metadata (fs_inv H) lh_ChainID held (layers_ok H {#}) s"
    using law b none(2) by (simp add: store_inv_def links_inv_def)
  moreover have "disk_inv unmarshal H lh_ChainID (fs_content (is_fs s)) {#} (is_images s)"
    using law none(1) im by (simp add: disk_inv_def)
  ultimately show ?thesis by (simp add: x im_ok_def)
qed

interpretation images: transition_system "new_images unmarshal H" "im_step unmarshal H" "im_ok unmarshal H" for unmarshal H
  by unfold_locales (auto intro: new_images_ok im_step_ok)

lemma registered_view: "ls_shape s \<Longrightarrow> registered s c \<longleftrightarrow> layer_view s c \<noteq> None"
  using ls_shapeD(1) [of s c] by (auto simp: registered_def layer_view_def fmlookup_dom_iff split: option.splits)

text \<open>What opening the stores on the disk of a reachable state finds.\<close>

lemma reopen_layers:
  assumes ok: "im_ok unmarshal H (F, P, s, b)" and fuel: "fcard (fmdom (fm_layers (ls_store (is_ls s)))) < fuel"
  obtains l where "NewStoreFromGraphDriver fuel (ls_store (is_ls s)) driver = Some l" "layers_ok H {#} l" "registered l = registered (is_ls s)"
proof -
  have i: "ls_inv F (is_ls s)" "disk_ok H (is_ls s)" using store_invD(1) [OF im_okD(1) [OF ok]] by (simp_all add: layers_ok_def)
  have "NewStoreFromGraphDriver fuel (ls_store (is_ls s)) driver \<noteq> None"
    using open_enough [of "ls_store (is_ls s)"] disk_acyclic [OF ls_invD(1) [OF i(1)] i(2)] fuel by blast
  then obtain l where l: "NewStoreFromGraphDriver fuel (ls_store (is_ls s)) driver = Some l" by blast
  note sp = reopen_spec [OF i l]
  have "registered l = registered (is_ls s)"
    using registered_view [OF ls_invD(1) [OF sp(1)]] registered_view [OF ls_invD(1) [OF i(1)]] sp(4) by (simp add: fun_eq_iff)
  then show thesis using that l sp by (simp add: layers_ok_def)
qed

lemma fs_Walk_readable: "(\<exists>ds. sb_Walk (NewFSStoreBackend H io) b = ImgOK ds) \<longleftrightarrow> io_readDir io"
  by (simp add: NewFSStoreBackend_def fs_Walk_def)

section \<open>Properties\<close>



text \<open>
  C20. \<open>Search\<close> finds an image exactly when the term denotes no other image; it reports a missing image
  exactly when the term denotes none, and never panics.
\<close>

theorem image_search_by_prefix:
  assumes "new_images unmarshal H x" and "(im_step unmarshal H)\<^sup>*\<^sup>* x (F, P, s, b)"
  shows "(is_Search term s = ImgOK d \<longleftrightarrow> {q. q |\<in>| fmdom (is_images s) \<and> denotes term q} = {d}) \<and>
    (is_Search term s = ImgErr (NoSuchImage term) \<longleftrightarrow> (\<forall>q. q |\<in>| fmdom (is_images s) \<longrightarrow> \<not> denotes term q)) \<and>
    (\<forall>m. is_Search term s \<noteq> ImgPanic m)"
proof -
  have ok: "im_ok unmarshal H (F, P, s, b)" by (rule images.reachable_inv [OF assms])
  have i: "set_inv (is_digestSet s)" "digests (is_digestSet s) = fset (fmdom (is_images s))"
    using store_invD(5) [OF im_okD(1) [OF ok]] by (simp_all add: index_inv_def)
  note sp = set_Lookup_spec [OF i(1), of "term", unfolded i(2)]
  show ?thesis
  proof (cases "set_Lookup term (is_digestSet s)")
    case (Inl e)
    then show ?thesis using sp by (cases e) (auto simp: is_Search_def)
  next
    case (Inr y)
    then show ?thesis using sp(1) [of d] sp(2) by (auto simp: is_Search_def)
  qed
qed

text \<open>
  C29. A failed creation blocks the next start. When \<open>Create\<close> fails because the layer its configuration
  names is not registered, the configuration stays on disk, and opening the image store over the same
  layers fails from then on.
\<close>

theorem failed_create_blocks_restart:
  assumes "new_images unmarshal H x" and "(im_step unmarshal H)\<^sup>*\<^sup>* x (F, P, s, b)"
    and "unmarshal config = Some img" and "im_RootFS img = Some rootfs"
    and "is_Create unmarshal H (NewFSStoreBackend H io) (layer_ops env) config s = (ImgErr (LayerFailed e), t)"
    and "NewStoreFromGraphDriver fuel (ls_store (is_ls t)) driver = Some l"
  shows "fs_content (is_fs t) (H config) = Some config \<and>
    fst (NewImageStore unmarshal H (NewFSStoreBackend H io') (layer_ops env') (is_fs t) l) \<noteq> ImgOK ()"
proof -
  have ok: "im_ok unmarshal H (F, P, s, b)" by (rule images.reachable_inv [OF assms(1,2)])
  note i = store_invD [OF im_okD(1) [OF ok]]
  have root: "im_RootFS img' \<noteq> None" if "unmarshal config = Some img'" for img' using that assms(3,4) by simp
  obtain r u where p: "create_prepare unmarshal (NewFSStoreBackend H io) config s = (r, u)" by (metis prod.exhaust)
  note law = ims.prepare_law [OF im_okD(1) [OF ok] p root]
  have "r \<noteq> ImgErr (LayerFailed e)"
    using p assms(3,4) by (auto simp: create_prepare_def NewFSStoreBackend_def fs_Set_def Let_def split: option.splits if_splits)
  then obtain rf where rd: "r = ImgOK (rf, H config)" "disk_image unmarshal (fs_content (is_fs u)) (H config) rf"
    "fs_content (is_fs u) = (fs_content (is_fs s))(H config \<mapsto> config)"
    "create_publish H (layer_ops env) rf (H config) u = (ImgErr (LayerFailed e), t)"
    using assms(5) p law(5) by (cases r) (auto simp: is_Create_def)
  note iu = store_invD [OF law(1)]
  have pub: "t = u" "rootfs_ChainID H rf \<noteq> ''''" "\<not> registered (is_ls u) (rootfs_ChainID H rf)"
    using ims.publish_law(4) [OF law(1) ims.disk_image_config [OF iu(2) rd(2)] rd(4)] by simp_all
  have lo: "ls_inv F (is_ls t)" "disk_ok H (is_ls t)" using iu(1) pub(1) by (simp_all add: layers_ok_def)
  note sp = reopen_spec [OF lo assms(6)]
  have "registered l = registered (is_ls t)"
    using registered_view [OF ls_invD(1) [OF sp(1)]] registered_view [OF ls_invD(1) [OF lo(1)]] sp(4) by (simp add: fun_eq_iff)
  then have "\<not> registered l (rootfs_ChainID H rf)" using pub by simp
  moreover have "layers_ok H {#} l" using sp by (simp add: layers_ok_def)
  moreover obtain r' t' where "NewImageStore unmarshal H (NewFSStoreBackend H io') (layer_ops env') (is_fs t) l = (r', t')" by (metis prod.exhaust)
  ultimately show ?thesis using ims.NewImageStore_law(2) [of H "{#}" l "is_fs t"] iu(2) pub rd(2,3) by fastforce
qed

section \<open>A run\<close>

text \<open>
  A layer is registered, and an image with that layer is created. A second configuration names a layer
  that is not registered.
\<close>

definition demo_img :: "string list \<Rightarrow> unit Image" where
  "demo_img diffs = \<lparr>v1_ID = '''', v1_Parent = '''', v1_Comment = '''', v1_Created = '''', v1_Container = '''', v1_ContainerConfig = (),
     v1_DockerVersion = '''', v1_Author = '''', v1_Config = None, v1_Architecture = '''', v1_OS = '''', v1_Size = 0, im_Parent = '''',
     im_RootFS = Some \<lparr>rf_Type = TypeLayers, rf_DiffIDs = diffs\<rparr>, im_History = [], im_OSVersion = '''', im_OSFeatures = [],
     im_rawJSON = '''', im_computedID = ''''\<rparr>"

definition demo_json :: "string \<Rightarrow> unit Image option" where
  "demo_json config = (if config = ''A'' then Some (demo_img [demo_root]) else Some (demo_img [demo_hash '''']))"

definition demo_digest :: "string \<Rightarrow> string" where
  "demo_digest x = ''sha256:'' @ replicate 64 (if x = ''A'' then CHR ''1'' else CHR ''c'')"

definition demo_io :: fs_io where
  "demo_io = \<lparr>io_write = True, io_mkdir = True, io_remove = True, io_removeAll = (\<lambda>_. True), io_readDir = True\<rparr>"

abbreviation demo_be :: "image_fs StoreBackend" where "demo_be \<equiv> NewFSStoreBackend demo_digest demo_io"
abbreviation demo_lgr :: "(layerStore, layer_handle) LayerGetReleaser" where "demo_lgr \<equiv> layer_ops (\<lambda>_. (True, True))"

definition image0 :: "(image_fs, layerStore, layer_handle) image_store" where
  "image0 = \<lparr>is_ls = demo0, is_images = fmempty, is_fs = newFSStore, is_digestSet = []\<rparr>"

definition image1 :: "(image_fs, layerStore, layer_handle) image_store" where
  "image1 = image0\<lparr>is_ls := snd (register_publish demo_digest (demo_env CHR ''a'') '''' None demo0)\<rparr>"

definition image2 :: "(image_fs, layerStore, layer_handle) image_store" where
  "image2 = snd (create_prepare demo_json demo_be ''A'' image1)"

definition image3 :: "(image_fs, layerStore, layer_handle) image_store" where
  "image3 = snd (create_publish demo_digest demo_lgr \<lparr>rf_Type = TypeLayers, rf_DiffIDs = [demo_root]\<rparr> (demo_digest ''A'') image2)"

definition image4 :: "(image_fs, layerStore, layer_handle) image_store" where
  "image4 = snd (is_Create demo_json demo_digest demo_be demo_lgr ''B'' image3)"

lemma demo_digest_canonical: "canonical (demo_digest x)"
proof -
  have "canonical (''sha256:'' @ replicate 64 CHR ''1'')" "canonical (''sha256:'' @ replicate 64 CHR ''c'')" by code_simp+
  then show ?thesis by (simp add: demo_digest_def)
qed

lemma image_run_results:
  "fst (register_publish demo_digest (demo_env CHR ''a'') '''' None demo0) = (False, LayerOK \<lparr>lh_ChainID = demo_root, lh_ref = 1\<rparr>)"
  "fst (create_prepare demo_json demo_be ''A'' image1) = ImgOK (\<lparr>rf_Type = TypeLayers, rf_DiffIDs = [demo_root]\<rparr>, demo_digest ''A'')"
  "fst (create_publish demo_digest demo_lgr \<lparr>rf_Type = TypeLayers, rf_DiffIDs = [demo_root]\<rparr> (demo_digest ''A'') image2) = ImgOK (demo_digest ''A'')"
  "fst (is_Create demo_json demo_digest demo_be demo_lgr ''B'' image3) = ImgErr (LayerFailed ErrLayerDoesNotExist)"
  "fs_content (is_fs image1) (demo_digest ''A'') = None"
  by code_simp+

lemma image_run_new: "new_images demo_json demo_digest ({#}, {#}, image0, False)"
proof -
  have "fms_List NewFSMetadataStore = ([], [])" by code_simp
  then have l: "NewStoreFromGraphDriver 1 NewFSMetadataStore {||} = Some demo0"
    by (simp add: NewStoreFromGraphDriver_def demo0_def)
  have "NewImageStore demo_json demo_digest demo_be demo_lgr newFSStore demo0 = (ImgOK (), image0)"
    by (simp add: NewImageStore_def restore_def NewFSStoreBackend_def fs_Walk_def demo_io_def newFSStore_def image0_def sorted_list_of_fset.rep_eq)
  with l show ?thesis using demo_digest_canonical unfolding new_images_def by blast
qed

lemma image_run: "(im_step demo_json demo_digest)\<^sup>*\<^sup>* ({#}, {#}, image0, False) ({#}, {#}, image3, False)"
proof -
  let ?rf = "\<lparr>rf_Type = TypeLayers, rf_DiffIDs = [demo_root]\<rparr>"
  have "register_publish demo_digest (demo_env CHR ''a'') '''' None demo0 = ((False, LayerOK \<lparr>lh_ChainID = demo_root, lh_ref = 1\<rparr>), is_ls image1)"
    using image_run_results(1) unfolding image1_def by (metis prod.collapse image_store.select_convs(1) image_store.update_convs(1) image_store.surjective)
  from step_publish [OF demo_tar_ok(1) this, of "{#}" False]
  have "ls_step demo_digest ({#}, is_ls image0, False) (Acquired \<lparr>lh_ChainID = demo_root, lh_ref = 1\<rparr>) ({#}, is_ls image1, False)"
    by (simp add: image0_def)
  from im_layers [OF this, of demo_json "{#}" False]
  have 1: "im_step demo_json demo_digest ({#}, {#}, image0, False) ({#}, {#}, image1, False)"
    by (simp add: image0_def image1_def)
  have "create_prepare demo_json demo_be ''A'' image1 = (ImgOK (?rf, demo_digest ''A''), image2)"
    using image_run_results(2) unfolding image2_def by (metis prod.collapse)
  from im_prepare [OF this, of "{#}" "{#}" False]
  have 2: "im_step demo_json demo_digest ({#}, {#}, image1, False) ({#}, {#(?rf, demo_digest ''A'')#}, image2, False)"
    using image_run_results(5) by (simp add: demo_json_def demo_img_def)
  have "create_publish demo_digest demo_lgr ?rf (demo_digest ''A'') image2 = (ImgOK (demo_digest ''A''), image3)"
    using image_run_results(3) unfolding image3_def by (metis prod.collapse)
  from im_publish [OF this, of demo_json "{#}" "{#}" False]
  have 3: "im_step demo_json demo_digest ({#}, {#(?rf, demo_digest ''A'')#}, image2, False) ({#}, {#}, image3, False)" by simp
  from 1 2 3 show ?thesis by (meson converse_rtranclp_into_rtranclp rtranclp.rtrancl_refl)
qed


theorem image_search_by_prefix_witness:
  "is_Search ''1111'' image3 = ImgOK (demo_digest ''A'') \<and> {q. q |\<in>| fmdom (is_images image3) \<and> denotes ''1111'' q} = {demo_digest ''A''}"
proof -
  have "is_Search ''1111'' image3 = ImgOK (demo_digest ''A'')" by code_simp
  with image_search_by_prefix [OF image_run_new image_run, of "''1111''" "demo_digest ''A''"] show ?thesis by simp
qed


theorem failed_create_blocks_restart_witness:
  "\<exists>l. NewStoreFromGraphDriver 3 (ls_store (is_ls image4)) {||} = Some l \<and>
     fst (NewImageStore demo_json demo_digest demo_be demo_lgr (is_fs image4) l) \<noteq> ImgOK ()"
proof -
  have c: "is_Create demo_json demo_digest demo_be demo_lgr ''B'' image3 = (ImgErr (LayerFailed ErrLayerDoesNotExist), image4)"
    using image_run_results(4) unfolding image4_def by (metis prod.collapse)
  have "NewStoreFromGraphDriver 3 (ls_store (is_ls image4)) {||} \<noteq> None" by code_simp
  then obtain l where l: "NewStoreFromGraphDriver 3 (ls_store (is_ls image4)) {||} = Some l" by blast
  have "demo_json ''B'' = Some (demo_img [demo_hash ''''])" "im_RootFS (demo_img [demo_hash '''']) = Some \<lparr>rf_Type = TypeLayers, rf_DiffIDs = [demo_hash '''']\<rparr>"
    by (simp_all add: demo_json_def demo_img_def)
  from failed_create_blocks_restart [OF image_run_new image_run this c l, of demo_io "\<lambda>_. (True, True)"] l show ?thesis by blast
qed

end
