(* ===== verification/StdStreams.thy ===== *)
theory StdStreams
  imports Prelude "HOL-Library.Word"
begin

text \<open>
  Multiplexing the output streams of a container over one connection (\<^verbatim>\<open>src/pkg/stdcopy/stdcopy.go\<close>).

  A reader is the script of what it will deliver: chunks, of which one call of \<^verbatim>\<open>Read\<close> takes at most one, and
  only as much as fits the slice it is given; the last may come with the end of the stream or with an
  error, and a script that is used up reports the end of the stream. The buffer is its filled part
  \<^verbatim>\<open>buf[:nr]\<close> and its length: what lies beyond \<^verbatim>\<open>nr\<close> is never looked at. The loops are partial functions, with
  \<open>None\<close> for a call that does not return. What the \<open>k\<close>-th write to a destination does is an argument: the
  number of bytes taken, and whether it fails.
\<close>

unbundle bit_operations_syntax

type_synonym byte = "8 word"

section \<open>Writing\<close>

datatype StdType = Stdin | Stdout | Stderr

fun std_byte :: "StdType \<Rightarrow> byte" where
  "std_byte Stdin = 0"
| "std_byte Stdout = 1"
| "std_byte Stderr = 2"

definition stdWriterPrefixLen :: nat where "stdWriterPrefixLen = 8"
definition stdWriterFdIndex :: nat where "stdWriterFdIndex = 0"
definition stdWriterSizeIndex :: nat where "stdWriterSizeIndex = 4"
definition startingBufLen :: nat where "startingBufLen = 32 * 1024 + stdWriterPrefixLen + 1"

definition PutUint32 :: "32 word \<Rightarrow> byte list" where
  "PutUint32 v = [ucast (drop_bit 24 v), ucast (drop_bit 16 v), ucast (drop_bit 8 v), ucast v]"

definition Uint32 :: "byte list \<Rightarrow> 32 word" where
  "Uint32 b = ucast (b ! 3) OR push_bit 8 (ucast (b ! 2)) OR push_bit 16 (ucast (b ! 1)) OR push_bit 24 (ucast (b ! 0))"

datatype std_error = NotInstantiated | ReadFailed | UnrecognizedHeader byte | WriteFailed | ErrShortWrite

record stdWriter =
  sw_Writer :: "(byte list \<Rightarrow> nat \<times> std_error option) option"
  sw_prefix :: byte

definition NewStdWriter :: "(byte list \<Rightarrow> nat \<times> std_error option) \<Rightarrow> StdType \<Rightarrow> stdWriter" where
  "NewStdWriter w t = \<lparr>sw_Writer = Some w, sw_prefix = std_byte t\<rparr>"

text \<open>The header and the payload, which the underlying writer is given in one piece.\<close>

definition std_frame :: "byte \<Rightarrow> byte list \<Rightarrow> byte list" where
  "std_frame prefix p = take stdWriterSizeIndex ((replicate stdWriterPrefixLen 0)[stdWriterFdIndex := prefix]) @ PutUint32 (of_nat (length p)) @ p"

definition stdWriter_Write :: "stdWriter option \<Rightarrow> byte list option \<Rightarrow> (byte list list) \<times> nat \<times> std_error option" where
  "stdWriter_Write w p =
     (case w of
        None \<Rightarrow> ([], 0, Some NotInstantiated)
      | Some w \<Rightarrow>
          (case sw_Writer w of
             None \<Rightarrow> ([], 0, Some NotInstantiated)
           | Some Write \<Rightarrow>
               (case p of
                  None \<Rightarrow> ([], 0, None)
                | Some p \<Rightarrow>
                    (let buf = std_frame (sw_prefix w) p; (n, err) = Write buf
                     in ([buf], n - stdWriterPrefixLen, err)))))"

section \<open>Reading\<close>

datatype chunk = Chunk "byte list" | ChunkEOF "byte list" | ChunkErr "byte list"

datatype read_end = ReadOK | ReadEOF | ReadErr

fun src_Read :: "nat \<Rightarrow> chunk list \<Rightarrow> (byte list \<times> read_end) \<times> chunk list" where
  "src_Read n [] = (([], ReadEOF), [])"
| "src_Read n (Chunk bs # cs) = (if length bs \<le> n then ((bs, ReadOK), cs) else ((take n bs, ReadOK), Chunk (drop n bs) # cs))"
| "src_Read n (ChunkEOF bs # cs) = (if length bs \<le> n then ((bs, ReadEOF), []) else ((take n bs, ReadOK), ChunkEOF (drop n bs) # cs))"
| "src_Read n (ChunkErr bs # cs) = (if length bs \<le> n then ((bs, ReadErr), cs) else ((take n bs, ReadOK), ChunkErr (drop n bs) # cs))"

text \<open>The two inner loops: read until \<open>need\<close> bytes are in the buffer.\<close>

partial_function (option) fill_buffer :: "nat \<Rightarrow> nat \<Rightarrow> byte list \<Rightarrow> chunk list \<Rightarrow> (read_end \<times> byte list \<times> chunk list) option" where
  "fill_buffer need bufLen buf src =
     (if length buf < need then
        (case src_Read (bufLen - length buf) src of
           ((bs, er), src') \<Rightarrow>
             (case er of
                ReadEOF \<Rightarrow> Some (if length (buf @ bs) < need then ReadEOF else ReadOK, buf @ bs, src')
              | ReadErr \<Rightarrow> Some (ReadErr, buf @ bs, src')
              | ReadOK \<Rightarrow> fill_buffer need bufLen (buf @ bs) src'))
      else Some (ReadOK, buf, src))"

record copy_state =
  cp_buf :: "byte list"
  cp_bufLen :: nat
  cp_src :: "chunk list"
  cp_out :: "byte list"
  cp_err :: "byte list"
  cp_written :: int
  cp_writes :: nat

definition select_out :: "byte \<Rightarrow> StdType option" where
  "select_out b = (if b = std_byte Stdin then Some Stdout else if b = std_byte Stdout then Some Stdout
     else if b = std_byte Stderr then Some Stderr else None)"

definition frame_size :: "byte list \<Rightarrow> nat" where
  "frame_size buf = unat (Uint32 (take 4 (drop stdWriterSizeIndex buf)))"

text \<open>Lines 167 to 183: write the frame out and move the rest of the buffer to its beginning.\<close>

definition write_frame :: "(nat \<Rightarrow> byte list \<Rightarrow> nat \<times> bool) \<Rightarrow> StdType \<Rightarrow> nat \<Rightarrow> copy_state \<Rightarrow> std_error option \<times> copy_state" where
  "write_frame wr out frameSize s =
     (let p = take frameSize (drop stdWriterPrefixLen (cp_buf s));
          (nw, ok) = wr (cp_writes s) p;
          s1 = s\<lparr>cp_writes := Suc (cp_writes s), cp_out := cp_out s @ (if out = Stderr then [] else take nw p),
                 cp_err := cp_err s @ (if out = Stderr then take nw p else [])\<rparr>
      in if \<not> ok then (Some WriteFailed, s1)
         else if nw \<noteq> frameSize then (Some ErrShortWrite, s1)
         else (None, s1\<lparr>cp_written := cp_written s1 + int nw, cp_buf := drop (frameSize + stdWriterPrefixLen) (cp_buf s1)\<rparr>))"

partial_function (option) copy_loop :: "(nat \<Rightarrow> byte list \<Rightarrow> nat \<times> bool) \<Rightarrow> copy_state \<Rightarrow> ((int \<times> std_error option) \<times> copy_state) option" where
  "copy_loop wr s =
     (case fill_buffer stdWriterPrefixLen (cp_bufLen s) (cp_buf s) (cp_src s) of
        None \<Rightarrow> None
      | Some (r, buf, src) \<Rightarrow>
          (let s1 = s\<lparr>cp_buf := buf, cp_src := src\<rparr>
           in case r of
                ReadEOF \<Rightarrow> Some ((cp_written s1, None), s1)
              | ReadErr \<Rightarrow> Some ((0, Some ReadFailed), s1)
              | ReadOK \<Rightarrow>
                  (case select_out (buf ! stdWriterFdIndex) of
                     None \<Rightarrow> Some ((0, Some (UnrecognizedHeader (buf ! stdWriterFdIndex))), s1)
                   | Some out \<Rightarrow>
                       (let frameSize = frame_size buf;
                            bufLen = (if frameSize + stdWriterPrefixLen > cp_bufLen s1
                                      then cp_bufLen s1 + (frameSize + stdWriterPrefixLen - cp_bufLen s1 + 1) else cp_bufLen s1)
                        in case fill_buffer (frameSize + stdWriterPrefixLen) bufLen buf src of
                             None \<Rightarrow> None
                           | Some (r2, buf2, src2) \<Rightarrow>
                               (let s2 = s1\<lparr>cp_buf := buf2, cp_src := src2, cp_bufLen := bufLen\<rparr>
                                in case r2 of
                                     ReadEOF \<Rightarrow> Some ((cp_written s2, None), s2)
                                   | ReadErr \<Rightarrow> Some ((0, Some ReadFailed), s2)
                                   | ReadOK \<Rightarrow>
                                       (case write_frame wr out frameSize s2 of
                                          (Some e, s3) \<Rightarrow> Some ((0, Some e), s3)
                                        | (None, s3) \<Rightarrow> copy_loop wr s3))))))"

definition StdCopy :: "(nat \<Rightarrow> byte list \<Rightarrow> nat \<times> bool) \<Rightarrow> chunk list \<Rightarrow> ((int \<times> std_error option) \<times> byte list \<times> byte list) option" where
  "StdCopy wr src =
     map_option (\<lambda>(r, s). (r, cp_out s, cp_err s))
       (copy_loop wr \<lparr>cp_buf = [], cp_bufLen = startingBufLen, cp_src = src, cp_out = [], cp_err = [], cp_written = 0, cp_writes = 0\<rparr>)"

section \<open>Big-endian numbers\<close>

lemma Uint32_PutUint32 [simp]: "Uint32 (PutUint32 v @ rest) = v"
proof (rule bit_word_eqI)
  fix n assume "n < LENGTH(32)"
  then have "n < 8 \<or> 8 \<le> n \<and> n < 16 \<or> 16 \<le> n \<and> n < 24 \<or> 24 \<le> n \<and> n < 32" by auto
  then show "bit (Uint32 (PutUint32 v @ rest)) n \<longleftrightarrow> bit v n"
    by (auto simp: Uint32_def PutUint32_def bit_simps)
qed

lemma length_PutUint32 [simp]: "length (PutUint32 v) = 4"
  by (simp add: PutUint32_def)

section \<open>What a reader delivers\<close>

fun delivers :: "chunk list \<Rightarrow> byte list" where
  "delivers [] = []"
| "delivers (Chunk bs # cs) = bs @ delivers cs"
| "delivers (ChunkEOF bs # cs) = bs"
| "delivers (ChunkErr bs # cs) = bs"

fun never_fails :: "chunk list \<Rightarrow> bool" where
  "never_fails [] \<longleftrightarrow> True"
| "never_fails (Chunk bs # cs) \<longleftrightarrow> never_fails cs"
| "never_fails (ChunkEOF bs # cs) \<longleftrightarrow> True"
| "never_fails (ChunkErr bs # cs) \<longleftrightarrow> False"

fun script_size :: "chunk list \<Rightarrow> nat" where
  "script_size [] = 0"
| "script_size (Chunk bs # cs) = Suc (length bs + script_size cs)"
| "script_size (ChunkEOF bs # cs) = Suc (length bs + script_size cs)"
| "script_size (ChunkErr bs # cs) = Suc (length bs + script_size cs)"

lemma src_Read_spec:
  assumes "0 < n" and "never_fails src" and "src_Read n src = ((bs, er), src')"
  shows "er \<noteq> ReadErr" and "never_fails src'" and "delivers src = bs @ delivers src'" and "length bs \<le> n"
    and "er = ReadEOF \<Longrightarrow> delivers src' = []" and "er = ReadOK \<Longrightarrow> script_size src' < script_size src"
  using assms by (cases "(n, src)" rule: src_Read.cases; auto split: if_splits)+

lemma fill_buffer_spec:
  assumes "need \<le> bufLen" and "never_fails src" and "length buf \<le> bufLen"
  obtains r buf' src' where "fill_buffer need bufLen buf src = Some (r, buf', src')" "never_fails src'"
    "buf' @ delivers src' = buf @ delivers src" "length buf' \<le> bufLen"
    "r = (if need \<le> length (buf @ delivers src) then ReadOK else ReadEOF)" "r = ReadOK \<longrightarrow> need \<le> length buf'"
proof -
  have "\<exists>r buf' src'. fill_buffer need bufLen buf src = Some (r, buf', src') \<and> never_fails src' \<and>
    buf' @ delivers src' = buf @ delivers src \<and> length buf' \<le> bufLen \<and>
    r = (if need \<le> length (buf @ delivers src) then ReadOK else ReadEOF) \<and> (r = ReadOK \<longrightarrow> need \<le> length buf')"
    using assms(2,3)
  proof (induction "script_size src" arbitrary: src buf rule: less_induct)
    case less
    show ?case
    proof (cases "length buf < need")
      case False
      then show ?thesis using less.prems by (subst fill_buffer.simps) auto
    next
      case True
      then have n: "0 < bufLen - length buf" using assms(1) by simp
      obtain bs er src' where rd: "src_Read (bufLen - length buf) src = ((bs, er), src')" by (metis prod.exhaust)
      note sp = src_Read_spec [OF n less.prems(1) rd]
      have len: "length (buf @ bs) \<le> bufLen" using sp(4) True assms(1) by simp
      show ?thesis
      proof (cases er)
        case ReadOK
        then have "fill_buffer need bufLen buf src = fill_buffer need bufLen (buf @ bs) src'"
          using True rd by (subst fill_buffer.simps) simp
        then show ?thesis using less.hyps [OF sp(6) [OF ReadOK] sp(2) len] sp(3) by simp
      next
        case ReadEOF
        then have "fill_buffer need bufLen buf src = Some (if length (buf @ bs) < need then ReadEOF else ReadOK, buf @ bs, src')"
          using True rd by (subst fill_buffer.simps) simp
        then show ?thesis using sp(2,3) sp(5) [OF ReadEOF] len by simp
      next
        case ReadErr
        then show ?thesis using sp(1) by simp
      qed
    qed
  qed
  then show thesis using that by blast
qed

section \<open>The reference\<close>

text \<open>Demultiplexing the whole stream at once: the complete frames, and the byte of the first header that is not recognized.\<close>

function demux :: "byte list \<Rightarrow> (StdType \<times> byte list) list \<times> byte option" where
  "demux bs =
     (if length bs < 8 then ([], None)
      else
        (case select_out (bs ! 0) of
           None \<Rightarrow> ([], Some (bs ! 0))
         | Some out \<Rightarrow>
             (let n = frame_size bs
              in if length bs < n + 8 then ([], None)
                 else (case demux (drop (n + 8) bs) of (fs, e) \<Rightarrow> ((out, take n (drop 8 bs)) # fs, e)))))"
  by pat_completeness auto
termination by (relation "measure length") auto

declare demux.simps [simp del]

definition stream_of :: "StdType \<Rightarrow> (StdType \<times> byte list) list \<Rightarrow> byte list" where
  "stream_of t fs = concat (map snd (filter (\<lambda>f. fst f = t) fs))"

lemma stream_of_simps [simp]: "stream_of t [] = []" "stream_of t (f # fs) = (if fst f = t then snd f else []) @ stream_of t fs"
  by (simp_all add: stream_of_def)

text \<open>Destinations that take everything.\<close>

definition accepts :: "nat \<Rightarrow> byte list \<Rightarrow> nat \<times> bool" where
  "accepts k p = (length p, True)"

lemma frame_size_prefix: "8 \<le> length buf \<Longrightarrow> frame_size (buf @ x) = frame_size buf"
  by (simp add: frame_size_def stdWriterSizeIndex_def)

lemma select_out_cases: "select_out b = Some t \<Longrightarrow> t = Stdout \<or> t = Stderr"
  by (auto simp: select_out_def split: if_splits)

lemma copy_loop_demux:
  assumes "never_fails (cp_src s)" and "length (cp_buf s) \<le> cp_bufLen s" and "8 \<le> cp_bufLen s"
    and "demux (cp_buf s @ delivers (cp_src s)) = (fs, e)"
  shows "\<exists>t. copy_loop accepts s = Some ((case e of None \<Rightarrow> (cp_written s + int (length (concat (map snd fs))), None)
        | Some b \<Rightarrow> (0, Some (UnrecognizedHeader b))), t) \<and>
      cp_out t = cp_out s @ stream_of Stdout fs \<and> cp_err t = cp_err s @ stream_of Stderr fs"
  using assms
proof (induction "length (cp_buf s @ delivers (cp_src s))" arbitrary: s fs rule: less_induct)
  case less
  let ?all = "cp_buf s @ delivers (cp_src s)"
  obtain r buf src where f: "fill_buffer 8 (cp_bufLen s) (cp_buf s) (cp_src s) = Some (r, buf, src)" "never_fails src"
    "buf @ delivers src = ?all" "length buf \<le> cp_bufLen s" "r = (if 8 \<le> length ?all then ReadOK else ReadEOF)" "r = ReadOK \<longrightarrow> 8 \<le> length buf"
    by (rule fill_buffer_spec [OF less.prems(3,1,2)])
  show ?case
  proof (cases "8 \<le> length ?all")
    case False
    then have "fs = [] \<and> e = None" using less.prems(4) by (subst (asm) demux.simps) auto
    then show ?thesis using f False by (subst copy_loop.simps) (simp add: stdWriterPrefixLen_def Let_def)
  next
    case True
    then have ok: "r = ReadOK" and len: "8 \<le> length buf" using f(5,6) by simp_all
    then have hd: "?all ! 0 = buf ! 0" and size: "frame_size ?all = frame_size buf"
      using frame_size_prefix [OF len, of "delivers src"] f(3) by (metis nth_append less_le_trans zero_less_numeral, simp)
    let ?n = "frame_size buf"
    show ?thesis
    proof (cases "select_out (buf ! 0)")
      case None
      then have "fs = [] \<and> e = Some (buf ! 0)" using less.prems(4) True hd by (subst (asm) demux.simps) auto
      then show ?thesis using f(1) ok None by (subst copy_loop.simps) (simp add: stdWriterPrefixLen_def stdWriterFdIndex_def Let_def)
    next
      case (Some out)
      define bufLen where "bufLen = (if cp_bufLen s < ?n + 8 then cp_bufLen s + (?n + 8 - cp_bufLen s + 1) else cp_bufLen s)"
      have bl: "?n + 8 \<le> bufLen" "length buf \<le> bufLen" "8 \<le> bufLen" using f(4) len by (auto simp: bufLen_def)
      obtain r2 buf2 src2 where g: "fill_buffer (?n + 8) bufLen buf src = Some (r2, buf2, src2)" "never_fails src2"
        "buf2 @ delivers src2 = ?all" "length buf2 \<le> bufLen" "r2 = (if ?n + 8 \<le> length ?all then ReadOK else ReadEOF)"
        "r2 = ReadOK \<longrightarrow> ?n + 8 \<le> length buf2"
        using fill_buffer_spec [OF bl(1) f(2) bl(2)] unfolding f(3) by metis
      let ?s = "s\<lparr>cp_buf := buf2, cp_src := src2, cp_bufLen := bufLen\<rparr>"
      have loop: "copy_loop accepts s = (case r2 of ReadEOF \<Rightarrow> Some ((cp_written s, None), ?s) | ReadErr \<Rightarrow> Some ((0, Some ReadFailed), ?s)
          | ReadOK \<Rightarrow> (case write_frame accepts out ?n ?s of (Some e, s3) \<Rightarrow> Some ((0, Some e), s3) | (None, s3) \<Rightarrow> copy_loop accepts s3))"
        using f(1) ok Some g(1) unfolding bufLen_def
        by (subst copy_loop.simps, cases s, cases "cp_bufLen s < ?n + 8"; cases r2)
          (simp_all add: stdWriterPrefixLen_def stdWriterFdIndex_def Let_def)
      show ?thesis
      proof (cases "?n + 8 \<le> length ?all")
        case False
        then have "fs = [] \<and> e = None" using less.prems(4) True hd size Some by (subst (asm) demux.simps) (auto simp: Let_def)
        then show ?thesis using loop g(5) False by simp
      next
        case fits: True
        then have r2: "r2 = ReadOK" and l2: "?n + 8 \<le> length buf2" using g(5,6) by simp_all
        let ?p = "take ?n (drop 8 buf2)"
        define t where "t = ?s\<lparr>cp_writes := Suc (cp_writes s), cp_out := cp_out s @ (if out = Stderr then [] else ?p),
          cp_err := cp_err s @ (if out = Stderr then ?p else []), cp_written := cp_written s + int ?n, cp_buf := drop (?n + 8) buf2\<rparr>"
        have w: "write_frame accepts out ?n ?s = (None, t)"
          using l2 by (simp add: write_frame_def accepts_def stdWriterPrefixLen_def Let_def t_def)
        have split: "drop (?n + 8) buf2 @ delivers src2 = drop (?n + 8) ?all" "take ?n (drop 8 ?all) = ?p"
          unfolding g(3) [symmetric] using l2 by simp_all
        then have rest: "cp_buf t @ delivers (cp_src t) = drop (?n + 8) ?all" by (simp add: t_def)
        obtain fs' where fs: "demux (drop (?n + 8) ?all) = (fs', e)" "fs = (out, ?p) # fs'"
          using less.prems(4) True hd size Some fits split(2) by (subst (asm) demux.simps) (auto simp: Let_def split: prod.splits)
        have "length (cp_buf t @ delivers (cp_src t)) < length ?all" unfolding rest using True by simp
        moreover have "never_fails (cp_src t)" "length (cp_buf t) \<le> cp_bufLen t" "8 \<le> cp_bufLen t" using g(2,4) bl(3) by (simp_all add: t_def)
        moreover have "demux (cp_buf t @ delivers (cp_src t)) = (fs', e)" unfolding rest by (rule fs(1))
        ultimately obtain u where u: "copy_loop accepts t =
            Some ((case e of None \<Rightarrow> (cp_written t + int (length (concat (map snd fs'))), None) | Some b \<Rightarrow> (0, Some (UnrecognizedHeader b))), u)"
          "cp_out u = cp_out t @ stream_of Stdout fs'" "cp_err u = cp_err t @ stream_of Stderr fs'"
          using less.hyps by blast
        have "length ?p = ?n" using l2 by simp
        then show ?thesis using loop r2 w u select_out_cases [OF Some] fs(2) by (cases e) (auto simp: t_def)
      qed
    qed
  qed
qed

lemma StdCopy_demux:
  assumes "never_fails src" and "demux (delivers src) = (fs, e)"
  shows "StdCopy accepts src = Some ((case e of None \<Rightarrow> (int (length (concat (map snd fs))), None) | Some b \<Rightarrow> (0, Some (UnrecognizedHeader b))),
    stream_of Stdout fs, stream_of Stderr fs)"
proof -
  let ?s = "\<lparr>cp_buf = [], cp_bufLen = startingBufLen, cp_src = src, cp_out = [], cp_err = [], cp_written = 0, cp_writes = 0\<rparr>"
  obtain t where "copy_loop accepts ?s = Some ((case e of None \<Rightarrow> (int (length (concat (map snd fs))), None) | Some b \<Rightarrow> (0, Some (UnrecognizedHeader b))), t)"
    "cp_out t = stream_of Stdout fs" "cp_err t = stream_of Stderr fs"
    using copy_loop_demux [of ?s fs e] assms by (cases e) (auto simp: startingBufLen_def stdWriterPrefixLen_def)
  then show ?thesis by (simp add: StdCopy_def)
qed

section \<open>Round trip\<close>

definition stream_id :: "StdType \<Rightarrow> StdType" where
  "stream_id t = (if t = Stderr then Stderr else Stdout)"

lemma select_std_byte [simp]: "select_out (std_byte t) = Some (stream_id t)"
  by (cases t) (simp_all add: select_out_def stream_id_def)

lemma std_frame_eq: "std_frame b p = [b, 0, 0, 0] @ PutUint32 (of_nat (length p)) @ p"
  by (simp add: std_frame_def stdWriterPrefixLen_def stdWriterFdIndex_def stdWriterSizeIndex_def eval_nat_numeral)

lemma frame_size_frame:
  assumes "length p < 2 ^ 32"
  shows "frame_size (std_frame b p @ rest) = length p"
proof -
  have "take 4 (drop 4 (std_frame b p @ rest)) = PutUint32 (of_nat (length p)) @ []" by (simp add: std_frame_eq)
  then have "frame_size (std_frame b p @ rest) = unat (of_nat (length p) :: 32 word)"
    unfolding frame_size_def stdWriterSizeIndex_def by (simp only: Uint32_PutUint32)
  then show ?thesis using assms by (simp add: unat_of_nat)
qed

lemma demux_frame:
  assumes "length p < 2 ^ 32"
  shows "demux (std_frame (std_byte t) p @ rest) = ((stream_id t, p) # fst (demux rest), snd (demux rest))"
proof -
  have len: "length (std_frame (std_byte t) p) = length p + 8" by (simp add: std_frame_eq)
  have "(std_frame (std_byte t) p @ rest) ! 0 = std_byte t" "drop 8 (std_frame (std_byte t) p @ rest) = p @ rest"
    by (simp_all add: std_frame_eq)
  moreover have "drop (length p + 8) (std_frame (std_byte t) p @ rest) = rest" using len by simp
  ultimately show ?thesis using len frame_size_frame [OF assms] by (subst demux.simps) (simp add: Let_def split: prod.splits)
qed

lemma demux_frames:
  assumes "\<forall>(t, p) \<in> set ws. length p < 2 ^ 32" and "length tail < 8"
  shows "demux (concat (map (\<lambda>(t, p). std_frame (std_byte t) p) ws) @ tail) = (map (\<lambda>(t, p). (stream_id t, p)) ws, None)"
  using assms(1)
proof (induction ws)
  case Nil
  then show ?case using assms(2) by (simp add: demux.simps)
next
  case (Cons w ws)
  then show ?case by (cases w) (simp add: demux_frame)
qed

text \<open>
  C14. Whatever is written through standard writers onto one connection, \<open>StdCopy\<close> separates again: for
  any sequence of writes to the three streams, of less than 4 GiB each, and however the reader cuts the
  bytes into chunks, it returns, delivers the payloads for standard input and output to the one
  destination and those for standard error to the other, in order, and reports their total length. An
  incomplete header at the end is dropped without an error.
\<close>

theorem StdCopy_demultiplexes:
  assumes "\<forall>(t, p) \<in> set ws. length p < 2 ^ 32" and "length tail < 8" and "never_fails src"
    and "delivers src = concat (concat (map (\<lambda>(t, p). fst (stdWriter_Write (Some (NewStdWriter w t)) (Some p))) ws)) @ tail"
  shows "StdCopy accepts src =
    Some ((int (length (concat (map snd ws))), None),
          concat (map snd (filter (\<lambda>(t, p). t \<noteq> Stderr) ws)), concat (map snd (filter (\<lambda>(t, p). t = Stderr) ws)))"
proof -
  have one: "fst (stdWriter_Write (Some (NewStdWriter w t)) (Some p)) = [std_frame (std_byte t) p]" for t p
    by (simp add: stdWriter_Write_def NewStdWriter_def Let_def split: prod.splits)
  then have "concat (concat (map (\<lambda>(t, p). fst (stdWriter_Write (Some (NewStdWriter w t)) (Some p))) ws)) =
      concat (map (\<lambda>(t, p). std_frame (std_byte t) p) ws)"
    by (induction ws) auto
  then have d: "demux (delivers src) = (map (\<lambda>(t, p). (stream_id t, p)) ws, None)"
    using demux_frames [OF assms(1,2)] assms(4) by simp
  have "stream_of Stdout (map (\<lambda>(t, p). (stream_id t, p)) ws) = concat (map snd (filter (\<lambda>(t, p). t \<noteq> Stderr) ws))"
    "stream_of Stderr (map (\<lambda>(t, p). (stream_id t, p)) ws) = concat (map snd (filter (\<lambda>(t, p). t = Stderr) ws))"
    "concat (map snd (map (\<lambda>(t, p). (stream_id t, p)) ws)) = concat (map snd ws)"
    by (induction ws) (auto simp: stream_id_def)
  with StdCopy_demux [OF assms(3) d] show ?thesis by simp
qed

theorem StdCopy_demultiplexes_witness:
  "StdCopy accepts [Chunk [1, 0, 0, 0, 0], Chunk [0, 0, 2, 104, 105, 2, 0, 0], ChunkEOF [0, 0, 0, 0, 1, 33, 1]] = Some ((3, None), [104, 105], [33])"
  (is "StdCopy accepts ?src = _")
proof -
  let ?ws = "[(Stdout, [104, 105]), (Stderr, [33])] :: (StdType \<times> byte list) list"
  let ?w = "\<lambda>p :: byte list. (length p, None)"
  have "delivers ?src = concat (concat (map (\<lambda>(t, p). fst (stdWriter_Write (Some (NewStdWriter ?w t)) (Some p))) ?ws)) @ [1]"
    by (simp add: stdWriter_Write_def NewStdWriter_def Let_def std_frame_eq PutUint32_def)
  from StdCopy_demultiplexes [OF _ _ _ this] show ?thesis by simp
qed

text \<open>
  C25. \<open>StdCopy\<close> is the reference that splits the whole stream at once, for every stream a reader delivers
  without failing and however it cuts it: complete frames are delivered, an incomplete one at the end is
  dropped, and the first header that names no stream stops it with an error and no count.
\<close>

theorem StdCopy_is_demux:
  assumes "never_fails src"
  shows "StdCopy accepts src =
    Some ((case snd (demux (delivers src)) of None \<Rightarrow> (int (length (concat (map snd (fst (demux (delivers src)))))), None)
           | Some b \<Rightarrow> (0, Some (UnrecognizedHeader b))),
          stream_of Stdout (fst (demux (delivers src))), stream_of Stderr (fst (demux (delivers src))))"
  using StdCopy_demux [OF assms] by (metis prod.collapse)

theorem StdCopy_is_demux_witness: "StdCopy accepts [Chunk [7, 0, 0], Chunk [0, 0, 0, 0, 0, 1]] = Some ((0, Some (UnrecognizedHeader 7)), [], [])"
proof -
  have "demux [7, 0, 0, 0, 0, 0, 0, 0, 1] = ([], Some 7)" by (simp add: demux.simps select_out_def)
  with StdCopy_is_demux [of "[Chunk [7, 0, 0], Chunk [0, 0, 0, 0, 0, 1]]"] show ?thesis by simp
qed

end
