(* ===== verification/NameLocks.thy ===== *)
theory NameLocks
  imports Prelude "HOL-Library.Word" "HOL-Library.Multiset"
begin

text \<open>
  Locks by name (\<^verbatim>\<open>src/pkg/locker/locker.go\<close>). A \<^verbatim>\<open>lockCtr\<close> is reached through pointers, so it lives in a heap;
  its counter of waiters is a 32-bit integer. A session is one call of \<^verbatim>\<open>Lock\<close> and the call of \<^verbatim>\<open>Unlock\<close> that ends
  it, and any number of sessions run side by side. Their steps are what the code does without another
  goroutine in between: the section of \<^verbatim>\<open>Lock\<close> under the main mutex, taking the named mutex, counting the
  waiter off, and \<^verbatim>\<open>Unlock\<close>, all of which is under the main mutex.
\<close>

section \<open>Definitions\<close>

record lockCtr =
  lc_locked :: bool
  lc_waiters :: "32 word"

record Locker =
  lk_locks :: "(string, nat) fmap"
  lk_heap :: "(nat, lockCtr) fmap"
  lk_fresh :: nat

definition lc_inc :: "lockCtr \<Rightarrow> lockCtr" where "lc_inc l = l\<lparr>lc_waiters := lc_waiters l + 1\<rparr>"
definition lc_dec :: "lockCtr \<Rightarrow> lockCtr" where "lc_dec l = l\<lparr>lc_waiters := lc_waiters l - 1\<rparr>"
definition lc_count :: "lockCtr \<Rightarrow> int" where "lc_count l = sint (lc_waiters l)"

text \<open>Locking a locked mutex blocks, and unlocking one that is not locked is a fatal error: \<open>None\<close>.\<close>

definition lc_Lock :: "lockCtr \<Rightarrow> lockCtr option" where
  "lc_Lock l = (if lc_locked l then None else Some (l\<lparr>lc_locked := True\<rparr>))"

definition lc_Unlock :: "lockCtr \<Rightarrow> lockCtr option" where
  "lc_Unlock l = (if lc_locked l then Some (l\<lparr>lc_locked := False\<rparr>) else None)"

definition Locker_New :: Locker where
  "Locker_New = \<lparr>lk_locks = fmempty, lk_heap = fmempty, lk_fresh = 0\<rparr>"

definition upd_ctr :: "nat \<Rightarrow> (lockCtr \<Rightarrow> lockCtr) \<Rightarrow> Locker \<Rightarrow> Locker" where
  "upd_ctr a f s = (case fmlookup (lk_heap s) a of None \<Rightarrow> s | Some l \<Rightarrow> s\<lparr>lk_heap := fmupd a (f l) (lk_heap s)\<rparr>)"

definition lock_enter :: "string \<Rightarrow> Locker \<Rightarrow> nat \<times> Locker" where
  "lock_enter name s =
     (case fmlookup (lk_locks s) name of
        Some a \<Rightarrow> (a, upd_ctr a lc_inc s)
      | None \<Rightarrow>
          (let a = lk_fresh s;
               s1 = s\<lparr>lk_heap := fmupd a \<lparr>lc_locked = False, lc_waiters = 0\<rparr> (lk_heap s), lk_fresh := Suc a, lk_locks := fmupd name a (lk_locks s)\<rparr>
           in (a, upd_ctr a lc_inc s1)))"

definition lock_take :: "nat \<Rightarrow> Locker \<Rightarrow> Locker option" where
  "lock_take a s =
     (case fmlookup (lk_heap s) a of
        None \<Rightarrow> None
      | Some l \<Rightarrow> map_option (\<lambda>l'. s\<lparr>lk_heap := fmupd a l' (lk_heap s)\<rparr>) (lc_Lock l))"

definition lock_leave :: "nat \<Rightarrow> Locker \<Rightarrow> Locker" where
  "lock_leave a s = upd_ctr a lc_dec s"

datatype unlock_result = Unlocked | ErrNoSuchLock | FatalUnlock

definition Locker_Unlock :: "string \<Rightarrow> Locker \<Rightarrow> unlock_result \<times> Locker" where
  "Locker_Unlock name s =
     (case fmlookup (lk_locks s) name of
        None \<Rightarrow> (ErrNoSuchLock, s)
      | Some a \<Rightarrow>
          (case fmlookup (lk_heap s) a of
             None \<Rightarrow> (FatalUnlock, s)
           | Some l \<Rightarrow>
               (let s1 = (if lc_count l = 0 then s\<lparr>lk_locks := fmdrop name (lk_locks s)\<rparr> else s)
                in case lc_Unlock l of
                     None \<Rightarrow> (FatalUnlock, s1)
                   | Some l' \<Rightarrow> (Unlocked, s1\<lparr>lk_heap := fmupd a l' (lk_heap s1)\<rparr>))))"

section \<open>Sessions\<close>

datatype session = Waiting string nat | Taken string nat | Holding string

text \<open>
  The sessions under way, the lock, and the results of the calls of \<open>Unlock\<close> so far. The number of
  sessions at one time stays below \<open>2 ^ 32\<close>, the number of values of the counter.
\<close>

type_synonym lock_sys = "session multiset \<times> Locker \<times> unlock_result list"

inductive lock_step :: "lock_sys \<Rightarrow> lock_sys \<Rightarrow> bool" where
  step_enter: "lock_enter name s = (a, t) \<Longrightarrow> size S + 1 < 2 ^ 32 \<Longrightarrow> lock_step (S, s, rs) (S + {#Waiting name a#}, t, rs)"
| step_take: "lock_take a s = Some t \<Longrightarrow> lock_step (S + {#Waiting name a#}, s, rs) (S + {#Taken name a#}, t, rs)"
| step_leave: "lock_step (S + {#Taken name a#}, s, rs) (S + {#Holding name#}, lock_leave a s, rs)"
| step_unlock: "Locker_Unlock name s = (r, t) \<Longrightarrow> lock_step (S + {#Holding name#}, s, rs) (S, t, rs @ [r])"

inductive_cases lock_stepE: "lock_step (S, s, rs) y"

section \<open>The invariant\<close>

definition waits :: "session multiset \<Rightarrow> string \<Rightarrow> nat \<Rightarrow> nat" where
  "waits S name a = count S (Waiting name a) + count S (Taken name a)"

definition owns :: "session multiset \<Rightarrow> string \<Rightarrow> nat \<Rightarrow> nat" where
  "owns S name a = count S (Taken name a) + count S (Holding name)"

definition entry_ok :: "session multiset \<Rightarrow> Locker \<Rightarrow> string \<Rightarrow> nat \<Rightarrow> bool" where
  "entry_ok S s name a \<longleftrightarrow> a < lk_fresh s \<and> 0 < waits S name a + owns S name a \<and>
     (\<exists>l. fmlookup (lk_heap s) a = Some l \<and> lc_waiters l = of_nat (waits S name a) \<and> owns S name a = (if lc_locked l then 1 else 0))"

lemma entry_okE:
  assumes "entry_ok S s name a"
  obtains l where "a < lk_fresh s" "0 < waits S name a + owns S name a" "fmlookup (lk_heap s) a = Some l"
    "lc_waiters l = of_nat (waits S name a)" "owns S name a = (if lc_locked l then 1 else 0)"
  using assms unfolding entry_ok_def by (elim conjE exE) simp

definition lock_inv :: "lock_sys \<Rightarrow> bool" where
  "lock_inv x \<longleftrightarrow> (case x of (S, s, rs) \<Rightarrow>
     (\<forall>name a. fmlookup (lk_locks s) name = Some a \<longrightarrow> entry_ok S s name a) \<and>
     (\<forall>name a. Waiting name a \<in># S \<or> Taken name a \<in># S \<longrightarrow> fmlookup (lk_locks s) name = Some a) \<and>
     (\<forall>name. Holding name \<in># S \<longrightarrow> fmlookup (lk_locks s) name \<noteq> None) \<and>
     (\<forall>name name' a. fmlookup (lk_locks s) name = Some a \<longrightarrow> fmlookup (lk_locks s) name' = Some a \<longrightarrow> name = name') \<and>
     size S < 2 ^ 32 \<and> (\<forall>r \<in> set rs. r = Unlocked))"

lemma lock_invD:
  assumes "lock_inv (S, s, rs)"
  shows "\<And>name a. fmlookup (lk_locks s) name = Some a \<Longrightarrow> entry_ok S s name a"
    and "\<And>name a. Waiting name a \<in># S \<or> Taken name a \<in># S \<Longrightarrow> fmlookup (lk_locks s) name = Some a"
    and "\<And>name. Holding name \<in># S \<Longrightarrow> \<exists>a. fmlookup (lk_locks s) name = Some a"
    and "\<And>name name' a. fmlookup (lk_locks s) name = Some a \<Longrightarrow> fmlookup (lk_locks s) name' = Some a \<Longrightarrow> name = name'"
    and "size S < 2 ^ 32" and "\<And>r. r \<in> set rs \<Longrightarrow> r = Unlocked"
  using assms unfolding lock_inv_def prod.case by blast+

lemma lock_inv_addr:
  assumes "lock_inv (S, s, rs)" "fmlookup (lk_locks s) name = Some a"
  shows "Waiting name b \<in># S \<Longrightarrow> b = a" "Taken name b \<in># S \<Longrightarrow> b = a"
  using lock_invD(2) [OF assms(1), of name b] assms(2) by auto

text \<open>A step touches the sessions and the counter of one name.\<close>

lemma lock_inv_update:
  assumes inv: "lock_inv (S, s, rs)" and a: "fmlookup (lk_locks t) name = Some a"
    and others: "\<And>n. n \<noteq> name \<Longrightarrow> fmlookup (lk_locks t) n = fmlookup (lk_locks s) n"
    and here: "fmlookup (lk_locks s) name = Some a \<or> fmlookup (lk_locks s) name = None \<and> a = lk_fresh s"
    and heap: "\<And>b. b \<noteq> a \<Longrightarrow> fmlookup (lk_heap t) b = fmlookup (lk_heap s) b" and fresh: "lk_fresh s \<le> lk_fresh t" "a < lk_fresh t"
    and counts: "\<And>n b. n \<noteq> name \<Longrightarrow> count T (Waiting n b) = count S (Waiting n b) \<and> count T (Taken n b) = count S (Taken n b) \<and>
        count T (Holding n) = count S (Holding n)"
    and sess: "\<And>b. Waiting name b \<in># T \<or> Taken name b \<in># T \<Longrightarrow> b = a" "0 < waits T name a + owns T name a" "size T < 2 ^ 32"
    and ctr: "fmlookup (lk_heap t) a = Some l" "lc_waiters l = of_nat (waits T name a)" "owns T name a = (if lc_locked l then 1 else 0)"
  shows "lock_inv (T, t, rs)"
proof -
  have ne: "b \<noteq> a" if "n \<noteq> name" "fmlookup (lk_locks s) n = Some b" for n b
  proof
    assume ba: "b = a"
    from here show False
    proof
      assume "fmlookup (lk_locks s) name = Some a"
      then show False using lock_invD(4) [OF inv that(2)] ba that(1) by blast
    next
      assume "fmlookup (lk_locks s) name = None \<and> a = lk_fresh s"
      then show False using lock_invD(1) [OF inv that(2)] ba by (simp add: entry_ok_def)
    qed
  qed
  have same: "waits T n b = waits S n b" "owns T n b = owns S n b" if "n \<noteq> name" for n b
    using counts [OF that] by (simp_all add: waits_def owns_def)
  have mem: "x \<in># T \<longleftrightarrow> x \<in># S" if "count T x = count S x" for x
    using that by (metis count_eq_zero_iff)
  show ?thesis unfolding lock_inv_def prod.case
  proof (intro conjI allI impI ballI)
    fix n b assume n: "fmlookup (lk_locks t) n = Some b"
    show "entry_ok T t n b"
    proof (cases "n = name")
      case True
      then have "b = a" using n a by simp
      then show ?thesis using True fresh(2) sess(2) ctr by (simp add: entry_ok_def)
    next
      case False
      then have old: "fmlookup (lk_locks s) n = Some b" using n others by simp
      show ?thesis using lock_invD(1) [OF inv old] fresh(1) heap [OF ne [OF False old]] same [OF False] by (simp add: entry_ok_def)
    qed
  next
    fix n b assume "Waiting n b \<in># T \<or> Taken n b \<in># T"
    then show "fmlookup (lk_locks t) n = Some b"
      using sess(1) a others [of n] lock_invD(2) [OF inv, of n b] counts [of n b] mem by (cases "n = name") metis+
  next
    fix n assume "Holding n \<in># T"
    then show "fmlookup (lk_locks t) n \<noteq> None"
      using a others [of n] lock_invD(3) [OF inv, of n] counts [of n undefined] mem by (cases "n = name") (simp, metis option.distinct(1))
  next
    fix n n' b assume "fmlookup (lk_locks t) n = Some b" "fmlookup (lk_locks t) n' = Some b"
    then show "n = n'" using a others ne lock_invD(4) [OF inv] by (metis option.inject)
  next
    show "size T < 2 ^ 32" by (rule sess(3))
  next
    show "r = Unlocked" if "r \<in> set rs" for r by (rule lock_invD(6) [OF inv that])
  qed
qed

lemma lock_inv_new: "lock_inv ({#}, Locker_New, [])"
  by (simp add: lock_inv_def Locker_New_def)

lemma enter_inv:
  assumes inv: "lock_inv (S, s, rs)" and e: "lock_enter name s = (a, t)" and small: "size S + 1 < 2 ^ 32"
  shows "lock_inv (S + {#Waiting name a#}, t, rs)"
proof (cases "fmlookup (lk_locks s) name")
  case (Some b)
  obtain l where l: "b < lk_fresh s" "fmlookup (lk_heap s) b = Some l" "lc_waiters l = of_nat (waits S name b)"
    "owns S name b = (if lc_locked l then 1 else 0)"
    by (rule entry_okE [OF lock_invD(1) [OF inv Some]])
  have t: "a = b" "t = s\<lparr>lk_heap := fmupd b (lc_inc l) (lk_heap s)\<rparr>" using e Some l(2) by (auto simp: lock_enter_def upd_ctr_def)
  show ?thesis
    by (rule lock_inv_update [OF inv, of t name a _ "lc_inc l"])
      (use t Some l lock_inv_addr [OF inv Some] small in \<open>auto simp: lc_inc_def waits_def owns_def\<close>)
next
  case None
  have t: "a = lk_fresh s" "lk_locks t = fmupd name a (lk_locks s)" "lk_fresh t = Suc a"
    "lk_heap t = fmupd a (lc_inc \<lparr>lc_locked = False, lc_waiters = 0\<rparr>) (lk_heap s)"
    using e None by (auto simp: lock_enter_def upd_ctr_def Let_def)
  have no: "count S (Waiting name b) = 0" "count S (Taken name b) = 0" "count S (Holding name) = 0" for b
    using lock_invD(2) [OF inv, of name b] lock_invD(3) [OF inv, of name] None by (auto simp: count_eq_zero_iff)
  show ?thesis
    by (rule lock_inv_update [OF inv, of t name a _ "lc_inc \<lparr>lc_locked = False, lc_waiters = 0\<rparr>"])
      (use t None no small lock_invD(2) [OF inv, of name] in \<open>auto simp: lc_inc_def waits_def owns_def\<close>)
qed

lemma waits_zero:
  assumes "lock_inv (S, s, rs)" "lc_waiters l = of_nat (waits S name a)" "Holding name \<in># S"
  shows "lc_count l = 0 \<longleftrightarrow> waits S name a = 0"
proof -
  have "waits S name a = count S (Waiting name a) + count S (Taken name a)" by (simp add: waits_def)
  also have "\<dots> = size (filter_mset (\<lambda>x. x = Waiting name a) S) + size (filter_mset (\<lambda>x. x = Taken name a) S)"
    by (simp add: filter_eq_replicate_mset)
  also have "\<dots> = size (filter_mset (\<lambda>x. x = Waiting name a \<or> x = Taken name a) S)"
    by (induction S) auto
  also have "\<dots> \<le> size S" by (rule size_filter_mset_lesseq)
  finally have "waits S name a < 2 ^ 32" using lock_invD(5) [OF assms(1)] by simp
  then have "unat (of_nat (waits S name a) :: 32 word) = waits S name a" by (simp add: unat_of_nat)
  then have "(of_nat (waits S name a) :: 32 word) = 0 \<longleftrightarrow> waits S name a = 0" by (metis unat_eq_zero)
  moreover have "sint w = 0 \<longleftrightarrow> w = 0" for w :: "32 word" by (metis signed_0 signed_word_eqI)
  ultimately show ?thesis using assms(2) by (simp add: lc_count_def)
qed

lemma owns_one:
  assumes "lock_inv (S, s, rs)" "fmlookup (lk_locks s) name = Some a"
  shows "owns S name a \<le> 1"
  by (rule entry_okE [OF lock_invD(1) [OF assms]]) simp

lemma take_inv:
  assumes inv: "lock_inv (S + {#Waiting name a#}, s, rs)" and t: "lock_take a s = Some t"
  shows "lock_inv (S + {#Taken name a#}, t, rs)"
proof -
  have a: "fmlookup (lk_locks s) name = Some a" by (rule lock_invD(2) [OF inv]) simp
  obtain l where l: "a < lk_fresh s" "fmlookup (lk_heap s) a = Some l" "lc_waiters l = of_nat (waits (S + {#Waiting name a#}) name a)"
    "owns (S + {#Waiting name a#}) name a = (if lc_locked l then 1 else 0)"
    by (rule entry_okE [OF lock_invD(1) [OF inv a]])
  have free: "\<not> lc_locked l" "t = s\<lparr>lk_heap := fmupd a (l\<lparr>lc_locked := True\<rparr>) (lk_heap s)\<rparr>"
    using t l(2) by (auto simp: lock_take_def lc_Lock_def split: if_splits)
  show ?thesis
    by (rule lock_inv_update [OF inv, of t name a _ "l\<lparr>lc_locked := True\<rparr>"])
      (use free a l lock_inv_addr [OF inv a, simplified] lock_invD(5) [OF inv] in \<open>auto simp: waits_def owns_def\<close>)
qed

lemma leave_inv:
  assumes inv: "lock_inv (S + {#Taken name a#}, s, rs)"
  shows "lock_inv (S + {#Holding name#}, lock_leave a s, rs)"
proof -
  have a: "fmlookup (lk_locks s) name = Some a" by (rule lock_invD(2) [OF inv]) simp
  obtain l where l: "a < lk_fresh s" "fmlookup (lk_heap s) a = Some l" "lc_waiters l = of_nat (waits (S + {#Taken name a#}) name a)"
    "owns (S + {#Taken name a#}) name a = (if lc_locked l then 1 else 0)"
    by (rule entry_okE [OF lock_invD(1) [OF inv a]])
  have t: "lock_leave a s = s\<lparr>lk_heap := fmupd a (lc_dec l) (lk_heap s)\<rparr>" using l(2) by (simp add: lock_leave_def upd_ctr_def)
  show ?thesis
    by (rule lock_inv_update [OF inv, of _ name a _ "lc_dec l"])
      (use t a l lock_inv_addr [OF inv a, simplified] lock_invD(5) [OF inv] in \<open>auto simp: lc_dec_def waits_def owns_def\<close>)
qed

lemma unlock_inv:
  assumes inv: "lock_inv (S + {#Holding name#}, s, rs)" and u: "Locker_Unlock name s = (r, t)"
  shows "r = Unlocked" and "lock_inv (S, t, rs)"
proof -
  let ?S = "S + {#Holding name#}"
  obtain a where a: "fmlookup (lk_locks s) name = Some a" using lock_invD(3) [OF inv, of name] by auto
  obtain l where l: "a < lk_fresh s" "fmlookup (lk_heap s) a = Some l" "lc_waiters l = of_nat (waits ?S name a)"
    "owns ?S name a = (if lc_locked l then 1 else 0)"
    by (rule entry_okE [OF lock_invD(1) [OF inv a]])
  have c: "lc_locked l" "count S (Taken name a) = 0" "count S (Holding name) = 0"
    using l(4) by (auto simp: owns_def split: if_splits)
  have wz: "lc_count l = 0 \<longleftrightarrow> waits S name a = 0" using waits_zero [OF inv l(3)] by (simp add: waits_def)
  have t: "r = Unlocked" "t = s\<lparr>lk_locks := if lc_count l = 0 then fmdrop name (lk_locks s) else lk_locks s,
      lk_heap := fmupd a (l\<lparr>lc_locked := False\<rparr>) (lk_heap s)\<rparr>"
    using u a l(2) c(1) by (auto simp: Locker_Unlock_def lc_Unlock_def Let_def split: if_splits)
  then show "r = Unlocked" by simp
  show "lock_inv (S, t, rs)"
  proof (cases "lc_count l = 0")
    case False
    then have tt: "t = s\<lparr>lk_heap := fmupd a (l\<lparr>lc_locked := False\<rparr>) (lk_heap s)\<rparr>" using t(2) by simp
    have w: "0 < waits S name a" "lc_waiters l = of_nat (waits S name a)" "owns S name a = 0" "size S < 2 ^ 32"
      using False wz l(3) c lock_invD(5) [OF inv] by (simp_all add: waits_def owns_def)
    show ?thesis
    proof (rule lock_inv_update [OF inv, of t name a _ "l\<lparr>lc_locked := False\<rparr>"])
      show "b = a" if "Waiting name b \<in># S \<or> Taken name b \<in># S" for b using that lock_inv_addr [OF inv a, of b] by auto
    qed (use tt a l(1) w in simp_all)
  next
    case True
    then have tt: "t = s\<lparr>lk_locks := fmdrop name (lk_locks s), lk_heap := fmupd a (l\<lparr>lc_locked := False\<rparr>) (lk_heap s)\<rparr>" using t(2) by simp
    have z: "waits S name a = 0" using True wz by simp
    have gone: "Waiting name b \<notin># S" "Taken name b \<notin># S" "Holding name \<notin># S" for b
    proof -
      have no: "Waiting name a \<notin># S" "Taken name a \<notin># S" "Holding name \<notin># S" using z c(3) by (simp_all add: waits_def count_eq_zero_iff)
      show "Waiting name b \<notin># S" using no(1) lock_inv_addr(1) [OF inv a, of b] by (metis union_iff)
      show "Taken name b \<notin># S" using no(2) lock_inv_addr(2) [OF inv a, of b] by (metis union_iff)
      show "Holding name \<notin># S" by (rule no(3))
    qed
    show ?thesis unfolding lock_inv_def prod.case
    proof (intro conjI allI impI ballI)
      fix n b assume "fmlookup (lk_locks t) n = Some b"
      then have n: "n \<noteq> name" "fmlookup (lk_locks s) n = Some b" by (auto simp: tt split: if_splits)
      then have "b \<noteq> a" using lock_invD(4) [OF inv n(2)] a by blast
      then show "entry_ok S t n b" using lock_invD(1) [OF inv n(2)] n(1) by (simp add: entry_ok_def tt waits_def owns_def)
    next
      fix n b assume w: "Waiting n b \<in># S \<or> Taken n b \<in># S"
      then have "n \<noteq> name" using gone by auto
      then show "fmlookup (lk_locks t) n = Some b" using lock_invD(2) [OF inv, of n b] w by (auto simp: tt)
    next
      fix n assume h: "Holding n \<in># S"
      then have "n \<noteq> name" using gone by auto
      then show "fmlookup (lk_locks t) n \<noteq> None" using lock_invD(3) [OF inv, of n] h by (auto simp: tt)
    next
      fix n n' b assume "fmlookup (lk_locks t) n = Some b" "fmlookup (lk_locks t) n' = Some b"
      then show "n = n'" using lock_invD(4) [OF inv, of n b n'] by (auto simp: tt split: if_splits)
    next
      show "size S < 2 ^ 32" using lock_invD(5) [OF inv] by simp
    next
      show "r = Unlocked" if "r \<in> set rs" for r by (rule lock_invD(6) [OF inv that])
    qed
  qed
qed

lemma lock_step_inv: "lock_step x y \<Longrightarrow> lock_inv x \<Longrightarrow> lock_inv y"
proof (induction rule: lock_step.induct)
  case (step_unlock name s r t S rs)
  then have "r = Unlocked" "lock_inv (S, t, rs)" using unlock_inv by blast+
  then show ?case by (auto simp: lock_inv_def)
qed (blast intro: enter_inv take_inv leave_inv)+

interpretation locks: transition_system "\<lambda>x. x = ({#}, Locker_New, [])" lock_step lock_inv
  by unfold_locales (auto intro: lock_inv_new lock_step_inv)

section \<open>Mutual exclusion\<close>

fun owns_name :: "string \<Rightarrow> session \<Rightarrow> bool" where
  "owns_name name (Waiting n a) \<longleftrightarrow> False"
| "owns_name name (Taken n a) \<longleftrightarrow> n = name"
| "owns_name name (Holding n) \<longleftrightarrow> n = name"

fun session_name :: "session \<Rightarrow> string" where
  "session_name (Waiting n a) = n"
| "session_name (Taken n a) = n"
| "session_name (Holding n) = n"

lemma owners_one:
  assumes inv: "lock_inv (S, s, rs)"
  shows "size (filter_mset (owns_name name) S) \<le> 1"
proof (cases "fmlookup (lk_locks s) name")
  case (Some a)
  have "filter_mset (owns_name name) S = filter_mset (\<lambda>x. x = Taken name a \<or> x = Holding name) S"
  proof (rule filter_mset_cong0)
    fix x assume x: "x \<in># S"
    show "owns_name name x \<longleftrightarrow> x = Taken name a \<or> x = Holding name"
      using x lock_invD(2) [OF inv, of name] Some by (cases x) auto
  qed
  also have "size \<dots> = size (filter_mset (\<lambda>x. x = Taken name a) S) + size (filter_mset (\<lambda>x. x = Holding name) S)"
    by (induction S) auto
  also have "\<dots> = owns S name a" by (simp add: owns_def filter_eq_replicate_mset)
  also have "\<dots> \<le> 1" by (rule owns_one [OF inv Some])
  finally show ?thesis .
next
  case None
  have e: "filter_mset (owns_name name) S = {#}"
  proof -
    have "\<not> owns_name name x" if "x \<in># S" for x
      using that lock_invD(2,3) [OF inv, of name] None by (cases x) auto
    then show ?thesis by simp
  qed
  show ?thesis unfolding e by simp
qed

lemma names_in_use:
  assumes inv: "lock_inv (S, s, rs)"
  shows "fmlookup (lk_locks s) name \<noteq> None \<longleftrightarrow> (\<exists>x. x \<in># S \<and> session_name x = name)"
proof
  assume "fmlookup (lk_locks s) name \<noteq> None"
  then obtain a where a: "fmlookup (lk_locks s) name = Some a" by blast
  have "0 < waits S name a + owns S name a" by (rule entry_okE [OF lock_invD(1) [OF inv a]])
  then have "Waiting name a \<in># S \<or> Taken name a \<in># S \<or> Holding name \<in># S"
    by (metis add_eq_0_iff_both_eq_0 count_eq_zero_iff neq0_conv owns_def waits_def)
  then show "\<exists>x. x \<in># S \<and> session_name x = name" by force
next
  assume "\<exists>x. x \<in># S \<and> session_name x = name"
  then obtain x where x: "x \<in># S" "session_name x = name" by blast
  then show "fmlookup (lk_locks s) name \<noteq> None"
    using lock_invD(2) [OF inv, of name] lock_invD(3) [OF inv, of name] by (cases x) auto
qed

lemma waiter_proceeds:
  assumes inv: "lock_inv (S, s, rs)" and w: "Waiting name a \<in># S" and free: "\<And>x. x \<in># S \<Longrightarrow> \<not> owns_name name x"
  shows "\<exists>t. lock_take a s = Some t"
proof -
  have a: "fmlookup (lk_locks s) name = Some a" using lock_invD(2) [OF inv] w by blast
  obtain l where l: "fmlookup (lk_heap s) a = Some l" "owns S name a = (if lc_locked l then 1 else 0)"
    by (rule entry_okE [OF lock_invD(1) [OF inv a]])
  have "Taken name a \<notin># S" "Holding name \<notin># S" using free [of "Taken name a"] free [of "Holding name"] by auto
  then have "owns S name a = 0" by (simp add: owns_def count_eq_zero_iff)
  then show ?thesis using l by (simp add: lock_take_def lc_Lock_def split: if_splits)
qed

text \<open>
  C12. Locking by name excludes: however the sessions interleave, at most one of them is past the lock of
  a name, no \<open>Unlock\<close> fails or hits a mutex that is not locked, a session that waits for a name nobody
  owns can take it, and the map holds exactly the names some session uses, so it is empty again when
  none is left.
\<close>

theorem named_locks_exclude:
  assumes "lock_step\<^sup>*\<^sup>* ({#}, Locker_New, []) (S, s, rs)"
  shows "size (filter_mset (owns_name name) S) \<le> 1 \<and> (\<forall>r \<in> set rs. r = Unlocked) \<and>
    (\<forall>a. Waiting name a \<in># S \<longrightarrow> (\<forall>x. x \<in># S \<longrightarrow> \<not> owns_name name x) \<longrightarrow> (\<exists>t. lock_take a s = Some t)) \<and>
    (fmlookup (lk_locks s) name \<noteq> None \<longleftrightarrow> (\<exists>x. x \<in># S \<and> session_name x = name))"
proof -
  have inv: "lock_inv (S, s, rs)" by (rule locks.reachable_inv [OF refl assms])
  show ?thesis using owners_one [OF inv] lock_invD(6) [OF inv] waiter_proceeds [OF inv] names_in_use [OF inv] by blast
qed

text \<open>Two sessions on one name: the first holds the lock, the second waits.\<close>

definition locker1 :: Locker where "locker1 = snd (lock_enter ''a'' Locker_New)"
definition locker2 :: Locker where "locker2 = the (lock_take 0 locker1)"
definition locker3 :: Locker where "locker3 = lock_leave 0 locker2"
definition locker4 :: Locker where "locker4 = snd (lock_enter ''a'' locker3)"

theorem named_locks_exclude_witness:
  "lock_step\<^sup>*\<^sup>* ({#}, Locker_New, []) ({#Holding ''a'', Waiting ''a'' 0#}, locker4, []) \<and>
   size (filter_mset (owns_name ''a'') {#Holding ''a'', Waiting ''a'' 0#}) \<le> 1 \<and> fmlookup (lk_locks locker4) ''a'' \<noteq> None"
proof -
  have e: "lock_enter ''a'' Locker_New = (0, locker1)" "lock_take 0 locker1 = Some locker2" "lock_enter ''a'' locker3 = (0, locker4)"
    by code_simp+
  have 1: "lock_step ({#}, Locker_New, []) ({#Waiting ''a'' 0#}, locker1, [])" using step_enter [OF e(1), of "{#}" "[]"] by simp
  have 2: "lock_step ({#Waiting ''a'' 0#}, locker1, []) ({#Taken ''a'' 0#}, locker2, [])" using step_take [OF e(2), of "{#}" "''a''" "[]"] by simp
  have 3: "lock_step ({#Taken ''a'' 0#}, locker2, []) ({#Holding ''a''#}, locker3, [])"
    using step_leave [of "{#}" "''a''" 0 locker2 "[]"] by (simp add: locker3_def)
  have 4: "lock_step ({#Holding ''a''#}, locker3, []) ({#Holding ''a'', Waiting ''a'' 0#}, locker4, [])"
    using step_enter [OF e(3), of "{#Holding ''a''#}" "[]"] by (simp add: add_mset_commute)
  from 1 2 3 4 have r: "lock_step\<^sup>*\<^sup>* ({#}, Locker_New, []) ({#Holding ''a'', Waiting ''a'' 0#}, locker4, [])"
    by (meson converse_rtranclp_into_rtranclp rtranclp.rtrancl_refl)
  have "\<exists>x. x \<in># {#Holding ''a'', Waiting ''a'' 0#} \<and> session_name x = ''a''" by (rule exI [of _ "Holding ''a''"]) simp
  with named_locks_exclude [OF r, of "''a''"] r show ?thesis by blast
qed

end
