(* ===== verification/ShellWords.thy ===== *)
theory ShellWords
  imports GoStrings
begin

text \<open>
  The words of a build instruction (\<^verbatim>\<open>src/builder/dockerfile/shell_parser.go\<close>): quotes, escapes and references to
  environment variables. The scanner is the text still to be read, so \<^verbatim>\<open>Peek\<close> is its head and \<^verbatim>\<open>Next\<close> drops it;
  the model is of ASCII text, where a rune is one character. \<open>processStopOn\<close>, \<open>processDoubleQuote\<close> and
  \<open>processDollar\<close> call each other, so they take fuel; \<open>None\<close> is running out of it, and the fuel that
  \<open>ProcessWord\<close> gives is shown to be enough.
\<close>

section \<open>Definitions\<close>

datatype shell_error = UnsupportedModifier "char option" | MissingColon

record wordsStruct =
  ws_word :: string
  ws_words :: "string list"
  ws_inWord :: bool

definition addRawChar :: "char \<Rightarrow> wordsStruct \<Rightarrow> wordsStruct" where
  "addRawChar ch w = w\<lparr>ws_word := ws_word w @ [ch], ws_inWord := True\<rparr>"

definition addChar :: "char \<Rightarrow> wordsStruct \<Rightarrow> wordsStruct" where
  "addChar ch w =
     (if is_space ch \<and> ws_inWord w then
        if ws_word w \<noteq> [] then w\<lparr>ws_words := ws_words w @ [ws_word w], ws_word := '''', ws_inWord := False\<rparr> else w
      else if \<not> is_space ch then addRawChar ch w
      else w)"

fun addString :: "string \<Rightarrow> wordsStruct \<Rightarrow> wordsStruct" where
  "addString [] w = w"
| "addString (ch # str) w = addString str (addChar ch w)"

definition addRawString :: "string \<Rightarrow> wordsStruct \<Rightarrow> wordsStruct" where
  "addRawString str w = w\<lparr>ws_word := ws_word w @ str, ws_inWord := True\<rparr>"

definition getWords :: "wordsStruct \<Rightarrow> string list" where
  "getWords w = (if ws_word w \<noteq> [] then ws_words w @ [ws_word w] else ws_words w)"

definition no_words :: wordsStruct where
  "no_words = \<lparr>ws_word = '''', ws_words = [], ws_inWord = False\<rparr>"

definition is_letter :: "char \<Rightarrow> bool" where
  "is_letter c \<longleftrightarrow> is_lower c \<or> is_upper c"

text \<open>The loop of \<open>processName\<close>: the name read so far, and the text still to be read.\<close>

fun processName_loop :: "string \<Rightarrow> string \<Rightarrow> string \<times> string" where
  "processName_loop name [] = (name, [])"
| "processName_loop name (ch # rest) =
     (if name = [] \<and> is_digit ch then ([ch], rest)
      else if \<not> is_letter ch \<and> \<not> is_digit ch \<and> ch \<noteq> CHR ''_'' then (name, ch # rest)
      else processName_loop (name @ [ch]) rest)"

definition processName :: "string \<Rightarrow> string \<times> string" where
  "processName rest = processName_loop '''' rest"

fun getEnv :: "string list \<Rightarrow> string \<Rightarrow> string" where
  "getEnv [] name = ''''"
| "getEnv (e # envs) name =
     (case index_char CHR ''='' e of
        None \<Rightarrow> if name = e then '''' else getEnv envs name
      | Some i \<Rightarrow> if name \<noteq> take i e then getEnv envs name else drop (i + 1) e)"

fun processSingleQuote :: "string \<Rightarrow> string \<Rightarrow> string \<times> string" where
  "processSingleQuote result [] = (result, [])"
| "processSingleQuote result (ch # rest) = (if ch = CHR 39 then (result, rest) else processSingleQuote (result @ [ch]) rest)"

text \<open>
  \<open>processDollar\<close> and \<open>processDoubleQuote\<close> start behind the character that selects them.
\<close>

function (sequential) processStopOn :: "nat \<Rightarrow> string list \<Rightarrow> char option \<Rightarrow> string \<Rightarrow> wordsStruct \<Rightarrow> string \<Rightarrow> (shell_error + (string \<times> string list) \<times> string) option"
  and processDoubleQuote :: "nat \<Rightarrow> string list \<Rightarrow> string \<Rightarrow> string \<Rightarrow> (shell_error + string \<times> string) option"
  and processDollar :: "nat \<Rightarrow> string list \<Rightarrow> string \<Rightarrow> (shell_error + string \<times> string) option" where
  "processStopOn 0 envs stop result words rest = None"
| "processStopOn (Suc n) envs stop result words rest =
     (case rest of
        [] \<Rightarrow> Some (Inr ((result, getWords words), []))
      | ch # rest1 \<Rightarrow>
          if stop = Some ch then Some (Inr ((result, getWords words), rest1))
          else if ch = CHR 39 then
            (case processSingleQuote '''' rest1 of
               (tmp, rest2) \<Rightarrow> processStopOn n envs stop (result @ tmp) (addRawString tmp words) rest2)
          else if ch = CHR 34 then
            (case processDoubleQuote n envs '''' rest1 of
               None \<Rightarrow> None
             | Some (Inl e) \<Rightarrow> Some (Inl e)
             | Some (Inr (tmp, rest2)) \<Rightarrow> processStopOn n envs stop (result @ tmp) (addRawString tmp words) rest2)
          else if ch = CHR ''$'' then
            (case processDollar n envs rest1 of
               None \<Rightarrow> None
             | Some (Inl e) \<Rightarrow> Some (Inl e)
             | Some (Inr (tmp, rest2)) \<Rightarrow> processStopOn n envs stop (result @ tmp) (addString tmp words) rest2)
          else if ch = CHR 92 then
            (case rest1 of
               [] \<Rightarrow> Some (Inr ((result, getWords words), []))
             | ch2 # rest2 \<Rightarrow> processStopOn n envs stop (result @ [ch2]) (addRawChar ch2 words) rest2)
          else processStopOn n envs stop (result @ [ch]) (addChar ch words) rest1)"
| "processDoubleQuote 0 envs result rest = None"
| "processDoubleQuote (Suc n) envs result rest =
     (case rest of
        [] \<Rightarrow> Some (Inr (result, []))
      | ch # rest1 \<Rightarrow>
          if ch = CHR 34 then Some (Inr (result, rest1))
          else if ch = CHR ''$'' then
            (case processDollar n envs rest1 of
               None \<Rightarrow> None
             | Some (Inl e) \<Rightarrow> Some (Inl e)
             | Some (Inr (tmp, rest2)) \<Rightarrow> processDoubleQuote n envs (result @ tmp) rest2)
          else if ch = CHR 92 then
            (case rest1 of
               [] \<Rightarrow> processDoubleQuote n envs result []
             | ch2 # rest2 \<Rightarrow>
                 if ch2 = CHR 34 \<or> ch2 = CHR ''$'' then processDoubleQuote n envs (result @ [ch2]) rest2
                 else processDoubleQuote n envs (result @ [ch]) rest1)
          else processDoubleQuote n envs (result @ [ch]) rest1)"
| "processDollar 0 envs rest = None"
| "processDollar (Suc n) envs rest =
     (if rest \<noteq> [] \<and> hd rest = CHR ''{'' then
        (case processName (tl rest) of
           (name, rest1) \<Rightarrow>
             if rest1 \<noteq> [] \<and> hd rest1 = CHR ''}'' then Some (Inr (getEnv envs name, tl rest1))
             else if rest1 \<noteq> [] \<and> hd rest1 = CHR '':'' then
               (let rest2 = tl rest1; modifier = (if rest2 = [] then None else Some (hd rest2))
                in case processStopOn n envs (Some CHR ''}'') '''' no_words (tl rest2) of
                     None \<Rightarrow> None
                   | Some (Inl e) \<Rightarrow> Some (Inl e)
                   | Some (Inr ((word, _), rest3)) \<Rightarrow>
                       (let newValue = getEnv envs name
                        in if modifier = Some CHR ''+'' then Some (Inr (if newValue \<noteq> '''' then word else newValue, rest3))
                           else if modifier = Some CHR ''-'' then Some (Inr (if newValue = '''' then word else newValue, rest3))
                           else Some (Inl (UnsupportedModifier modifier))))
             else Some (Inl MissingColon))
      else
        (case processName rest of
           (name, rest1) \<Rightarrow> if name = '''' then Some (Inr (''$'', rest1)) else Some (Inr (getEnv envs name, rest1))))"
  by pat_completeness auto
termination
  by (relation "measure (\<lambda>x. case x of Inl (n, _) \<Rightarrow> n | Inr (Inl (n, _)) \<Rightarrow> n | Inr (Inr (n, _)) \<Rightarrow> n)") simp_all

definition shell_fuel :: "string \<Rightarrow> nat" where
  "shell_fuel word = Suc (length word)"

definition shell_process :: "string \<Rightarrow> string list \<Rightarrow> (shell_error + string \<times> string list) option" where
  "shell_process word env =
     (case processStopOn (shell_fuel word) env None '''' no_words word of
        None \<Rightarrow> None
      | Some (Inl e) \<Rightarrow> Some (Inl e)
      | Some (Inr (r, _)) \<Rightarrow> Some (Inr r))"

definition ProcessWord :: "string \<Rightarrow> string list \<Rightarrow> (shell_error + string) option" where
  "ProcessWord word env = map_option (map_sum id fst) (shell_process word env)"

definition ProcessWords :: "string \<Rightarrow> string list \<Rightarrow> (shell_error + string list) option" where
  "ProcessWords word env = map_option (map_sum id snd) (shell_process word env)"

section \<open>Termination\<close>

lemma processName_loop_length: "length (snd (processName_loop name rest)) \<le> length rest"
  by (induction name rest rule: processName_loop.induct) auto

lemma processName_length: "processName rest = (name, rest') \<Longrightarrow> length rest' \<le> length rest"
  using processName_loop_length [of "''''" rest] by (simp add: processName_def)

lemma processSingleQuote_length: "processSingleQuote result rest = (tmp, rest') \<Longrightarrow> length rest' \<le> length rest"
  by (induction result rest rule: processSingleQuote.induct) (auto split: if_splits)

text \<open>A call that returns, and does not put text back.\<close>

definition returns :: "string \<Rightarrow> (shell_error + 'a \<times> string) option \<Rightarrow> bool" where
  "returns rest r \<longleftrightarrow> (case r of None \<Rightarrow> False | Some (Inl e) \<Rightarrow> True | Some (Inr (x, rest')) \<Rightarrow> length rest' \<le> length rest)"

lemma returnsE:
  assumes "returns rest r"
  obtains e where "r = Some (Inl e)" | x rest' where "r = Some (Inr (x, rest'))" "length rest' \<le> length rest"
  using assms by (auto simp: returns_def split: option.splits sum.splits prod.splits)

lemma returns_mono: "returns rest r \<Longrightarrow> length rest \<le> length rest' \<Longrightarrow> returns rest' r"
  by (auto simp: returns_def split: option.splits sum.splits)

lemma shell_returns:
  "length rest < n \<Longrightarrow> returns rest (processStopOn n envs stop result words rest)"
  "length rest < n \<Longrightarrow> returns rest (processDoubleQuote n envs result rest)"
  "length rest < n \<Longrightarrow> returns rest (processDollar n envs rest)"
proof (induction n arbitrary: stop result words rest and result rest and rest)
  case 0
  { case 1 then show ?case by simp }
  { case 2 then show ?case by simp }
  { case 3 then show ?case by simp }
next
  case (Suc n)
  {
    case 1
    show ?case
    proof (cases rest)
      case Nil
      then show ?thesis by (simp add: returns_def)
    next
      case (Cons ch rest1)
      then have len: "length rest1 < n" using 1 by simp
      have tail: "returns rest (processStopOn n envs stop result' words' rest2)" if "length rest2 \<le> length rest1" for result' words' rest2
        by (rule returns_mono [OF Suc.IH(1)]) (use that len Cons in simp_all)
      obtain tmp rest2 where sq: "processSingleQuote '''' rest1 = (tmp, rest2)" by (metis prod.exhaust)
      have dq: "returns rest (case processDoubleQuote n envs '''' rest1 of None \<Rightarrow> None | Some (Inl e) \<Rightarrow> Some (Inl e)
          | Some (Inr (tmp, rest2)) \<Rightarrow> processStopOn n envs stop (result @ tmp) (addRawString tmp words) rest2)"
        by (rule returnsE [OF Suc.IH(2) [OF len, of "''''"]]) (auto simp: returns_def [of _ "Some (Inl _)"] intro: tail)
      have dl: "returns rest (case processDollar n envs rest1 of None \<Rightarrow> None | Some (Inl e) \<Rightarrow> Some (Inl e)
          | Some (Inr (tmp, rest2)) \<Rightarrow> processStopOn n envs stop (result @ tmp) (addString tmp words) rest2)"
        by (rule returnsE [OF Suc.IH(3) [OF len]]) (auto simp: returns_def [of _ "Some (Inl _)"] intro: tail)
      show ?thesis
        using Cons sq processSingleQuote_length [OF sq] dq dl tail
        by (auto simp: returns_def [of _ "Some _"] split: list.splits)
    qed
  }
  {
    case 2
    show ?case
    proof (cases rest)
      case Nil
      then show ?thesis by (simp add: returns_def)
    next
      case (Cons ch rest1)
      then have len: "length rest1 < n" using 2 by simp
      have tail: "returns rest (processDoubleQuote n envs result' rest2)" if "length rest2 \<le> length rest1" for result' rest2
        by (rule returns_mono [OF Suc.IH(2)]) (use that len Cons in simp_all)
      have dl: "returns rest (case processDollar n envs rest1 of None \<Rightarrow> None | Some (Inl e) \<Rightarrow> Some (Inl e)
          | Some (Inr (tmp, rest2)) \<Rightarrow> processDoubleQuote n envs (result @ tmp) rest2)"
        by (rule returnsE [OF Suc.IH(3) [OF len]]) (auto simp: returns_def [of _ "Some (Inl _)"] intro: tail)
      show ?thesis using Cons dl tail by (auto simp: returns_def [of _ "Some _"] split: list.splits)
    qed
  }
  {
    case (3 rest)
    obtain name rest1 where nm: "processName rest = (name, rest1)" by (metis prod.exhaust)
    obtain name' rest1' where nm': "processName (tl rest) = (name', rest1')" by (metis prod.exhaust)
    show ?case
    proof (cases "rest \<noteq> [] \<and> hd rest = CHR ''{''")
      case False
      then show ?thesis using nm processName_length [OF nm] by (auto simp: returns_def)
    next
      case True
      then have len: "length rest1' < length rest" using processName_length [OF nm'] by (cases rest) simp_all
      have "returns rest (processStopOn n envs (Some CHR ''}'') '''' no_words (tl (tl rest1')))"
        by (rule returns_mono [OF Suc.IH(1)]) (use len 3 in simp_all)
      then show ?thesis using True nm' len
        by - (erule returnsE; auto simp: Let_def returns_def)
    qed
  }
qed

lemma shell_process_returns: "shell_process word env \<noteq> None"
  using shell_returns(1) [of word "shell_fuel word" env None "''''" no_words]
  by (auto simp: shell_process_def shell_fuel_def returns_def split: option.splits sum.splits)

text \<open>More fuel does not change a result.\<close>

definition refined_by :: "'a option \<Rightarrow> 'a option \<Rightarrow> bool" where
  "refined_by r r' \<longleftrightarrow> r = None \<or> r' = r"

lemma refined_by_simps [simp]: "refined_by None r" "refined_by r r"
  by (simp_all add: refined_by_def)

lemma shell_mono:
  "refined_by (processStopOn n envs stop result words rest) (processStopOn (n + k) envs stop result words rest)"
  "refined_by (processDoubleQuote n envs result rest) (processDoubleQuote (n + k) envs result rest)"
  "refined_by (processDollar n envs rest) (processDollar (n + k) envs rest)"
proof (induction n arbitrary: stop result words rest and result rest and rest)
  case 0
  { case 1 then show ?case by simp }
  { case 2 then show ?case by simp }
  { case 3 then show ?case by simp }
next
  case (Suc n)
  {
    case (1 stop result words rest)
    show ?case
    proof (cases rest)
      case Nil
      then show ?thesis by simp
    next
      case (Cons ch rest1)
      have dq: "processDoubleQuote n envs '''' rest1 = None \<or> processDoubleQuote (n + k) envs '''' rest1 = processDoubleQuote n envs '''' rest1"
        using Suc.IH(2) unfolding refined_by_def by blast
      have dl: "processDollar n envs rest1 = None \<or> processDollar (n + k) envs rest1 = processDollar n envs rest1"
        using Suc.IH(3) unfolding refined_by_def by blast
      show ?thesis using dq dl unfolding Cons
        by (cases "processDoubleQuote n envs '''' rest1"; cases "processDollar n envs rest1")
          (simp_all add: Suc.IH(1) split: sum.split prod.split list.split)
    qed
  }
  {
    case (2 result rest)
    show ?case
    proof (cases rest)
      case Nil
      then show ?thesis by simp
    next
      case (Cons ch rest1)
      have dl: "processDollar n envs rest1 = None \<or> processDollar (n + k) envs rest1 = processDollar n envs rest1"
        using Suc.IH(3) unfolding refined_by_def by blast
      show ?thesis using dl unfolding Cons
        by (cases "processDollar n envs rest1") (simp_all add: Suc.IH(2) split: sum.split prod.split list.split)
    qed
  }
  {
    case (3 rest)
    obtain name rest1 where nm: "processName (tl rest) = (name, rest1)" by (metis prod.exhaust)
    have st: "processStopOn n envs (Some CHR ''}'') '''' no_words (tl (tl rest1)) = None \<or>
        processStopOn (n + k) envs (Some CHR ''}'') '''' no_words (tl (tl rest1)) = processStopOn n envs (Some CHR ''}'') '''' no_words (tl (tl rest1))"
      using Suc.IH(1) unfolding refined_by_def by blast
    then show ?case using nm
      by (elim disjE) (simp_all add: Let_def)
  }
qed

definition stop_runs :: "string list \<Rightarrow> char option \<Rightarrow> string \<Rightarrow> wordsStruct \<Rightarrow> string \<Rightarrow> string \<Rightarrow> string \<Rightarrow> bool" where
  "stop_runs envs stop result words rest out rest' \<longleftrightarrow>
     (\<exists>n ws. processStopOn n envs stop result words rest = Some (Inr ((out, ws), rest')))"

definition quote_runs :: "string list \<Rightarrow> string \<Rightarrow> string \<Rightarrow> string \<Rightarrow> string \<Rightarrow> bool" where
  "quote_runs envs result rest out rest' \<longleftrightarrow> (\<exists>n. processDoubleQuote n envs result rest = Some (Inr (out, rest')))"

definition dollar_runs :: "string list \<Rightarrow> string \<Rightarrow> string \<Rightarrow> string \<Rightarrow> bool" where
  "dollar_runs envs rest out rest' \<longleftrightarrow> (\<exists>n. processDollar n envs rest = Some (Inr (out, rest')))"

lemma processStopOn_more: "processStopOn n envs stop result words rest = Some r \<Longrightarrow> processStopOn (n + k) envs stop result words rest = Some r"
  using shell_mono(1) [of n envs stop result words rest k] by (simp add: refined_by_def)

lemma processDoubleQuote_more: "processDoubleQuote n envs result rest = Some r \<Longrightarrow> processDoubleQuote (n + k) envs result rest = Some r"
  using shell_mono(2) [of n envs result rest k] by (simp add: refined_by_def)

lemma processDollar_more: "processDollar n envs rest = Some r \<Longrightarrow> processDollar (n + k) envs rest = Some r"
  using shell_mono(3) [of n envs rest k] by (simp add: refined_by_def)

lemma stop_runs_end: "stop_runs envs stop result words [] result []"
  unfolding stop_runs_def by (rule exI [of _ "Suc 0"]) simp

lemma stop_runs_stop: "stop_runs envs (Some c) result words (c # rest) result rest"
  unfolding stop_runs_def by (rule exI [of _ "Suc 0"]) simp

lemma stop_runs_plain:
  assumes "c \<notin> {CHR 39, CHR 34, CHR ''$'', CHR 92}" "stop \<noteq> Some c"
    and "stop_runs envs stop (result @ [c]) (addChar c words) rest out rest'"
  shows "stop_runs envs stop result words (c # rest) out rest'"
proof -
  obtain n ws where "processStopOn n envs stop (result @ [c]) (addChar c words) rest = Some (Inr ((out, ws), rest'))"
    using assms(3) unfolding stop_runs_def by blast
  then have "processStopOn (Suc n) envs stop result words (c # rest) = Some (Inr ((out, ws), rest'))"
    using assms(1,2) by simp
  then show ?thesis unfolding stop_runs_def by blast
qed

lemma stop_runs_escape:
  assumes "stop \<noteq> Some CHR 92" "stop_runs envs stop (result @ [c]) (addRawChar c words) rest out rest'"
  shows "stop_runs envs stop result words (CHR 92 # c # rest) out rest'"
proof -
  obtain n ws where "processStopOn n envs stop (result @ [c]) (addRawChar c words) rest = Some (Inr ((out, ws), rest'))"
    using assms(2) unfolding stop_runs_def by blast
  then have "processStopOn (Suc n) envs stop result words (CHR 92 # c # rest) = Some (Inr ((out, ws), rest'))"
    using assms(1) by simp
  then show ?thesis unfolding stop_runs_def by blast
qed

lemma processSingleQuote_runs: "CHR 39 \<notin> set s \<Longrightarrow> processSingleQuote result (s @ CHR 39 # rest) = (result @ s, rest)"
  by (induction s arbitrary: result) auto

lemma stop_runs_single:
  assumes "stop \<noteq> Some CHR 39" "CHR 39 \<notin> set s" "stop_runs envs stop (result @ s) (addRawString s words) rest out rest'"
  shows "stop_runs envs stop result words (CHR 39 # s @ CHR 39 # rest) out rest'"
proof -
  obtain n ws where "processStopOn n envs stop (result @ s) (addRawString s words) rest = Some (Inr ((out, ws), rest'))"
    using assms(3) unfolding stop_runs_def by blast
  then have "processStopOn (Suc n) envs stop result words (CHR 39 # s @ CHR 39 # rest) = Some (Inr ((out, ws), rest'))"
    using assms(1,2) by (simp add: processSingleQuote_runs)
  then show ?thesis unfolding stop_runs_def by blast
qed

lemma stop_runs_double:
  assumes "stop \<noteq> Some CHR 34" "quote_runs envs '''' rest1 tmp rest"
    and "stop_runs envs stop (result @ tmp) (addRawString tmp words) rest out rest'"
  shows "stop_runs envs stop result words (CHR 34 # rest1) out rest'"
proof -
  obtain n ws where n: "processStopOn n envs stop (result @ tmp) (addRawString tmp words) rest = Some (Inr ((out, ws), rest'))"
    using assms(3) unfolding stop_runs_def by blast
  obtain m where m: "processDoubleQuote m envs '''' rest1 = Some (Inr (tmp, rest))"
    using assms(2) unfolding quote_runs_def by blast
  have "processStopOn (Suc (n + m)) envs stop result words (CHR 34 # rest1) = Some (Inr ((out, ws), rest'))"
    using assms(1) processStopOn_more [OF n, of m] processDoubleQuote_more [OF m, of n] by (simp add: add.commute)
  then show ?thesis unfolding stop_runs_def by blast
qed

lemma stop_runs_dollar:
  assumes "stop \<noteq> Some CHR ''$''" "dollar_runs envs rest1 tmp rest"
    and "stop_runs envs stop (result @ tmp) (addString tmp words) rest out rest'"
  shows "stop_runs envs stop result words (CHR ''$'' # rest1) out rest'"
proof -
  obtain n ws where n: "processStopOn n envs stop (result @ tmp) (addString tmp words) rest = Some (Inr ((out, ws), rest'))"
    using assms(3) unfolding stop_runs_def by blast
  obtain m where m: "processDollar m envs rest1 = Some (Inr (tmp, rest))"
    using assms(2) unfolding dollar_runs_def by blast
  have "processStopOn (Suc (n + m)) envs stop result words (CHR ''$'' # rest1) = Some (Inr ((out, ws), rest'))"
    using assms(1) processStopOn_more [OF n, of m] processDollar_more [OF m, of n] by (simp add: add.commute)
  then show ?thesis unfolding stop_runs_def by blast
qed

lemma quote_runs_end: "quote_runs envs result (CHR 34 # rest) result rest"
  unfolding quote_runs_def by (rule exI [of _ "Suc 0"]) simp

lemma quote_runs_char:
  assumes "c \<notin> {CHR 34, CHR ''$'', CHR 92}" "quote_runs envs (result @ [c]) rest out rest'"
  shows "quote_runs envs result (c # rest) out rest'"
proof -
  obtain n where "processDoubleQuote n envs (result @ [c]) rest = Some (Inr (out, rest'))"
    using assms(2) unfolding quote_runs_def by blast
  then have "processDoubleQuote (Suc n) envs result (c # rest) = Some (Inr (out, rest'))" using assms(1) by simp
  then show ?thesis unfolding quote_runs_def by blast
qed

lemma quote_runs_escape:
  assumes "c \<in> {CHR 34, CHR ''$''}" "quote_runs envs (result @ [c]) rest out rest'"
  shows "quote_runs envs result (CHR 92 # c # rest) out rest'"
proof -
  obtain n where "processDoubleQuote n envs (result @ [c]) rest = Some (Inr (out, rest'))"
    using assms(2) unfolding quote_runs_def by blast
  then have "processDoubleQuote (Suc n) envs result (CHR 92 # c # rest) = Some (Inr (out, rest'))" using assms(1) by auto
  then show ?thesis unfolding quote_runs_def by blast
qed

lemma quote_runs_dollar:
  assumes "dollar_runs envs rest1 tmp rest" "quote_runs envs (result @ tmp) rest out rest'"
  shows "quote_runs envs result (CHR ''$'' # rest1) out rest'"
proof -
  obtain n where n: "processDoubleQuote n envs (result @ tmp) rest = Some (Inr (out, rest'))"
    using assms(2) unfolding quote_runs_def by blast
  obtain m where m: "processDollar m envs rest1 = Some (Inr (tmp, rest))"
    using assms(1) unfolding dollar_runs_def by blast
  have "processDoubleQuote (Suc (n + m)) envs result (CHR ''$'' # rest1) = Some (Inr (out, rest'))"
    using processDoubleQuote_more [OF n, of m] processDollar_more [OF m, of n] by (simp add: add.commute)
  then show ?thesis unfolding quote_runs_def by blast
qed

section \<open>The meaning of a word\<close>

text \<open>
  A word as its author means it: plain and escaped characters, both kinds of quotes, and references to variables
  with or without a default or an alternative, which are words again. \<open>word_text\<close> writes it down and
  \<open>word_value\<close> is what it stands for.
\<close>

datatype word_piece = Plain char | Escaped char | Single string | Double "quoted_piece list" | Dollar word_ref
  and quoted_piece = QPlain char | QEscaped char | QDollar word_ref
  and word_ref = Ref string | Default string "word_piece list" | Alternative string "word_piece list"

primrec piece_text :: "word_piece \<Rightarrow> string" and quoted_text :: "quoted_piece \<Rightarrow> string" and ref_text :: "word_ref \<Rightarrow> string" where
  "piece_text (Plain c) = [c]"
| "piece_text (Escaped c) = [CHR 92, c]"
| "piece_text (Single s) = CHR 39 # s @ [CHR 39]"
| "piece_text (Double qs) = CHR 34 # concat (map quoted_text qs) @ [CHR 34]"
| "piece_text (Dollar r) = CHR ''$'' # ref_text r"
| "quoted_text (QPlain c) = [c]"
| "quoted_text (QEscaped c) = [CHR 92, c]"
| "quoted_text (QDollar r) = CHR ''$'' # ref_text r"
| "ref_text (Ref name) = ''{'' @ name @ ''}''"
| "ref_text (Default name ps) = ''{'' @ name @ '':-'' @ concat (map piece_text ps) @ ''}''"
| "ref_text (Alternative name ps) = ''{'' @ name @ '':+'' @ concat (map piece_text ps) @ ''}''"

primrec piece_value :: "string list \<Rightarrow> word_piece \<Rightarrow> string" and quoted_value :: "string list \<Rightarrow> quoted_piece \<Rightarrow> string"
  and ref_value :: "string list \<Rightarrow> word_ref \<Rightarrow> string" where
  "piece_value env (Plain c) = [c]"
| "piece_value env (Escaped c) = [c]"
| "piece_value env (Single s) = s"
| "piece_value env (Double qs) = concat (map (quoted_value env) qs)"
| "piece_value env (Dollar r) = ref_value env r"
| "quoted_value env (QPlain c) = [c]"
| "quoted_value env (QEscaped c) = [c]"
| "quoted_value env (QDollar r) = ref_value env r"
| "ref_value env (Ref name) = getEnv env name"
| "ref_value env (Default name ps) = (if getEnv env name = '''' then concat (map (piece_value env) ps) else getEnv env name)"
| "ref_value env (Alternative name ps) = (if getEnv env name = '''' then '''' else concat (map (piece_value env) ps))"

definition word_text :: "word_piece list \<Rightarrow> string" where
  "word_text ps = concat (map piece_text ps)"

definition word_value :: "string list \<Rightarrow> word_piece list \<Rightarrow> string" where
  "word_value env ps = concat (map (piece_value env) ps)"

definition name_char :: "char \<Rightarrow> bool" where
  "name_char c \<longleftrightarrow> is_letter c \<or> is_digit c \<or> c = CHR ''_''"

definition variable_name :: "string \<Rightarrow> bool" where
  "variable_name name \<longleftrightarrow> name \<noteq> '''' \<and> \<not> is_digit (hd name) \<and> list_all name_char name"

primrec piece_ok :: "word_piece \<Rightarrow> bool" and quoted_ok :: "quoted_piece \<Rightarrow> bool" and ref_ok :: "word_ref \<Rightarrow> bool" where
  "piece_ok (Plain c) \<longleftrightarrow> c \<notin> {CHR 39, CHR 34, CHR ''$'', CHR 92, CHR ''}''}"
| "piece_ok (Escaped c) \<longleftrightarrow> True"
| "piece_ok (Single s) \<longleftrightarrow> CHR 39 \<notin> set s"
| "piece_ok (Double qs) \<longleftrightarrow> list_all quoted_ok qs"
| "piece_ok (Dollar r) \<longleftrightarrow> ref_ok r"
| "quoted_ok (QPlain c) \<longleftrightarrow> c \<notin> {CHR 34, CHR ''$'', CHR 92}"
| "quoted_ok (QEscaped c) \<longleftrightarrow> c \<in> {CHR 34, CHR ''$''}"
| "quoted_ok (QDollar r) \<longleftrightarrow> ref_ok r"
| "ref_ok (Ref name) \<longleftrightarrow> variable_name name"
| "ref_ok (Default name ps) \<longleftrightarrow> variable_name name \<and> list_all piece_ok ps"
| "ref_ok (Alternative name ps) \<longleftrightarrow> variable_name name \<and> list_all piece_ok ps"

lemma processName_loop_reads:
  "list_all name_char name \<Longrightarrow> \<not> name_char c \<Longrightarrow> acc \<noteq> [] \<Longrightarrow> processName_loop acc (name @ c # rest) = (acc @ name, c # rest)"
  by (induction name arbitrary: acc) (auto simp: name_char_def)

lemma processName_reads:
  assumes "variable_name name" "\<not> name_char c"
  shows "processName (name @ c # rest) = (name, c # rest)"
proof -
  obtain d ds where name: "name = d # ds" using assms(1) by (cases name) (auto simp: variable_name_def)
  then show ?thesis using assms processName_loop_reads [of ds c "[d]" rest]
    by (auto simp: processName_def variable_name_def name_char_def)
qed

lemma name_char_marks: "\<not> name_char CHR ''}''" "\<not> name_char CHR '':''"
  by code_simp+

lemma dollar_runs_ref: "variable_name name \<Longrightarrow> dollar_runs env (''{'' @ name @ ''}'' @ rest) (getEnv env name) rest"
  unfolding dollar_runs_def by (rule exI [of _ "Suc 0"]) (simp add: processName_reads name_char_marks)

lemma dollar_runs_modifier:
  assumes "variable_name name" "stop_runs env (Some CHR ''}'') '''' no_words (text @ ''}'' @ rest) val rest"
  shows "dollar_runs env (''{'' @ name @ '':-'' @ text @ ''}'' @ rest) (if getEnv env name = '''' then val else getEnv env name) rest"
    and "dollar_runs env (''{'' @ name @ '':+'' @ text @ ''}'' @ rest) (if getEnv env name = '''' then '''' else val) rest"
proof -
  obtain n ws where n: "processStopOn n env (Some CHR ''}'') '''' no_words (text @ ''}'' @ rest) = Some (Inr ((val, ws), rest))"
    using assms(2) unfolding stop_runs_def by blast
  have "processDollar (Suc n) env (''{'' @ name @ '':-'' @ text @ ''}'' @ rest) = Some (Inr (if getEnv env name = '''' then val else getEnv env name, rest))"
    using n assms(1) by (simp add: processName_reads name_char_marks Let_def)
  then show "dollar_runs env (''{'' @ name @ '':-'' @ text @ ''}'' @ rest) (if getEnv env name = '''' then val else getEnv env name) rest"
    unfolding dollar_runs_def by blast
  have "processDollar (Suc n) env (''{'' @ name @ '':+'' @ text @ ''}'' @ rest) = Some (Inr (if getEnv env name = '''' then '''' else val, rest))"
    using n assms(1) by (simp add: processName_reads name_char_marks Let_def)
  then show "dollar_runs env (''{'' @ name @ '':+'' @ text @ ''}'' @ rest) (if getEnv env name = '''' then '''' else val) rest"
    unfolding dollar_runs_def by blast
qed

text \<open>What it is for the scanner to read one piece, and one quoted piece, as its value.\<close>

definition piece_read :: "string list \<Rightarrow> word_piece \<Rightarrow> bool" where
  "piece_read env p \<longleftrightarrow>
     (\<forall>stop result words rest out rest'. stop \<in> {None, Some CHR ''}''} \<longrightarrow>
        (\<forall>words'. stop_runs env stop (result @ piece_value env p) words' rest out rest') \<longrightarrow>
        stop_runs env stop result words (piece_text p @ rest) out rest')"

definition quoted_read :: "string list \<Rightarrow> quoted_piece \<Rightarrow> bool" where
  "quoted_read env q \<longleftrightarrow>
     (\<forall>result rest out rest'. quote_runs env (result @ quoted_value env q) rest out rest' \<longrightarrow>
        quote_runs env result (quoted_text q @ rest) out rest')"

lemma pieces_read:
  assumes "\<forall>p\<in>set ps. piece_read env p" "stop \<in> {None, Some CHR ''}''}"
    and "\<And>words'. stop_runs env stop (result @ word_value env ps) words' rest out rest'"
  shows "stop_runs env stop result words (word_text ps @ rest) out rest'"
  using assms
proof (induction ps arbitrary: result words)
  case Nil
  then show ?case by (simp add: word_text_def word_value_def)
next
  case (Cons p ps)
  have "stop_runs env stop (result @ piece_value env p) words' (word_text ps @ rest) out rest'" for words'
    by (rule Cons.IH) (use Cons.prems in \<open>simp_all add: word_value_def\<close>)
  moreover have "piece_read env p" using Cons.prems(1) by simp
  ultimately have "stop_runs env stop result words (piece_text p @ word_text ps @ rest) out rest'"
    using Cons.prems(2) unfolding piece_read_def by blast
  then show ?case by (simp add: word_text_def)
qed

lemma quoteds_read:
  assumes "\<forall>q\<in>set qs. quoted_read env q" "quote_runs env (result @ concat (map (quoted_value env) qs)) rest out rest'"
  shows "quote_runs env result (concat (map quoted_text qs) @ rest) out rest'"
  using assms
proof (induction qs arbitrary: result)
  case (Cons q qs)
  have "quote_runs env (result @ quoted_value env q) (concat (map quoted_text qs) @ rest) out rest'"
    by (rule Cons.IH) (use Cons.prems in simp_all)
  then show ?case using Cons.prems(1) by (simp add: quoted_read_def)
qed simp

lemma all_read:
  "piece_ok p \<Longrightarrow> piece_read env p"
  "quoted_ok q \<Longrightarrow> quoted_read env q"
  "ref_ok r \<Longrightarrow> dollar_runs env (ref_text r @ rest) (ref_value env r) rest"
proof (induction p and q and r arbitrary: and and rest)
  case (Plain c)
  then show ?case unfolding piece_read_def by (auto intro: stop_runs_plain)
next
  case (Escaped c)
  show ?case unfolding piece_read_def by (auto intro: stop_runs_escape)
next
  case (Single s)
  then show ?case unfolding piece_read_def by (auto intro!: stop_runs_single)
next
  case (Double qs)
  have qs: "\<forall>q\<in>set qs. quoted_read env q" using Double by (simp add: list_all_iff)
  show ?case unfolding piece_read_def
  proof (intro allI impI)
    fix stop result words rest out rest'
    assume stop: "stop \<in> {None, Some CHR ''}''}"
      and rest: "\<forall>words'. stop_runs env stop (result @ piece_value env (Double qs)) words' rest out rest'"
    have "quote_runs env '''' (concat (map quoted_text qs) @ CHR 34 # rest) (concat (map (quoted_value env) qs)) rest"
      using quoteds_read [OF qs, of "''''" "CHR 34 # rest"] quote_runs_end by simp
    then show "stop_runs env stop result words (piece_text (Double qs) @ rest) out rest'"
      using stop rest by (auto intro: stop_runs_double)
  qed
next
  case (Dollar r)
  then show ?case unfolding piece_read_def by (auto intro: stop_runs_dollar)
next
  case (QPlain c)
  then show ?case unfolding quoted_read_def by (auto intro: quote_runs_char)
next
  case (QEscaped c)
  then show ?case unfolding quoted_read_def by (auto intro: quote_runs_escape)
next
  case (QDollar r)
  then show ?case unfolding quoted_read_def by (auto intro: quote_runs_dollar)
next
  case (Ref name)
  then show ?case using dollar_runs_ref by simp
next
  case (Default name ps)
  have ps: "\<forall>p\<in>set ps. piece_read env p" using Default by (simp add: list_all_iff)
  have "stop_runs env (Some CHR ''}'') '''' no_words (word_text ps @ ''}'' @ rest) (word_value env ps) rest"
    by (rule pieces_read [OF ps]) (simp_all add: stop_runs_stop)
  then show ?case using dollar_runs_modifier(1) Default.prems by (simp add: word_text_def word_value_def)
next
  case (Alternative name ps)
  have ps: "\<forall>p\<in>set ps. piece_read env p" using Alternative by (simp add: list_all_iff)
  have "stop_runs env (Some CHR ''}'') '''' no_words (word_text ps @ ''}'' @ rest) (word_value env ps) rest"
    by (rule pieces_read [OF ps]) (simp_all add: stop_runs_stop)
  then show ?case using dollar_runs_modifier(2) Alternative.prems by (simp add: word_text_def word_value_def)
qed

lemma ProcessWord_runs:
  assumes "stop_runs env None '''' no_words word out []"
  shows "ProcessWord word env = Some (Inr out)"
proof -
  obtain n ws where n: "processStopOn n env None '''' no_words word = Some (Inr ((out, ws), []))"
    using assms unfolding stop_runs_def by blast
  obtain r where r: "processStopOn (shell_fuel word) env None '''' no_words word = Some r"
    using shell_returns(1) [of word "shell_fuel word" env None "''''" no_words]
    by (auto simp: shell_fuel_def returns_def split: option.splits)
  have "Some r = Some (Inr ((out, ws), []))"
    using processStopOn_more [OF n, of "shell_fuel word"] processStopOn_more [OF r, of n] by (simp add: add.commute)
  then show ?thesis using r by (simp add: ProcessWord_def shell_process_def)
qed

text \<open>
  C16. A word of a build instruction is replaced by what it stands for: however plain and escaped characters, single and
  double quotes, and references with defaults and alternatives are nested, \<open>ProcessWord\<close> on the text of the word
  returns, without an error, the value of the word in the environment.
\<close>

theorem ProcessWord_is_the_value:
  assumes "list_all piece_ok ps"
  shows "ProcessWord (word_text ps) env = Some (Inr (word_value env ps))"
proof (rule ProcessWord_runs)
  have ps: "\<forall>p\<in>set ps. piece_read env p" using assms all_read(1) by (simp add: list_all_iff)
  show "stop_runs env None '''' no_words (word_text ps) (word_value env ps) []"
    using pieces_read [OF ps, of None "''''" "[]"] stop_runs_end by simp
qed

definition demo_word :: "word_piece list" where
  "demo_word = [Plain CHR ''/'', Dollar (Default ''dir'' [Plain CHR ''d'', Escaped CHR ''}'', Dollar (Ref ''user'')]),
     Double [QDollar (Alternative ''user'' [Single ''$x'']), QEscaped CHR 34]]"

theorem ProcessWord_is_the_value_witness:
  "word_text demo_word = ''/${dir:-d'' @ [CHR 92] @ ''}${user}}'' @ [CHR 34] @ ''${user:+'' @ [CHR 39] @ ''$x'' @ [CHR 39] @ ''}'' @ [CHR 92, CHR 34, CHR 34] \<and>
   ProcessWord (word_text demo_word) [''user=root''] = Some (Inr (''/d}root$x'' @ [CHR 34]))"
proof -
  have "list_all piece_ok demo_word" by code_simp
  then have "ProcessWord (word_text demo_word) [''user=root''] = Some (Inr (word_value [''user=root''] demo_word))"
    by (rule ProcessWord_is_the_value)
  moreover have "word_value [''user=root''] demo_word = ''/d}root$x'' @ [CHR 34]" by code_simp
  moreover have "word_text demo_word = ''/${dir:-d'' @ [CHR 92] @ ''}${user}}'' @ [CHR 34] @ ''${user:+'' @ [CHR 39] @ ''$x'' @ [CHR 39] @ ''}'' @ [CHR 92, CHR 34, CHR 34]"
    by code_simp
  ultimately show ?thesis by simp
qed

end
