(* ===== verification/BuildFlags.thy ===== *)
theory BuildFlags
  imports GoStrings "HOL-Library.Finite_Map"
begin

text \<open>
  The flags of build instructions (\<^verbatim>\<open>src/builder/dockerfile/bflag.go\<close>). A pointer to a flag is its name: flags are never
  taken out of the map, and a name is never bound to another flag.
\<close>

section \<open>Definitions\<close>

datatype FlagType = boolType | stringType

record Flag =
  fl_flagType :: FlagType
  fl_Value :: string

record BFlags =
  bf_Args :: "string list"
  bf_flags :: "(string, Flag) fmap"
  bf_used :: "string fset"
  bf_Err :: "string option"

datatype flag_error = SettingUpFlags string | NoDashes string | UnknownFlag string | DuplicateFlag string
  | MissingValue string | ExpectingBoolean string string

definition NewBFlags :: BFlags where
  "NewBFlags = \<lparr>bf_Args = [], bf_flags = fmempty, bf_used = {||}, bf_Err = None\<rparr>"

text \<open>\<open>None\<close> is the nil pointer of a flag that is defined twice.\<close>

definition addFlag :: "string \<Rightarrow> FlagType \<Rightarrow> BFlags \<Rightarrow> string option \<times> BFlags" where
  "addFlag name flagType bf =
     (if name |\<in>| fmdom (bf_flags bf) then (None, bf\<lparr>bf_Err := Some name\<rparr>)
      else (Some name, bf\<lparr>bf_flags := fmupd name \<lparr>fl_flagType = flagType, fl_Value = ''''\<rparr> (bf_flags bf)\<rparr>))"

definition set_Value :: "string \<Rightarrow> string \<Rightarrow> BFlags \<Rightarrow> BFlags" where
  "set_Value name v bf =
     (case fmlookup (bf_flags bf) name of
        None \<Rightarrow> bf
      | Some fl \<Rightarrow> bf\<lparr>bf_flags := fmupd name (fl\<lparr>fl_Value := v\<rparr>) (bf_flags bf)\<rparr>)"

definition AddBool :: "string \<Rightarrow> bool \<Rightarrow> BFlags \<Rightarrow> string option \<times> BFlags" where
  "AddBool name def bf =
     (case addFlag name boolType bf of
        (None, bf1) \<Rightarrow> (None, bf1)
      | (Some f, bf1) \<Rightarrow> (Some f, set_Value f (if def then ''true'' else ''false'') bf1))"

definition AddString :: "string \<Rightarrow> string \<Rightarrow> BFlags \<Rightarrow> string option \<times> BFlags" where
  "AddString name def bf =
     (case addFlag name stringType bf of
        (None, bf1) \<Rightarrow> (None, bf1)
      | (Some f, bf1) \<Rightarrow> (Some f, set_Value f def bf1))"

definition IsUsed :: "string \<Rightarrow> BFlags \<Rightarrow> bool" where
  "IsUsed f bf \<longleftrightarrow> f |\<in>| bf_used bf"

text \<open>\<open>None\<close> is the panic on a flag that is not boolean.\<close>

definition IsTrue :: "string \<Rightarrow> BFlags \<Rightarrow> bool option" where
  "IsTrue f bf =
     (case fmlookup (bf_flags bf) f of
        None \<Rightarrow> None
      | Some fl \<Rightarrow> if fl_flagType fl \<noteq> boolType then None else Some (fl_Value fl = ''true''))"

text \<open>The value of an argument behind its first \<open>=\<close>, if it has one, and the name before it.\<close>

definition flag_value :: "string \<Rightarrow> string \<times> string option" where
  "flag_value arg =
     (case index_char CHR ''='' arg of
        None \<Rightarrow> (arg, None)
      | Some i \<Rightarrow> (take i arg, Some (drop (i + 1) arg)))"

fun parse_args :: "string list \<Rightarrow> BFlags \<Rightarrow> flag_error option \<times> BFlags" where
  "parse_args [] bf = (None, bf)"
| "parse_args (arg # args) bf =
     (if \<not> prefix ''--'' arg then (Some (NoDashes arg), bf)
      else if arg = ''--'' then (None, bf)
      else case flag_value (drop 2 arg) of
             (name, val) \<Rightarrow>
               (case fmlookup (bf_flags bf) name of
                  None \<Rightarrow> (Some (UnknownFlag name), bf)
                | Some fl \<Rightarrow>
                    if name |\<in>| bf_used bf then (Some (DuplicateFlag name), bf)
                    else
                      (let bf1 = bf\<lparr>bf_used := finsert name (bf_used bf)\<rparr>
                       in case fl_flagType fl of
                            boolType \<Rightarrow>
                              (if val = Some '''' then (Some (MissingValue name), bf1)
                               else
                                 (let lower = (case val of None \<Rightarrow> '''' | Some v \<Rightarrow> to_lower v)
                                  in if lower = '''' then parse_args args (set_Value name ''true'' bf1)
                                     else if lower = ''true'' \<or> lower = ''false'' then parse_args args (set_Value name lower bf1)
                                     else (Some (ExpectingBoolean name (the val)), bf1)))
                          | stringType \<Rightarrow>
                              (case val of
                                 None \<Rightarrow> (Some (MissingValue name), bf1)
                               | Some v \<Rightarrow> parse_args args (set_Value name v bf1)))))"

definition BFlags_Parse :: "BFlags \<Rightarrow> flag_error option \<times> BFlags" where
  "BFlags_Parse bf =
     (case bf_Err bf of
        Some e \<Rightarrow> (Some (SettingUpFlags e), bf)
      | None \<Rightarrow> parse_args (bf_Args bf) bf)"

section \<open>What is accepted\<close>

text \<open>The value a flag of a type takes from what is given for it, if that is acceptable.\<close>

definition accepted :: "FlagType \<Rightarrow> string option \<Rightarrow> string option" where
  "accepted ty val =
     (case ty of
        stringType \<Rightarrow> val
      | boolType \<Rightarrow>
          (case val of
             None \<Rightarrow> Some ''true''
           | Some v \<Rightarrow> if to_lower v \<in> {''true'', ''false''} then Some (to_lower v) else None))"

definition given :: "string list \<Rightarrow> (string \<times> string option) list" where
  "given args = map (\<lambda>a. flag_value (drop 2 a)) (takeWhile (\<lambda>a. a \<noteq> ''--'') args)"

definition args_valid :: "string list \<Rightarrow> BFlags \<Rightarrow> bool" where
  "args_valid args bf \<longleftrightarrow>
     list_all (prefix ''--'') (takeWhile (\<lambda>a. a \<noteq> ''--'') args) \<and>
     distinct (map fst (given args)) \<and>
     (\<forall>(name, val)\<in>set (given args). name |\<notin>| bf_used bf \<and>
        (\<exists>fl. fmlookup (bf_flags bf) name = Some fl \<and> accepted (fl_flagType fl) val \<noteq> None))"

lemma given_Nil [simp]: "given [] = []"
  by (simp add: given_def)

lemma given_Cons [simp]: "given (a # args) = (if a = ''--'' then [] else flag_value (drop 2 a) # given args)"
  by (simp add: given_def)

lemma to_lower_empty [simp]: "to_lower v = '''' \<longleftrightarrow> v = ''''"
  by (simp add: to_lower_def)

lemma to_lower_Nil [simp]: "to_lower [] = []"
  by (simp add: to_lower_def)

text \<open>One argument: the flag takes the accepted value, or the argument is refused.\<close>

definition use_flag :: "string \<Rightarrow> string \<Rightarrow> BFlags \<Rightarrow> BFlags" where
  "use_flag name v bf = set_Value name v (bf\<lparr>bf_used := finsert name (bf_used bf)\<rparr>)"

lemma parse_args_step:
  assumes "prefix ''--'' arg" "arg \<noteq> ''--''" "flag_value (drop 2 arg) = (name, val)"
  shows "fmlookup (bf_flags bf) name = Some fl \<Longrightarrow> name |\<notin>| bf_used bf \<Longrightarrow> accepted (fl_flagType fl) val = Some v \<Longrightarrow>
      parse_args (arg # args) bf = parse_args args (use_flag name v bf)"
    and "\<not> (\<exists>fl v. fmlookup (bf_flags bf) name = Some fl \<and> name |\<notin>| bf_used bf \<and> accepted (fl_flagType fl) val = Some v) \<Longrightarrow>
      fst (parse_args (arg # args) bf) \<noteq> None"
  using assms
  by (auto simp: accepted_def use_flag_def Let_def split: option.splits FlagType.splits if_splits)

lemma use_flag_lookup:
  "fmlookup (bf_flags bf) name = Some fl \<Longrightarrow>
     fmlookup (bf_flags (use_flag name v bf)) n = (if n = name then Some (fl\<lparr>fl_Value := v\<rparr>) else fmlookup (bf_flags bf) n)"
  "bf_used (use_flag name v bf) = finsert name (bf_used bf)"
  by (simp_all add: use_flag_def set_Value_def split: option.splits)

definition flag_after :: "string list \<Rightarrow> string \<Rightarrow> Flag \<Rightarrow> Flag" where
  "flag_after args name fl =
     (case map_of (given args) name of
        None \<Rightarrow> fl
      | Some val \<Rightarrow> fl\<lparr>fl_Value := the (accepted (fl_flagType fl) val)\<rparr>)"

lemma args_valid_step:
  assumes "prefix ''--'' arg" "arg \<noteq> ''--''" "flag_value (drop 2 arg) = (name, val)"
    and "fmlookup (bf_flags bf) name = Some fl" "name |\<notin>| bf_used bf" "accepted (fl_flagType fl) val = Some v"
  shows "args_valid (arg # args) bf \<longleftrightarrow> args_valid args (use_flag name v bf)"
proof -
  have "(\<forall>(n, w)\<in>set (given args). n |\<notin>| bf_used (use_flag name v bf) \<and>
          (\<exists>fl. fmlookup (bf_flags (use_flag name v bf)) n = Some fl \<and> accepted (fl_flagType fl) w \<noteq> None)) \<longleftrightarrow>
        name \<notin> fst ` set (given args) \<and> (\<forall>(n, w)\<in>set (given args). n |\<notin>| bf_used bf \<and>
          (\<exists>fl. fmlookup (bf_flags bf) n = Some fl \<and> accepted (fl_flagType fl) w \<noteq> None))"
    using assms(4) by (force simp: use_flag_lookup(1) [OF assms(4)] use_flag_lookup(2))
  then show ?thesis using assms by (auto simp: args_valid_def)
qed

lemma parse_args_accepts:
  "(fst (parse_args args bf) = None \<longleftrightarrow> args_valid args bf) \<and>
   (args_valid args bf \<longrightarrow>
      (\<forall>name. fmlookup (bf_flags (snd (parse_args args bf))) name = map_option (flag_after args name) (fmlookup (bf_flags bf) name)) \<and>
      fset (bf_used (snd (parse_args args bf))) = fset (bf_used bf) \<union> fst ` set (given args))"
proof (induction args arbitrary: bf)
  case Nil
  then show ?case by (simp add: args_valid_def flag_after_def option.map_ident)
next
  case (Cons arg args)
  obtain name val where nv: "flag_value (drop 2 arg) = (name, val)" by (metis prod.exhaust)
  consider "\<not> prefix ''--'' arg" | "arg = ''--''"
    | "prefix ''--'' arg" "arg \<noteq> ''--''" by blast
  then show ?case
  proof cases
    case 1
    then show ?thesis by (auto simp: args_valid_def)
  next
    case 2
    then show ?thesis by (simp add: args_valid_def flag_after_def option.map_ident)
  next
    case 3
    show ?thesis
    proof (cases "\<exists>fl v. fmlookup (bf_flags bf) name = Some fl \<and> name |\<notin>| bf_used bf \<and> accepted (fl_flagType fl) val = Some v")
      case False
      then have "\<not> args_valid (arg # args) bf" using 3 nv by (auto simp: args_valid_def)
      then show ?thesis using parse_args_step(2) [OF 3 nv False] by simp
    next
      case True
      then obtain fl v where fl: "fmlookup (bf_flags bf) name = Some fl" "name |\<notin>| bf_used bf" "accepted (fl_flagType fl) val = Some v"
        by blast
      note step = parse_args_step(1) [OF 3 nv fl] args_valid_step [OF 3 nv fl]
      have fresh: "name \<notin> fst ` set (given args)" if "args_valid (arg # args) bf" using that 3 nv by (auto simp: args_valid_def)
      then have "map_of (given args) name = None" if "args_valid (arg # args) bf" using that by (simp add: map_of_eq_None_iff)
      then show ?thesis using Cons.IH [of "use_flag name v bf"] step fl 3 nv
        by (auto simp: use_flag_lookup(1) [OF fl(1)] use_flag_lookup(2) flag_after_def)
    qed
  qed
qed

text \<open>
  C27. The flags of an instruction are read by name: \<open>Parse\<close> succeeds exactly if every argument before a bare \<open>--\<close>
  starts with two dashes, names a declared flag, no flag is named twice, and the value given suits the type of the
  flag; then each flag has the value given for it, whatever the order, and keeps its default if none is given.
\<close>

theorem BFlags_Parse_accepts:
  assumes "bf_Err bf = None"
  shows "(fst (BFlags_Parse bf) = None \<longleftrightarrow> args_valid (bf_Args bf) bf) \<and>
    (args_valid (bf_Args bf) bf \<longrightarrow>
       (\<forall>name. fmlookup (bf_flags (snd (BFlags_Parse bf))) name = map_option (flag_after (bf_Args bf) name) (fmlookup (bf_flags bf) name)))"
  using parse_args_accepts [of "bf_Args bf" bf] assms by (simp add: BFlags_Parse_def)

definition demo_flags :: BFlags where
  "demo_flags = (snd (AddBool ''quiet'' False (snd (AddString ''interval'' '''' NewBFlags))))\<lparr>bf_Args := [''--quiet'', ''--interval=3s'', ''--'', ''x'']\<rparr>"

theorem BFlags_Parse_accepts_witness:
  "bf_Err demo_flags = None \<and> fst (BFlags_Parse demo_flags) = None \<and>
   fmlookup (bf_flags (snd (BFlags_Parse demo_flags))) ''interval'' = Some \<lparr>fl_flagType = stringType, fl_Value = ''3s''\<rparr> \<and>
   IsTrue ''quiet'' (snd (BFlags_Parse demo_flags)) = Some True"
proof -
  have e: "bf_Err demo_flags = None" by code_simp
  have v: "args_valid (bf_Args demo_flags) demo_flags"
    by (simp add: demo_flags_def AddBool_def AddString_def addFlag_def set_Value_def NewBFlags_def args_valid_def flag_value_def accepted_def)
  note spec = BFlags_Parse_accepts [OF e]
  have "fst (BFlags_Parse demo_flags) = None" using spec v by blast
  moreover have "fmlookup (bf_flags (snd (BFlags_Parse demo_flags))) name = map_option (flag_after (bf_Args demo_flags) name) (fmlookup (bf_flags demo_flags) name)" for name
    using spec v by blast
  ultimately show ?thesis using e
    by (simp add: IsTrue_def demo_flags_def AddBool_def AddString_def addFlag_def set_Value_def NewBFlags_def flag_after_def flag_value_def accepted_def)
qed

end
