(* ===== verification/JsonText.thy ===== *)
theory JsonText
  imports GoStrings
begin

text \<open>
  What the decoder of package \<open>encoding/json\<close> makes of the first value of a text that is an array: its elements, of
  which the sources only ask whether they are strings. The text is ASCII. Text behind the closing bracket is not
  looked at, as the decoder reads one value at a time. Errors are not told apart.
\<close>

section \<open>Tokens\<close>

datatype json_token = JPunct char | JText string | JNumber nat int | JWord | JBad

definition json_blank :: "char \<Rightarrow> bool" where
  "json_blank c \<longleftrightarrow> c \<in> {CHR 32, CHR 9, CHR 10, CHR 13}"

text \<open>A code point in UTF-8.\<close>

definition utf8 :: "nat \<Rightarrow> string" where
  "utf8 n =
     (if n < 128 then [char_of n]
      else if n < 2048 then [char_of (192 + n div 64), char_of (128 + n mod 64)]
      else if n < 65536 then [char_of (224 + n div 4096), char_of (128 + n div 64 mod 64), char_of (128 + n mod 64)]
      else [char_of (240 + n div 262144), char_of (128 + n div 4096 mod 64), char_of (128 + n div 64 mod 64), char_of (128 + n mod 64)])"

definition hex_value :: "char \<Rightarrow> nat" where
  "hex_value c = (let n = of_char c in if is_digit c then n - 48 else if is_lower c then n - 87 else n - 55)"

definition hex4 :: "string \<Rightarrow> nat option" where
  "hex4 s = (if length s = 4 \<and> list_all is_xdigit s then Some (foldl (\<lambda>v c. 16 * v + hex_value c) 0 s) else None)"

text \<open>The characters of a string literal behind its opening quote: escapes with one letter, and code points.\<close>

definition json_escapes :: "(char \<times> char) list" where
  "json_escapes = [(CHR 34, CHR 34), (CHR 92, CHR 92), (CHR ''/'', CHR ''/''), (CHR ''b'', CHR 8), (CHR ''f'', CHR 12),
     (CHR ''n'', CHR 10), (CHR ''r'', CHR 13), (CHR ''t'', CHR 9)]"

datatype json_rune = Byte char | Unit nat

text \<open>Surrogate halves that follow each other are one code point; one that is alone is the replacement character.\<close>

fun json_string :: "json_rune list \<Rightarrow> string" where
  "json_string [] = ''''"
| "json_string (Byte c # rs) = c # json_string rs"
| "json_string (Unit hi # Unit lo # rs) =
     (if 55296 \<le> hi \<and> hi < 56320 \<and> 56320 \<le> lo \<and> lo < 57344
      then utf8 (65536 + (hi - 55296) * 1024 + (lo - 56320)) @ json_string rs
      else if 55296 \<le> hi \<and> hi < 57344 then utf8 65533 @ json_string (Unit lo # rs)
      else utf8 hi @ json_string (Unit lo # rs))"
| "json_string (Unit u # rs) = utf8 (if 55296 \<le> u \<and> u < 57344 then 65533 else u) @ json_string rs"

fun json_literal :: "string \<Rightarrow> (json_rune list \<times> string) option" where
  "json_literal [] = None"
| "json_literal (c # s) =
     (if c = CHR 34 then Some ([], s)
      else if (of_char c :: nat) < 32 then None
      else if c = CHR 92 then
        (case s of
           e # s1 \<Rightarrow>
             (case map_of json_escapes e of
                Some d \<Rightarrow> map_option (apfst ((#) (Byte d))) (json_literal s1)
              | None \<Rightarrow>
                  if e = CHR ''u'' then
                    (case hex4 (take 4 s1) of
                       Some u \<Rightarrow> map_option (apfst ((#) (Unit u))) (json_literal (drop 4 s1))
                     | None \<Rightarrow> None)
                  else None)
         | [] \<Rightarrow> None)
      else map_option (apfst ((#) (Byte c))) (json_literal s))"

text \<open>A number: its digits as one mantissa, and the power of ten it is scaled by.\<close>

definition digits_nat :: "string \<Rightarrow> nat" where
  "digits_nat ds = (case digits_value 0 ds of Some n \<Rightarrow> n | None \<Rightarrow> 0)"

definition json_exponent :: "nat \<Rightarrow> int \<Rightarrow> string \<Rightarrow> (json_token \<times> string) option" where
  "json_exponent m e s =
     (case s of
        c # s1 \<Rightarrow>
          if c = CHR ''e'' \<or> c = CHR ''E'' then
            (let neg = (s1 \<noteq> [] \<and> hd s1 = CHR ''-'');
                 s2 = (if s1 \<noteq> [] \<and> hd s1 \<in> {CHR ''-'', CHR ''+''} then tl s1 else s1);
                 ds = takeWhile is_digit s2
             in if ds = [] then None
                else Some (JNumber m (if neg then e - int (digits_nat ds) else e + int (digits_nat ds)), dropWhile is_digit s2))
          else Some (JNumber m e, s)
      | [] \<Rightarrow> Some (JNumber m e, s))"

definition json_fraction :: "string \<Rightarrow> string \<Rightarrow> (json_token \<times> string) option" where
  "json_fraction ds s =
     (if s \<noteq> [] \<and> hd s = CHR ''.'' then
        (let fs = takeWhile is_digit (tl s)
         in if fs = [] then None else json_exponent (digits_nat (ds @ fs)) (- int (length fs)) (dropWhile is_digit (tl s)))
      else json_exponent (digits_nat ds) 0 s)"

definition json_number :: "string \<Rightarrow> (json_token \<times> string) option" where
  "json_number s =
     (let s1 = (if s \<noteq> [] \<and> hd s = CHR ''-'' then tl s else s)
      in case s1 of
           [] \<Rightarrow> None
         | d # s2 \<Rightarrow>
             if d = CHR ''0'' then json_fraction [d] s2
             else if is_digit d then json_fraction (takeWhile is_digit s1) (dropWhile is_digit s1)
             else None)"

fun json_word :: "string list \<Rightarrow> string \<Rightarrow> string option" where
  "json_word [] s = None"
| "json_word (w # ws) s = (if prefix w s then Some (drop (length w) s) else json_word ws s)"

text \<open>One token from a text that does not start with a blank, and the text behind it.\<close>

definition json_token :: "string \<Rightarrow> (json_token \<times> string) option" where
  "json_token s =
     (case s of
        [] \<Rightarrow> None
      | c # s1 \<Rightarrow>
          if c \<in> set ''[]{}:,'' then Some (JPunct c, s1)
          else if c = CHR 34 then map_option (apfst (JText \<circ> json_string)) (json_literal s1)
          else if c = CHR ''-'' \<or> is_digit c then json_number s
          else map_option (Pair JWord) (json_word [''true'', ''false'', ''null''] s))"

lemma json_literal_shorter: "json_literal s = Some (r, s') \<Longrightarrow> length s' < length s"
proof (induction s arbitrary: r rule: json_literal.induct)
  case (2 c s)
  then show ?case
    by (auto split: if_splits list.splits option.splits simp: apfst_def map_prod_def) fastforce+
qed simp

lemma json_exponent_shorter: "json_exponent m e s = Some (t, s') \<Longrightarrow> length s' \<le> length s"
  using length_dropWhile_le [of is_digit "tl (tl s)"] length_dropWhile_le [of is_digit "tl s"]
  by (auto simp: json_exponent_def Let_def split: list.splits if_splits)

lemma json_fraction_shorter: "json_fraction ds s = Some (t, s') \<Longrightarrow> length s' \<le> length s"
  using length_dropWhile_le [of is_digit "tl s"]
  by (auto simp: json_fraction_def Let_def split: if_splits dest!: json_exponent_shorter)

lemma json_number_shorter: "json_number s = Some (t, s') \<Longrightarrow> length s' < length s"
proof -
  assume *: "json_number s = Some (t, s')"
  define s1 where "s1 = (if s \<noteq> [] \<and> hd s = CHR ''-'' then tl s else s)"
  have s1: "length s1 \<le> length s" by (simp add: s1_def)
  obtain d s2 where d: "s1 = d # s2" using * by (cases s1) (auto simp: json_number_def s1_def [symmetric])
  consider "json_fraction [d] s2 = Some (t, s')" | "is_digit d" "json_fraction (takeWhile is_digit s1) (dropWhile is_digit s1) = Some (t, s')"
    using * by (auto simp: json_number_def s1_def [symmetric] d Let_def split: if_splits)
  then show ?thesis
  proof cases
    case 1
    then show ?thesis using json_fraction_shorter [OF 1] s1 d by simp
  next
    case 2
    then have "length (dropWhile is_digit s1) < length s1" using length_dropWhile_le [of is_digit s2] by (simp add: d le_imp_less_Suc)
    then show ?thesis using json_fraction_shorter [OF 2(2)] s1 by simp
  qed
qed

lemma json_word_shorter: "json_word ws s = Some s' \<Longrightarrow> [] \<notin> set ws \<Longrightarrow> length s' < length s"
  by (induction ws) (auto split: if_splits simp: prefix_def)

lemma json_token_shorter: "json_token s = Some (t, s') \<Longrightarrow> length s' < length s"
proof -
  assume *: "json_token s = Some (t, s')"
  obtain c s1 where s: "s = c # s1" using * by (cases s) (auto simp: json_token_def)
  have w: "json_word [''true'', ''false'', ''null''] s = Some s' \<Longrightarrow> length s' < length s"
    by (erule json_word_shorter) simp
  show ?thesis
  proof (cases "c \<in> set ''[]{}:,''")
    case True
    then show ?thesis using * by (simp add: json_token_def s del: list.set)
  next
    case False
    show ?thesis
    proof (cases "c = CHR 34")
      case True
      then have "\<exists>r. json_literal s1 = Some (r, s')" using * by (auto simp: json_token_def s apfst_def)
      then show ?thesis using json_literal_shorter s by fastforce
    next
      case no: False
      show ?thesis using * False no w
        by (auto simp: json_token_def s json_number_shorter simp del: list.set json_word.simps split: if_splits dest: json_number_shorter)
    qed
  qed
qed

function json_tokens :: "string \<Rightarrow> json_token list" where
  "json_tokens s =
     (case dropWhile json_blank s of
        [] \<Rightarrow> []
      | c # s1 \<Rightarrow> (case json_token (c # s1) of None \<Rightarrow> [JBad] | Some (t, s2) \<Rightarrow> t # json_tokens s2))"
  by pat_completeness auto
termination
proof (relation "measure length")
  fix s c s1 p t s2 assume "dropWhile json_blank s = c # s1" "json_token (c # s1) = Some p" "(t, s2) = p"
  then have *: "dropWhile json_blank s = c # s1" "json_token (c # s1) = Some (t, s2)" by simp_all
  have "length (c # s1) \<le> length s" using length_dropWhile_le [of json_blank s] unfolding *(1) .
  then show "(s2, s) \<in> measure length" using json_token_shorter [OF *(2)] by simp
qed auto

declare json_tokens.simps [simp del]

section \<open>Arrays\<close>

text \<open>
  A number that is converted must not overflow: not reach the middle between the largest double and the next power of two.
\<close>

definition float_overflow :: int where
  "float_overflow = 2 ^ 1024 - 2 ^ 970"

definition number_in_range :: "nat \<Rightarrow> int \<Rightarrow> bool" where
  "number_in_range m e \<longleftrightarrow>
     (if e \<ge> 0 then int m * 10 ^ nat e < float_overflow else int m < float_overflow * 10 ^ nat (- e))"

datatype json_element = JString string | JOther

datatype json_expect = ValueOrEnd | Value | KeyOrEnd | Key | Colon | CommaOrEnd

definition add_element :: "bool list \<Rightarrow> json_element list \<Rightarrow> json_element \<Rightarrow> json_element list" where
  "add_element open elements x = (if open = [True] then elements @ [x] else elements)"

text \<open>
  The automaton of the scanner: the brackets that are open, innermost first (\<open>True\<close> for an array), what may
  come next, and the elements of the outermost array so far.
\<close>

fun json_array :: "json_expect \<Rightarrow> bool list \<Rightarrow> json_element list \<Rightarrow> json_token list \<Rightarrow> json_element list option" where
  "json_array ex open elements [] = None"
| "json_array ex open elements (t # ts) =
     (if open = [] then None
      else case ex of
        Colon \<Rightarrow> if t = JPunct CHR '':'' then json_array Value open elements ts else None
      | CommaOrEnd \<Rightarrow>
          if t = JPunct CHR '','' then json_array (if hd open then Value else Key) open elements ts
          else if t = JPunct (if hd open then CHR '']'' else CHR ''}'') then
            if tl open = [] then Some elements else json_array CommaOrEnd (tl open) elements ts
          else None
      | _ \<Rightarrow>
          if ex \<in> {KeyOrEnd, Key} then
            (case t of
               JText _ \<Rightarrow> json_array Colon open elements ts
             | _ \<Rightarrow>
                 if ex = KeyOrEnd \<and> t = JPunct CHR ''}'' then
                   if tl open = [] then Some elements else json_array CommaOrEnd (tl open) elements ts
                 else None)
          else
            (case t of
               JText s \<Rightarrow> json_array CommaOrEnd open (add_element open elements (JString s)) ts
             | JNumber m e \<Rightarrow> if number_in_range m e then json_array CommaOrEnd open (add_element open elements JOther) ts else None
             | JWord \<Rightarrow> json_array CommaOrEnd open (add_element open elements JOther) ts
             | JPunct c \<Rightarrow>
                 if c = CHR ''['' then json_array ValueOrEnd (True # open) (add_element open elements JOther) ts
                 else if c = CHR ''{'' then json_array KeyOrEnd (False # open) (add_element open elements JOther) ts
                 else if ex = ValueOrEnd \<and> c = CHR '']'' then
                   if tl open = [] then Some elements else json_array CommaOrEnd (tl open) elements ts
                 else None
             | JBad \<Rightarrow> None))"

definition decode_array :: "string \<Rightarrow> json_element list option" where
  "decode_array s =
     (case json_tokens s of
        t # ts \<Rightarrow> if t = JPunct CHR ''['' then json_array ValueOrEnd [True] [] ts else None
      | [] \<Rightarrow> None)"

section \<open>Arrays of strings\<close>

text \<open>The literal of a string without control characters, and the array of such literals.\<close>

definition json_plain :: "string \<Rightarrow> bool" where
  "json_plain s \<longleftrightarrow> list_all (\<lambda>c. 32 \<le> (of_char c :: nat)) s"

definition json_char :: "char \<Rightarrow> string" where
  "json_char c = (if c = CHR 34 \<or> c = CHR 92 then [CHR 92, c] else [c])"

definition json_text :: "string \<Rightarrow> string" where
  "json_text s = CHR 34 # concat (map json_char s) @ [CHR 34]"

definition exec_form :: "string list \<Rightarrow> string" where
  "exec_form ss = ''['' @ join (map json_text ss) '','' @ '']''"

lemma json_literal_reads: "json_plain s \<Longrightarrow> json_literal (concat (map json_char s) @ CHR 34 # rest) = Some (map Byte s, rest)"
proof (induction s)
  case (Cons c s)
  then show ?case
    by (cases "c = CHR 34 \<or> c = CHR 92") (auto simp: json_plain_def json_char_def json_escapes_def apfst_def)
qed (simp add: json_plain_def)

lemma json_string_bytes: "json_string (map Byte s) = s"
  by (induction s) simp_all

lemma json_tokens_text: "json_plain s \<Longrightarrow> json_tokens (json_text s @ rest) = JText s # json_tokens rest"
  by (subst json_tokens.simps)
    (simp add: json_text_def json_blank_def json_token_def json_literal_reads json_string_bytes apfst_def)

lemma json_tokens_punct: "c \<in> set ''[]{}:,'' \<Longrightarrow> json_tokens (c # rest) = JPunct c # json_tokens rest"
  by (subst json_tokens.simps) (auto simp: json_blank_def json_token_def)

lemma json_array_texts:
  assumes "\<forall>s\<in>set ss. json_plain s" "ss \<noteq> []" "ex \<in> {Value, ValueOrEnd}"
  shows "json_array ex [True] acc (json_tokens (join (map json_text ss) '','' @ CHR '']'' # rest)) = Some (acc @ map JString ss)"
  using assms
proof (induction ss arbitrary: ex acc)
  case (Cons s ss)
  show ?case
  proof (cases ss)
    case Nil
    then show ?thesis using Cons.prems by (auto simp: json_tokens_text json_tokens_punct add_element_def)
  next
    case (Cons s2 ss2)
    have "json_array Value [True] (acc @ [JString s]) (json_tokens (join (map json_text ss) '','' @ CHR '']'' # rest))
        = Some ((acc @ [JString s]) @ map JString ss)"
      using Cons.IH Cons.prems Cons by (metis Cons.IH insert_iff list.distinct(1) list.set_intros(2))
    then show ?thesis using Cons.prems Cons by (auto simp: json_tokens_text json_tokens_punct add_element_def)
  qed
qed simp

lemma decode_exec_form:
  assumes "\<forall>s\<in>set ss. json_plain s"
  shows "decode_array (exec_form ss @ rest) = Some (map JString ss)"
proof (cases "ss = []")
  case True
  then show ?thesis by (simp add: decode_array_def exec_form_def json_tokens_punct)
next
  case False
  then show ?thesis using json_array_texts [OF assms, of ValueOrEnd "[]" rest]
    by (simp add: decode_array_def exec_form_def json_tokens_punct)
qed

end
