(* ===== verification/DockerfileParser.thy ===== *)
theory DockerfileParser
  imports JsonText
begin

text \<open>
  The parser of build files (\<^verbatim>\<open>src/builder/dockerfile/parser\<close>), on ASCII text: \<^verbatim>\<open>parser.go\<close>, \<^verbatim>\<open>line_parsers.go\<close>
  and \<^verbatim>\<open>utils.go\<close> but for \<^verbatim>\<open>Dump\<close>. Regular expressions are written out as the matching they do. The directive is a
  pointer there and is threaded through here. \<open>ParseLine\<close> calls itself through \<open>ONBUILD\<close>, on a shorter line.
\<close>

section \<open>Data\<close>

datatype Node = Node
  (n_Value: string)
  (n_Next: "Node option")
  (n_Children: "Node option list")
  (n_Attributes: "(string, bool) fmap")
  (n_Original: string)
  (n_Flags: "string list")
  (n_StartLine: int)
  (n_EndLine: int)

text \<open>The regular expression of the directive is the character that ends a line that goes on.\<close>

record Directive =
  EscapeToken :: char
  LineContinuationRegex :: char
  LookingForDirectives :: bool
  EscapeSeen :: bool

datatype parse_error = OnlyOneEscape | InvalidEscape string | MustHaveTwoArguments string | NoEquals string
  | NotAJSONArray | NotStringArray

type_synonym line_result = "parse_error + Node option \<times> (string, bool) fmap"

definition leaf :: "string \<Rightarrow> Node option \<Rightarrow> Node" where
  "leaf v nxt = Node v nxt [] fmempty '''' [] 0 0"

fun chain :: "string list \<Rightarrow> Node option" where
  "chain [] = None"
| "chain (v # vs) = Some (leaf v (chain vs))"

definition no_attrs :: "(string, bool) fmap" where
  "no_attrs = fmempty"

definition json_attrs :: "(string, bool) fmap" where
  "json_attrs = fmupd ''json'' True fmempty"

definition SetEscapeToken :: "string \<Rightarrow> Directive \<Rightarrow> parse_error option \<times> Directive" where
  "SetEscapeToken s d =
     (if s \<noteq> [CHR 96] \<and> s \<noteq> [CHR 92] then (Some (InvalidEscape s), d)
      else (None, d\<lparr>EscapeToken := hd s, LineContinuationRegex := hd s\<rparr>))"

section \<open>Regular expressions\<close>

definition is_blank :: "char \<Rightarrow> bool" where
  "is_blank c \<longleftrightarrow> c = CHR 32 \<or> c = CHR 9"

definition is_token_space :: "char \<Rightarrow> bool" where
  "is_token_space c \<longleftrightarrow> c \<in> {CHR 9, CHR 11, CHR 12, CHR 13, CHR 32}"

text \<open>\<open>tokenEscapeCommand\<close>: the character it captures.\<close>

definition tokenEscapeCommand :: "string \<Rightarrow> char option" where
  "tokenEscapeCommand line =
     (if line \<noteq> [] \<and> hd line = CHR ''#'' \<and> prefix ''escape'' (dropWhile is_blank (tl line)) then
        (let r2 = dropWhile is_blank (drop 6 (dropWhile is_blank (tl line)))
         in if r2 \<noteq> [] \<and> hd r2 = CHR ''='' \<and> CHR 10 \<notin> set r2 then
              (let r3 = tl r2; r4 = dropWhile is_blank r3
               in if r4 \<noteq> [] then Some (hd r4) else if r3 \<noteq> [] then Some (last r3) else None)
            else None)
      else None)"

definition tokenComment :: "string \<Rightarrow> bool" where
  "tokenComment line \<longleftrightarrow> line \<noteq> [] \<and> hd line = CHR ''#'' \<and> CHR 10 \<notin> set line"

text \<open>The line without the mark at its end, if it has one.\<close>

definition continuation :: "Directive \<Rightarrow> string \<Rightarrow> string option" where
  "continuation d line =
     (case dropWhile is_blank (rev line) of
        c # r \<Rightarrow> if c = LineContinuationRegex d then Some (rev r) else None
      | [] \<Rightarrow> None)"

text \<open>\<open>tokenWhitespace.Split\<close> with limit 2, and without a limit.\<close>

definition split_token2 :: "string \<Rightarrow> string list" where
  "split_token2 s =
     (case dropWhile (Not \<circ> is_token_space) s of
        [] \<Rightarrow> [s]
      | r \<Rightarrow> [takeWhile (Not \<circ> is_token_space) s, dropWhile is_token_space r])"

function split_token :: "string \<Rightarrow> string list" where
  "split_token s =
     (case dropWhile (Not \<circ> is_token_space) s of
        [] \<Rightarrow> [s]
      | c # r \<Rightarrow> takeWhile (Not \<circ> is_token_space) s # split_token (dropWhile is_token_space r))"
  by pat_completeness auto
termination
proof (relation "measure length")
  fix s c r assume *: "dropWhile (Not \<circ> is_token_space) s = c # r"
  have "length (c # r) \<le> length s" using length_dropWhile_le [of "Not \<circ> is_token_space" s] unfolding * .
  then show "(dropWhile is_token_space r, s) \<in> measure length" using length_dropWhile_le [of is_token_space r] by simp
qed simp

declare split_token.simps [simp del]

section \<open>utils.go\<close>

definition stripComments :: "string \<Rightarrow> string" where
  "stripComments line = (if tokenComment line then '''' else line)"

datatype phase = inSpaces | inWord | inQuote

text \<open>
  The loop of \<open>extractBuilderFlags\<close>: the rest of the line and the flags. It never fails.
\<close>

fun flags_loop :: "phase \<Rightarrow> char \<Rightarrow> bool \<Rightarrow> string \<Rightarrow> string list \<Rightarrow> string \<Rightarrow> string \<times> string list" where
  "flags_loop ph quote blankOK word words [] =
     ('''', if ph \<noteq> inSpaces \<and> word \<noteq> ''--'' \<and> (blankOK \<or> word \<noteq> '''') then words @ [word] else words)"
| "flags_loop ph quote blankOK word words (ch # rest) =
     (if ph = inSpaces \<and> is_space ch then flags_loop inSpaces quote blankOK word words rest
      else if ph = inSpaces \<and> (ch \<noteq> CHR ''-'' \<or> rest = [] \<or> hd rest \<noteq> CHR ''-'') then (ch # rest, words)
      else if ph \<noteq> inQuote then
        if is_space ch then
          if word = ''--'' then (ch # rest, words)
          else flags_loop inSpaces quote False '''' (if blankOK \<or> word \<noteq> '''' then words @ [word] else words) rest
        else if ch = CHR 39 \<or> ch = CHR 34 then flags_loop inQuote ch True word words rest
        else if ch = CHR 92 then
          (case rest of
             [] \<Rightarrow> flags_loop inWord quote blankOK word words []
           | ch2 # rest2 \<Rightarrow> flags_loop inWord quote blankOK (word @ [ch2]) words rest2)
        else flags_loop inWord quote blankOK (word @ [ch]) words rest
      else if ch = quote then flags_loop inWord quote blankOK word words rest
      else if ch = CHR 92 then
        (case rest of
           [] \<Rightarrow> flags_loop inWord quote blankOK word words []
         | ch2 # rest2 \<Rightarrow> flags_loop inQuote quote blankOK (word @ [ch2]) words rest2)
      else flags_loop inQuote quote blankOK (word @ [ch]) words rest)"

definition extractBuilderFlags :: "string \<Rightarrow> string \<times> string list" where
  "extractBuilderFlags line = flags_loop inSpaces CHR 0x00 False '''' [] line"

definition splitCommand :: "string \<Rightarrow> string \<times> string list \<times> string" where
  "splitCommand line =
     (case split_token2 (trim_space line) of
        [cmd, r] \<Rightarrow> (case extractBuilderFlags r of (args, flags) \<Rightarrow> (to_lower cmd, flags, trim_space args))
      | cmdline \<Rightarrow> (to_lower (hd cmdline), [], trim_space ''''))"

section \<open>line_parsers.go\<close>

definition parseIgnore :: "string \<Rightarrow> Directive \<Rightarrow> line_result" where
  "parseIgnore rest d = Inr (Some (leaf '''' None), no_attrs)"

text \<open>The loop of \<open>parseWords\<close>; the words keep their quotes.\<close>

fun words_loop :: "char \<Rightarrow> phase \<Rightarrow> char \<Rightarrow> bool \<Rightarrow> string \<Rightarrow> string list \<Rightarrow> string \<Rightarrow> string list" where
  "words_loop esc ph quote blankOK word words [] =
     (if ph \<noteq> inSpaces \<and> (blankOK \<or> word \<noteq> '''') then words @ [word] else words)"
| "words_loop esc ph quote blankOK word words (ch # rest) =
     (if ph = inSpaces \<and> is_space ch then words_loop esc inSpaces quote blankOK word words rest
      else if ph \<noteq> inQuote then
        if is_space ch then words_loop esc inSpaces quote False '''' (if blankOK \<or> word \<noteq> '''' then words @ [word] else words) rest
        else if ch = CHR 39 \<or> ch = CHR 34 then words_loop esc inQuote ch True (word @ [ch]) words rest
        else if ch = esc then
          (case rest of
             [] \<Rightarrow> words_loop esc inWord quote blankOK word words []
           | ch2 # rest2 \<Rightarrow> words_loop esc inWord quote blankOK (word @ [ch, ch2]) words rest2)
        else words_loop esc inWord quote blankOK (word @ [ch]) words rest
      else if ch = esc \<and> quote \<noteq> CHR 39 then
        (case rest of
           [] \<Rightarrow> words_loop esc inWord quote blankOK word words []
         | ch2 # rest2 \<Rightarrow> words_loop esc (if ch = quote then inWord else inQuote) quote blankOK (word @ [ch, ch2]) words rest2)
      else words_loop esc (if ch = quote then inWord else inQuote) quote blankOK (word @ [ch]) words rest)"

definition parseWords :: "string \<Rightarrow> Directive \<Rightarrow> string list" where
  "parseWords rest d = words_loop (EscapeToken d) inSpaces CHR 0x00 False '''' [] rest"
text \<open>\<open>strings.SplitN(word, "=", 2)\<close> of every word, or the first word that has no \<open>=\<close>.\<close>

fun name_values :: "string list \<Rightarrow> string + string list" where
  "name_values [] = Inr []"
| "name_values (word # words) =
     (case index_char CHR ''='' word of
        None \<Rightarrow> Inl word
      | Some i \<Rightarrow>
          (case name_values words of
             Inl bad \<Rightarrow> Inl bad
           | Inr vs \<Rightarrow> Inr (take i word # drop (i + 1) word # vs)))"

definition parseNameVal :: "string \<Rightarrow> string \<Rightarrow> Directive \<Rightarrow> line_result" where
  "parseNameVal rest key d =
     (case parseWords rest d of
        [] \<Rightarrow> Inr (None, no_attrs)
      | word # words \<Rightarrow>
          if CHR ''='' \<notin> set word then
            (case split_token2 rest of
               [name, v] \<Rightarrow> Inr (chain [name, v], no_attrs)
             | _ \<Rightarrow> Inl (MustHaveTwoArguments key))
          else
            (case name_values (word # words) of
               Inl bad \<Rightarrow> Inl (NoEquals bad)
             | Inr vs \<Rightarrow> Inr (chain vs, no_attrs)))"

definition parseEnv :: "string \<Rightarrow> Directive \<Rightarrow> line_result" where
  "parseEnv rest d = parseNameVal rest ''ENV'' d"

definition parseLabel :: "string \<Rightarrow> Directive \<Rightarrow> line_result" where
  "parseLabel rest d = parseNameVal rest ''LABEL'' d"

definition parseNameOrNameVal :: "string \<Rightarrow> Directive \<Rightarrow> line_result" where
  "parseNameOrNameVal rest d = Inr (chain (parseWords rest d), no_attrs)"

definition parseStringsWhitespaceDelimited :: "string \<Rightarrow> Directive \<Rightarrow> line_result" where
  "parseStringsWhitespaceDelimited rest d =
     (if rest = '''' then Inr (None, no_attrs) else Inr (chain (split_token rest), no_attrs))"

definition parseString :: "string \<Rightarrow> Directive \<Rightarrow> line_result" where
  "parseString rest d = (if rest = '''' then Inr (None, no_attrs) else Inr (Some (leaf rest None), no_attrs))"

fun json_strings :: "json_element list \<Rightarrow> string list option" where
  "json_strings [] = Some []"
| "json_strings (JString s # es) = map_option ((#) s) (json_strings es)"
| "json_strings (JOther # es) = None"

definition parseJSON :: "string \<Rightarrow> Directive \<Rightarrow> line_result" where
  "parseJSON rest d =
     (let rest = dropWhile is_space rest
      in if \<not> prefix ''['' rest then Inl NotAJSONArray
         else (case decode_array rest of
                 None \<Rightarrow> Inl NotAJSONArray
               | Some myJSON \<Rightarrow>
                   (case json_strings myJSON of
                      None \<Rightarrow> Inl NotStringArray
                    | Some strs \<Rightarrow> Inr (chain strs, json_attrs))))"

definition parseMaybeJSON :: "string \<Rightarrow> Directive \<Rightarrow> line_result" where
  "parseMaybeJSON rest d =
     (if rest = '''' then Inr (None, no_attrs)
      else case parseJSON rest d of
             Inr r \<Rightarrow> Inr r
           | Inl e \<Rightarrow> if e = NotStringArray then Inl e else Inr (Some (leaf rest None), no_attrs))"

definition parseMaybeJSONToList :: "string \<Rightarrow> Directive \<Rightarrow> line_result" where
  "parseMaybeJSONToList rest d =
     (case parseJSON rest d of
        Inr r \<Rightarrow> Inr r
      | Inl e \<Rightarrow> if e = NotStringArray then Inl e else parseStringsWhitespaceDelimited rest d)"

definition parseHealthConfig :: "string \<Rightarrow> Directive \<Rightarrow> line_result" where
  "parseHealthConfig rest d =
     (let typ = takeWhile (Not \<circ> is_space) rest; next = dropWhile is_space (dropWhile (Not \<circ> is_space) rest)
      in if typ = '''' then Inr (None, no_attrs)
         else (case parseMaybeJSON next d of
                 Inl e \<Rightarrow> Inl e
               | Inr (cmd, attrs) \<Rightarrow> Inr (Some (leaf typ cmd), attrs)))"

section \<open>parser.go\<close>

text \<open>The dispatch table, but for \<open>ONBUILD\<close>.\<close>

definition dispatch_table :: "(string \<times> (string \<Rightarrow> Directive \<Rightarrow> line_result)) list" where
  "dispatch_table =
     [(''add'', parseMaybeJSONToList), (''arg'', parseNameOrNameVal), (''cmd'', parseMaybeJSON), (''copy'', parseMaybeJSONToList),
      (''entrypoint'', parseMaybeJSON), (''env'', parseEnv), (''expose'', parseStringsWhitespaceDelimited), (''from'', parseString),
      (''healthcheck'', parseHealthConfig), (''label'', parseLabel), (''maintainer'', parseString), (''run'', parseMaybeJSON),
      (''shell'', parseMaybeJSON), (''stopsignal'', parseString), (''user'', parseString), (''volume'', parseMaybeJSONToList),
      (''workdir'', parseString)]"

type_synonym parse_line = "string \<Rightarrow> Directive \<Rightarrow> (parse_error + string \<times> Node option) \<times> Directive"

definition parseSubCommand :: "parse_line \<Rightarrow> string \<Rightarrow> Directive \<Rightarrow> line_result \<times> Directive" where
  "parseSubCommand parse rest d =
     (if rest = '''' then (Inr (None, no_attrs), d)
      else case parse rest d of
             (Inl e, d') \<Rightarrow> (Inl e, d')
           | (Inr (_, child), d') \<Rightarrow> (Inr (Some (Node '''' None [child] fmempty '''' [] 0 0), no_attrs), d'))"

definition fullDispatch :: "parse_line \<Rightarrow> string \<Rightarrow> string \<Rightarrow> Directive \<Rightarrow> line_result \<times> Directive" where
  "fullDispatch parse cmd args d =
     (if cmd = ''onbuild'' then parseSubCommand parse args d
      else case map_of dispatch_table cmd of
             Some fn \<Rightarrow> (fn args d, d)
           | None \<Rightarrow> (parseIgnore args d, d))"

lemma fullDispatch_cong [fundef_cong]:
  assumes "cmd = cmd'" "args = args'" "d = d'" "cmd' = ''onbuild'' \<Longrightarrow> args' \<noteq> '''' \<Longrightarrow> parse args' d' = parse' args' d'"
  shows "fullDispatch parse cmd args d = fullDispatch parse' cmd' args' d'"
  using assms by (simp add: fullDispatch_def parseSubCommand_def)

lemma trim_space_length: "length (trim_space s) \<le> length s"
  using length_dropWhile_le [of is_space "rev (dropWhile is_space s)"] length_dropWhile_le [of is_space s]
  by (simp add: trim_space_def)

lemma fst_length_if: "length (fst x) \<le> k \<Longrightarrow> length (fst y) \<le> k \<Longrightarrow> length (fst (if c then x else y)) \<le> k"
  by simp

lemma fst_length_case:
  "length (fst x) \<le> k \<Longrightarrow> (\<And>a b. xs = a # b \<Longrightarrow> length (fst (f a b)) \<le> k) \<Longrightarrow>
   length (fst (case xs of [] \<Rightarrow> x | a # b \<Rightarrow> f a b)) \<le> k"
  by (cases xs) simp_all

lemma flags_loop_length: "length (fst (flags_loop ph quote blankOK word words rest)) \<le> length rest"
proof (induction rest arbitrary: ph quote blankOK word words rule: length_induct)
  case (1 rest)
  show ?case
  proof (cases rest)
    case Nil
    then show ?thesis by simp
  next
    case (Cons ch rest1)
    define n where "n = length rest1"
    have IH: "length (fst (flags_loop ph' quote' blankOK' word' words' rest')) \<le> Suc n"
      if "length rest' \<le> n" for ph' quote' blankOK' word' words' rest'
    proof -
      have "length rest' < length rest" using that Cons by (simp add: n_def)
      then have "length (fst (flags_loop ph' quote' blankOK' word' words' rest')) \<le> length rest'" using 1 by blast
      then show ?thesis using that by simp
    qed
    have "length (fst (flags_loop ph quote blankOK word words (ch # rest1))) \<le> Suc n"
      unfolding flags_loop.simps(2)
      by (intro fst_length_if fst_length_case IH) (simp_all add: n_def)
    then show ?thesis by (simp add: Cons n_def del: flags_loop.simps)
  qed
qed

lemma split_token2_length:
  assumes "split_token2 s = [cmd, r]"
  shows "length r < length s"
proof -
  obtain c r' where r': "dropWhile (Not \<circ> is_token_space) s = c # r'"
    using assms by (cases "dropWhile (Not \<circ> is_token_space) s") (auto simp: split_token2_def)
  then have "is_token_space c" using hd_dropWhile [of "Not \<circ> is_token_space" s] by simp
  moreover have "length (c # r') \<le> length s" using length_dropWhile_le [of "Not \<circ> is_token_space" s] unfolding r' .
  ultimately show ?thesis using assms r' length_dropWhile_le [of is_token_space r'] by (simp add: split_token2_def)
qed

lemma split_token2_cases:
  obtains "split_token2 s = [s]" | cmd r where "split_token2 s = [cmd, r]"
  by (cases "dropWhile (Not \<circ> is_token_space) s") (auto simp: split_token2_def)

lemma splitCommand_length: "splitCommand line = (cmd, flags, args) \<Longrightarrow> args \<noteq> '''' \<Longrightarrow> length args < length line"
proof -
  assume *: "splitCommand line = (cmd, flags, args)" "args \<noteq> ''''"
  show "length args < length line"
  proof (cases rule: split_token2_cases [of "trim_space line"])
    case 1
    then show ?thesis using * by (simp add: splitCommand_def trim_space_def)
  next
    case (2 c r)
    have "length (fst (extractBuilderFlags r)) \<le> length r" by (simp add: extractBuilderFlags_def flags_loop_length)
    then show ?thesis
      using * 2 split_token2_length [OF 2] trim_space_length [of line] trim_space_length [of "fst (extractBuilderFlags r)"]
      by (auto simp: splitCommand_def split: prod.splits)
  qed
qed

function ParseLine :: "string \<Rightarrow> Directive \<Rightarrow> (parse_error + string \<times> Node option) \<times> Directive" where
  "ParseLine line d =
     (case (if LookingForDirectives d then tokenEscapeCommand (to_lower line) else None) of
        Some c \<Rightarrow>
          if EscapeSeen d then (Inl OnlyOneEscape, d)
          else (case SetEscapeToken [c] d of
                  (Some e, d1) \<Rightarrow> (Inl e, d1)
                | (None, d1) \<Rightarrow> (Inr ('''', None), d1\<lparr>EscapeSeen := True\<rparr>))
      | None \<Rightarrow>
          (let d1 = d\<lparr>LookingForDirectives := False\<rparr>
           in if stripComments line = '''' then (Inr ('''', None), d1)
              else (case continuation d1 (stripComments line) of
                      Some line1 \<Rightarrow> (Inr (line1, None), d1)
                    | None \<Rightarrow>
                        (case splitCommand (stripComments line) of
                           (cmd, flags, args) \<Rightarrow>
                             (case fullDispatch ParseLine cmd args d1 of
                                (Inl e, d2) \<Rightarrow> (Inl e, d2)
                              | (Inr (sexp, attrs), d2) \<Rightarrow>
                                  (Inr ('''', Some (Node cmd sexp [] attrs (stripComments line) flags 0 0)), d2))))))"
  by pat_completeness auto
termination
proof (relation "measure (\<lambda>(line, d). length line)", goal_cases)
  case (2 line d d1 cmd p flags args)
  then have "splitCommand (stripComments line) = (cmd, flags, args)" by simp
  then have "length args < length (stripComments line)" using splitCommand_length 2 by blast
  also have "\<dots> \<le> length line" by (simp add: stripComments_def)
  finally show ?case by simp
qed simp

declare ParseLine.simps [simp del]

section \<open>Lines\<close>

text \<open>
  \<open>bufio.Scanner\<close> with \<open>bufio.ScanLines\<close>: without the end of the line and a carriage return before it. A line that
  does not fit the buffer ends the scan.
\<close>

definition maxScanTokenSize :: int where
  "maxScanTokenSize = 64 * 1024"

definition dropCR :: "string \<Rightarrow> string" where
  "dropCR s = (if s \<noteq> [] \<and> last s = CHR 13 then butlast s else s)"

function scan_lines :: "string \<Rightarrow> string list" where
  "scan_lines s =
     (if s = [] \<or> maxScanTokenSize \<le> int (length (takeWhile (\<lambda>c. c \<noteq> CHR 10) s)) then []
      else dropCR (takeWhile (\<lambda>c. c \<noteq> CHR 10) s) # scan_lines (tl (dropWhile (\<lambda>c. c \<noteq> CHR 10) s)))"
  by pat_completeness auto
termination
proof (relation "measure length")
  fix s :: string assume s: "\<not> (s = [] \<or> maxScanTokenSize \<le> int (length (takeWhile (\<lambda>c. c \<noteq> CHR 10) s)))"
  have "0 < length s" "length (dropWhile (\<lambda>c. c \<noteq> CHR 10) s) \<le> length s" using s by (simp_all add: length_dropWhile_le)
  then have "length (tl (dropWhile (\<lambda>c. c \<noteq> CHR 10) s)) < length s" unfolding length_tl by arith
  then show "(tl (dropWhile (\<lambda>c. c \<noteq> CHR 10) s), s) \<in> measure length" by simp
qed simp

declare scan_lines.simps [simp del]

text \<open>The inner loop of \<open>Parse\<close>: the line so far, the instruction if it is complete, the number of the current line and the lines left.\<close>

fun continue_line :: "Directive \<Rightarrow> int \<Rightarrow> string \<Rightarrow> string list \<Rightarrow> (parse_error + string \<times> Node option \<times> int \<times> string list) \<times> Directive" where
  "continue_line d currentLine line [] = (Inr (line, None, currentLine, []), d)"
| "continue_line d currentLine line (newline # rest) =
     (if stripComments (trim_space newline) = '''' then continue_line d (currentLine + 1) line rest
      else case ParseLine (line @ newline) d of
             (Inl e, d1) \<Rightarrow> (Inl e, d1)
           | (Inr (line1, Some child), d1) \<Rightarrow> (Inr (line1, Some child, currentLine + 1, rest), d1)
           | (Inr (line1, None), d1) \<Rightarrow> continue_line d1 (currentLine + 1) line1 rest)"

text \<open>The instruction that starts with a line, with the continuation lines behind it.\<close>

definition read_instruction :: "Directive \<Rightarrow> int \<Rightarrow> string \<Rightarrow> string list \<Rightarrow> (parse_error + Node option \<times> int \<times> string list) \<times> Directive" where
  "read_instruction d currentLine scannedLine rest =
     (case ParseLine scannedLine d of
        (Inl e, d1) \<Rightarrow> (Inl e, d1)
      | (Inr (line, Some child), d1) \<Rightarrow> (Inr (Some child, currentLine, rest), d1)
      | (Inr (line, None), d1) \<Rightarrow>
          if line = '''' then (Inr (None, currentLine, rest), d1)
          else case continue_line d1 currentLine line rest of
                 (Inl e, d2) \<Rightarrow> (Inl e, d2)
               | (Inr (line2, Some child, currentLine2, rest2), d2) \<Rightarrow> (Inr (Some child, currentLine2, rest2), d2)
               | (Inr (line2, None, currentLine2, rest2), d2) \<Rightarrow>
                   if line2 = '''' then (Inr (None, currentLine2, rest2), d2)
                   else case ParseLine line2 d2 of
                          (Inl e, d3) \<Rightarrow> (Inl e, d3)
                        | (Inr (_, child), d3) \<Rightarrow> (Inr (child, currentLine2, rest2), d3))"

definition set_lines :: "int \<Rightarrow> int \<Rightarrow> Node \<Rightarrow> Node" where
  "set_lines startLine endLine n =
     Node (n_Value n) (n_Next n) (n_Children n) (n_Attributes n) (n_Original n) (n_Flags n) startLine endLine"

definition append_child :: "int \<Rightarrow> int \<Rightarrow> Node \<Rightarrow> Node \<Rightarrow> Node" where
  "append_child startLine currentLine child root =
     Node (n_Value root) (n_Next root) (n_Children root @ [Some (set_lines startLine currentLine child)]) (n_Attributes root)
       (n_Original root) (n_Flags root) (if n_StartLine root < 0 then currentLine else n_StartLine root) currentLine"

lemma continue_line_length: "continue_line d n line rest = (Inr (line', child, n', rest'), d') \<Longrightarrow> length rest' \<le> length rest"
  by (induction d n line rest rule: continue_line.induct)
    (auto split: if_splits prod.splits sum.splits option.splits intro: le_SucI)

lemma read_instruction_length: "read_instruction d n line rest = (Inr (child, n', rest'), d') \<Longrightarrow> length rest' \<le> length rest"
  by (auto simp: read_instruction_def split: if_splits prod.splits sum.splits option.splits dest: continue_line_length)

definition utf8bom :: string where
  "utf8bom = [CHR 0xEF, CHR 0xBB, CHR 0xBF]"

function parse_loop :: "Directive \<Rightarrow> int \<Rightarrow> Node \<Rightarrow> string list \<Rightarrow> (parse_error + Node) \<times> Directive" where
  "parse_loop d currentLine root [] = (Inr root, d)"
| "parse_loop d currentLine root (scanned # rest) =
     (case read_instruction d (currentLine + 1) (dropWhile is_space (if currentLine = 0 then trim_prefix utf8bom scanned else scanned)) rest of
        (Inl e, d1) \<Rightarrow> (Inl e, d1)
      | (Inr (None, currentLine1, rest1), d1) \<Rightarrow> parse_loop d1 currentLine1 root rest1
      | (Inr (Some child, currentLine1, rest1), d1) \<Rightarrow>
          parse_loop d1 currentLine1 (append_child (currentLine + 1) currentLine1 child root) rest1)"
  by pat_completeness auto
termination
  by (relation "measure (\<lambda>(d, n, root, ls). length ls)")
    (simp_all, metis read_instruction_length le_imp_less_Suc, metis read_instruction_length le_imp_less_Suc)

declare parse_loop.simps(2) [simp del]

definition Parse :: "string \<Rightarrow> Directive \<Rightarrow> (parse_error + Node) \<times> Directive" where
  "Parse text d = parse_loop d 0 (Node '''' None [] fmempty '''' [] (- 1) 0) (scan_lines text)"

section \<open>The shape of the tree\<close>

definition directive_ok :: "Directive \<Rightarrow> bool" where
  "directive_ok d \<longleftrightarrow> EscapeToken d \<in> {CHR 96, CHR 92} \<and> LineContinuationRegex d = EscapeToken d"

text \<open>How many arguments an instruction can have, and when they come from a JSON array.\<close>

definition args_typed :: "string \<Rightarrow> (string, bool) fmap \<Rightarrow> string list \<Rightarrow> bool" where
  "args_typed cmd attrs args \<longleftrightarrow>
     (if cmd \<in> {''env'', ''label''} then attrs = no_attrs \<and> even (length args)
      else if cmd \<in> {''from'', ''maintainer'', ''stopsignal'', ''user'', ''workdir''} then attrs = no_attrs \<and> length args \<le> 1 \<and> '''' \<notin> set args
      else if cmd \<in> {''cmd'', ''entrypoint'', ''run'', ''shell''} then attrs = json_attrs \<or> attrs = no_attrs \<and> length args \<le> 1 \<and> '''' \<notin> set args
      else if cmd = ''healthcheck'' then attrs = json_attrs \<and> args \<noteq> [] \<or> attrs = no_attrs \<and> length args \<le> 2 \<and> '''' \<notin> set args
      else if cmd \<in> {''add'', ''copy'', ''volume''} then attrs = json_attrs \<or> attrs = no_attrs
      else if cmd \<in> {''expose'', ''arg''} then attrs = no_attrs
      else attrs = no_attrs \<and> args = [''''])"

text \<open>
  An instruction: its arguments form a plain chain of the type of the command, except that \<open>ONBUILD\<close> has one
  subordinate line, which may hold no instruction.
\<close>

definition on_build :: "Node option \<Rightarrow> Node" where
  "on_build child = Node '''' None [child] fmempty '''' [] 0 0"

inductive instruction :: "Node \<Rightarrow> bool" where
  simple: "cmd \<noteq> ''onbuild'' \<Longrightarrow> to_lower cmd = cmd \<Longrightarrow> args_typed cmd attrs args \<Longrightarrow>
     instruction (Node cmd (chain args) [] attrs original flags startLine endLine)"
| onbuild_none: "instruction (Node ''onbuild'' None [] no_attrs original flags startLine endLine)"
| onbuild_void: "instruction (Node ''onbuild'' (Some (on_build None)) [] no_attrs original flags startLine endLine)"
| onbuild_some: "instruction child \<Longrightarrow> instruction (Node ''onbuild'' (Some (on_build (Some child))) [] no_attrs original flags startLine endLine)"

lemma args_typed_onbuild: "args_typed ''onbuild'' no_attrs ['''']"
  by (simp add: args_typed_def)

lemma name_values_even: "name_values words = Inr vs \<Longrightarrow> even (length vs)"
  by (induction words arbitrary: vs) (auto split: option.splits sum.splits)

lemma parseNameVal_typed: "parseNameVal rest key d = Inr (sexp, attrs) \<Longrightarrow> attrs = no_attrs \<and> (\<exists>args. sexp = chain args \<and> even (length args))"
proof -
  assume *: "parseNameVal rest key d = Inr (sexp, attrs)"
  show ?thesis
  proof (cases "parseWords rest d")
    case Nil
    then show ?thesis using * by (auto simp: parseNameVal_def intro: exI [of _ "[]"])
  next
    case (Cons word words)
    show ?thesis
    proof (cases "CHR ''='' \<in> set word")
      case True
      then show ?thesis using * Cons by (auto simp: parseNameVal_def simp del: name_values.simps split: sum.splits dest: name_values_even)
    next
      case False
      show ?thesis using * Cons False
        by (cases rule: split_token2_cases [of rest]) (auto simp: parseNameVal_def intro: exI [of _ "[_, _]"])
    qed
  qed
qed

lemma parseString_typed:
  "parseString rest d = Inr (sexp, attrs) \<Longrightarrow> attrs = no_attrs \<and> (\<exists>args. sexp = chain args \<and> length args \<le> 1 \<and> '''' \<notin> set args)"
  by (auto simp: parseString_def split: if_splits intro: exI [of _ "[]"] exI [of _ "[rest]"])

lemma parseJSON_typed: "parseJSON rest d = Inr (sexp, attrs) \<Longrightarrow> attrs = json_attrs \<and> (\<exists>args. sexp = chain args)"
  by (auto simp: parseJSON_def Let_def split: if_splits option.splits)

lemma parseMaybeJSON_typed:
  "parseMaybeJSON rest d = Inr (sexp, attrs) \<Longrightarrow>
     \<exists>args. sexp = chain args \<and> (attrs = json_attrs \<or> attrs = no_attrs \<and> length args \<le> 1 \<and> '''' \<notin> set args)"
  by (auto simp: parseMaybeJSON_def split: if_splits sum.splits dest!: parseJSON_typed intro: exI [of _ "[]"] exI [of _ "[rest]"])

lemma parseMaybeJSONToList_typed:
  "parseMaybeJSONToList rest d = Inr (sexp, attrs) \<Longrightarrow> (attrs = json_attrs \<or> attrs = no_attrs) \<and> (\<exists>args. sexp = chain args)"
  by (auto simp: parseMaybeJSONToList_def parseStringsWhitespaceDelimited_def split: if_splits sum.splits dest!: parseJSON_typed
      intro: exI [of _ "[]"])

lemma parseHealthConfig_typed:
  "parseHealthConfig rest d = Inr (sexp, attrs) \<Longrightarrow>
     \<exists>args. sexp = chain args \<and> (attrs = json_attrs \<and> args \<noteq> [] \<or> attrs = no_attrs \<and> length args \<le> 2 \<and> '''' \<notin> set args)"
proof -
  assume *: "parseHealthConfig rest d = Inr (sexp, attrs)"
  define ty where "ty = takeWhile (Not \<circ> is_space) rest"
  define nx where "nx = dropWhile is_space (dropWhile (Not \<circ> is_space) rest)"
  note typ_nx_def = ty_def nx_def
  show ?thesis
  proof (cases "ty = ''''")
    case True
    then show ?thesis using * by (intro exI [of _ "[]"]) (simp add: parseHealthConfig_def typ_nx_def)
  next
    case False
    then obtain cmd where cmd: "parseMaybeJSON nx d = Inr (cmd, attrs)" "sexp = Some (leaf ty cmd)"
      using * by (auto simp: parseHealthConfig_def typ_nx_def Let_def split: sum.splits)
    obtain args where "cmd = chain args" "attrs = json_attrs \<or> attrs = no_attrs \<and> length args \<le> 1 \<and> '''' \<notin> set args"
      using parseMaybeJSON_typed [OF cmd(1)] by blast
    then show ?thesis using cmd(2) False by (intro exI [of _ "ty # args"]) auto
  qed
qed

definition fn_typed :: "string \<Rightarrow> (string \<Rightarrow> Directive \<Rightarrow> line_result) \<Rightarrow> bool" where
  "fn_typed cmd fn \<longleftrightarrow> (\<forall>args d sexp attrs. fn args d = Inr (sexp, attrs) \<longrightarrow> (\<exists>as. sexp = chain as \<and> args_typed cmd attrs as))"

lemma words_typed:
  "parseNameOrNameVal rest d = Inr (sexp, attrs) \<Longrightarrow> attrs = no_attrs \<and> (\<exists>as. sexp = chain as)"
  "parseStringsWhitespaceDelimited rest d = Inr (sexp, attrs) \<Longrightarrow> attrs = no_attrs \<and> (\<exists>as. sexp = chain as)"
  by (auto simp: parseNameOrNameVal_def parseStringsWhitespaceDelimited_def split: if_splits intro: exI [of _ "[]"])

lemma fn_typed_rules:
  "cmd \<in> {''add'', ''copy'', ''volume''} \<Longrightarrow> fn_typed cmd parseMaybeJSONToList"
  "cmd \<in> {''cmd'', ''entrypoint'', ''run'', ''shell''} \<Longrightarrow> fn_typed cmd parseMaybeJSON"
  "cmd \<in> {''from'', ''maintainer'', ''stopsignal'', ''user'', ''workdir''} \<Longrightarrow> fn_typed cmd parseString"
  "cmd \<in> {''env'', ''label''} \<Longrightarrow> fn_typed cmd parseEnv"
  "cmd \<in> {''env'', ''label''} \<Longrightarrow> fn_typed cmd parseLabel"
  "cmd \<in> {''expose'', ''arg''} \<Longrightarrow> fn_typed cmd parseNameOrNameVal"
  "cmd \<in> {''expose'', ''arg''} \<Longrightarrow> fn_typed cmd parseStringsWhitespaceDelimited"
  "fn_typed ''healthcheck'' parseHealthConfig"
proof -
  show "cmd \<in> {''add'', ''copy'', ''volume''} \<Longrightarrow> fn_typed cmd parseMaybeJSONToList"
    unfolding fn_typed_def by (intro allI impI, drule parseMaybeJSONToList_typed) (auto simp: args_typed_def)
  show "cmd \<in> {''cmd'', ''entrypoint'', ''run'', ''shell''} \<Longrightarrow> fn_typed cmd parseMaybeJSON"
    unfolding fn_typed_def by (intro allI impI, drule parseMaybeJSON_typed) (elim exE conjE, auto simp: args_typed_def)
  show "cmd \<in> {''from'', ''maintainer'', ''stopsignal'', ''user'', ''workdir''} \<Longrightarrow> fn_typed cmd parseString"
    unfolding fn_typed_def by (intro allI impI, drule parseString_typed) (elim exE conjE, auto simp: args_typed_def)
  show "cmd \<in> {''env'', ''label''} \<Longrightarrow> fn_typed cmd parseEnv" "cmd \<in> {''env'', ''label''} \<Longrightarrow> fn_typed cmd parseLabel"
    unfolding fn_typed_def parseEnv_def parseLabel_def
    by (auto simp: args_typed_def dest: parseNameVal_typed)
  show "cmd \<in> {''expose'', ''arg''} \<Longrightarrow> fn_typed cmd parseNameOrNameVal"
    "cmd \<in> {''expose'', ''arg''} \<Longrightarrow> fn_typed cmd parseStringsWhitespaceDelimited"
    using words_typed unfolding fn_typed_def by (auto simp: args_typed_def)
  show "fn_typed ''healthcheck'' parseHealthConfig"
    unfolding fn_typed_def by (intro allI impI, drule parseHealthConfig_typed) (elim exE conjE, auto simp: args_typed_def)
qed

lemma table_typed: "map_of dispatch_table cmd = Some fn \<Longrightarrow> fn_typed cmd fn"
proof -
  have "\<forall>p\<in>set dispatch_table. fn_typed (fst p) (snd p)"
    unfolding dispatch_table_def by (simp add: fn_typed_rules)
  then show "map_of dispatch_table cmd = Some fn \<Longrightarrow> fn_typed cmd fn" by (metis map_of_SomeD fst_conv snd_conv)
qed

definition typed_commands :: "string list" where
  "typed_commands = [''env'', ''label'', ''from'', ''maintainer'', ''stopsignal'', ''user'', ''workdir'', ''cmd'', ''entrypoint'', ''run'',
     ''shell'', ''healthcheck'', ''add'', ''copy'', ''volume'', ''expose'', ''arg'']"

lemma no_table_typed: "map_of dispatch_table cmd = None \<Longrightarrow> args_typed cmd no_attrs ['''']"
proof -
  assume "map_of dispatch_table cmd = None"
  then have no: "cmd \<notin> fst ` set dispatch_table" by (simp add: map_of_eq_None_iff)
  have "set typed_commands = fst ` set dispatch_table" by (auto simp: dispatch_table_def typed_commands_def)
  then have "cmd \<notin> set typed_commands" using no by simp
  then show ?thesis by (simp add: typed_commands_def args_typed_def)
qed

lemma to_lower_idem: "to_lower (to_lower s) = to_lower s"
  by (simp add: to_lower_def to_lower_char_def Let_def of_char_of)

lemma splitCommand_lower: "splitCommand line = (cmd, flags, args) \<Longrightarrow> to_lower cmd = cmd"
  by (auto simp: splitCommand_def to_lower_idem split: list.splits prod.splits)

lemma SetEscapeToken_ok: "SetEscapeToken s d = (None, d') \<Longrightarrow> directive_ok d'"
  by (auto simp: SetEscapeToken_def directive_ok_def split: if_splits)

text \<open>The result of a line: a directive that is still in order, and an instruction if there is one.\<close>

definition line_typed :: "(parse_error + string \<times> Node option) \<times> Directive \<Rightarrow> bool" where
  "line_typed r \<longleftrightarrow>
     (case r of
        (Inl e, d) \<Rightarrow> True
      | (Inr (line, child), d) \<Rightarrow> directive_ok d \<and> (case child of None \<Rightarrow> True | Some n \<Rightarrow> instruction n))"

lemma fullDispatch_typed:
  assumes "fullDispatch parse cmd args d = (Inr (sexp, attrs), d')" "to_lower cmd = cmd" "directive_ok d"
    and "cmd = ''onbuild'' \<longrightarrow> args \<noteq> '''' \<longrightarrow> line_typed (parse args d)"
  shows "directive_ok d' \<and> instruction (Node cmd sexp [] attrs original flags 0 0)"
proof (cases "cmd = ''onbuild''")
  case True
  show ?thesis
  proof (cases "args = ''''")
    case True
    then show ?thesis using assms \<open>cmd = ''onbuild''\<close>
      by (auto simp: fullDispatch_def parseSubCommand_def intro: onbuild_none)
  next
    case False
    then obtain line child where child: "parse args d = (Inr (line, child), d')" "sexp = Some (on_build child)" "attrs = no_attrs"
      using assms(1) True by (auto simp: fullDispatch_def parseSubCommand_def on_build_def split: prod.splits sum.splits)
    then have "directive_ok d'" "case child of None \<Rightarrow> True | Some n \<Rightarrow> instruction n"
      using assms(4) True False by (simp_all add: line_typed_def)
    then show ?thesis using child True by (cases child) (auto intro: onbuild_void onbuild_some)
  qed
next
  case False
  show ?thesis
  proof (cases "map_of dispatch_table cmd")
    case None
    have "instruction (Node cmd (chain ['''']) [] no_attrs original flags 0 0)"
      by (rule simple [OF False assms(2) no_table_typed [OF None]])
    then show ?thesis using assms(1,3) None False by (simp add: fullDispatch_def parseIgnore_def)
  next
    case (Some fn)
    then have fn: "fn args d = Inr (sexp, attrs)" "d' = d" using assms(1) False by (auto simp: fullDispatch_def)
    then obtain as where "sexp = chain as" "args_typed cmd attrs as" using table_typed [OF Some] unfolding fn_typed_def by blast
    then show ?thesis using simple [OF False assms(2)] fn(2) assms(3) by simp
  qed
qed

lemma ParseLine_typed: "directive_ok d \<Longrightarrow> line_typed (ParseLine line d)"
proof (induction line d rule: ParseLine.induct)
  case (1 line d)
  define d1 where "d1 = d\<lparr>LookingForDirectives := False\<rparr>"
  define l where "l = stripComments line"
  have d1: "directive_ok d1" using 1(2) by (simp add: d1_def directive_ok_def)
  show ?case
  proof (cases "if LookingForDirectives d then tokenEscapeCommand (to_lower line) else None")
    case (Some c)
    have "line_typed (case SetEscapeToken [c] d of (Some e, d1) \<Rightarrow> (Inl e, d1) | (None, d1) \<Rightarrow> (Inr ('''', None), d1\<lparr>EscapeSeen := True\<rparr>))"
      using SetEscapeToken_ok [of "[c]" d]
      by (auto simp: line_typed_def directive_ok_def split: prod.splits option.splits)
    then show ?thesis by (subst ParseLine.simps) (simp add: Some line_typed_def)
  next
    case None
    obtain cmd flags args where sp: "splitCommand l = (cmd, flags, args)" by (metis prod_cases3)
    obtain r d2 where r: "fullDispatch ParseLine cmd args d1 = (r, d2)" by (metis prod.exhaust)
    have sub: "line_typed (ParseLine args d1)" if "l \<noteq> ''''" "continuation d1 l = None" "cmd = ''onbuild''" "args \<noteq> ''''"
      by (rule 1(1) [OF None d1_def _ _ sp [unfolded l_def, symmetric]]) (use that d1 in \<open>simp_all add: l_def\<close>)
    show ?thesis
    proof (cases "l = '''' \<or> continuation d1 l \<noteq> None")
      case True
      then show ?thesis by (subst ParseLine.simps) (auto simp: None d1 line_typed_def d1_def [symmetric] l_def [symmetric])
    next
      case False
      then have eq: "ParseLine line d = (case r of Inl e \<Rightarrow> (Inl e, d2)
          | Inr (sexp, attrs) \<Rightarrow> (Inr ('''', Some (Node cmd sexp [] attrs l flags 0 0)), d2))"
        by (subst ParseLine.simps) (simp add: None sp r d1_def [symmetric] l_def [symmetric] split: sum.split)
      show ?thesis
        using fullDispatch_typed [of ParseLine cmd args d1] splitCommand_lower [OF sp] d1 sub False r
        unfolding eq by (auto simp: line_typed_def split: sum.split)
    qed
  qed
qed

lemma line_typedD: "line_typed (Inr (line, child), d) \<Longrightarrow> directive_ok d" "line_typed (Inr (line, Some n), d) \<Longrightarrow> instruction n"
  by (simp_all add: line_typed_def)

definition child_typed :: "Node option \<Rightarrow> bool" where
  "child_typed child \<longleftrightarrow> (case child of None \<Rightarrow> True | Some n \<Rightarrow> instruction n)"

lemma continue_line_typed:
  "continue_line d n line rest = (Inr (line', child, n', rest'), d') \<Longrightarrow> directive_ok d \<Longrightarrow>
     directive_ok d' \<and> child_typed child \<and> n \<le> n' \<and> n' + int (length rest') = n + int (length rest)"
proof (induction d n line rest rule: continue_line.induct)
  case (1 d n line)
  then show ?case by (simp add: child_typed_def)
next
  case (2 d n line newline rest)
  show ?case
  proof (cases "stripComments (trim_space newline) = ''''")
    case True
    then show ?thesis using 2 by simp
  next
    case False
    obtain r d1 where r: "ParseLine (line @ newline) d = (r, d1)" by (metis prod.exhaust)
    then have t: "line_typed (r, d1)" using ParseLine_typed [OF 2(4), of "line @ newline"] by simp
    show ?thesis
    proof (cases r)
      case (Inl e)
      then show ?thesis using 2(3) False r by simp
    next
      case (Inr p)
      obtain line1 c where p: "p = (line1, c)" by (metis prod.exhaust)
      show ?thesis
      proof (cases c)
        case None
        have "continue_line d1 (n + 1) line1 rest = (Inr (line', child, n', rest'), d')" using 2(3) False r Inr p None by simp
        then have "directive_ok d' \<and> child_typed child \<and> n + 1 \<le> n' \<and> n' + int (length rest') = n + 1 + int (length rest)"
          using 2(2) [OF False r [symmetric] Inr p [symmetric] None] line_typedD t Inr p by blast
        then show ?thesis by simp
      next
        case (Some m)
        then show ?thesis using 2(3) False r Inr p t by (auto simp: line_typed_def child_typed_def)
      qed
    qed
  qed
qed

lemma read_instruction_typed:
  assumes "read_instruction d n line rest = (Inr (child, n', rest'), d')" "directive_ok d"
  shows "directive_ok d' \<and> child_typed child \<and> n \<le> n' \<and> n' + int (length rest') = n + int (length rest)"
proof -
  obtain line1 c1 d1 where pl: "ParseLine line d = (Inr (line1, c1), d1)"
    using assms(1) by (auto simp: read_instruction_def split: prod.splits sum.splits)
  have t1: "line_typed (Inr (line1, c1), d1)" using ParseLine_typed [OF assms(2), of line] pl by simp
  show ?thesis
  proof (cases "c1 \<noteq> None \<or> line1 = ''''")
    case True
    then show ?thesis using assms pl t1 by (cases c1) (auto simp: read_instruction_def line_typed_def child_typed_def)
  next
    case False
    then obtain line2 c2 n2 rest2 d2 where cl: "continue_line d1 n line1 rest = (Inr (line2, c2, n2, rest2), d2)"
      using assms(1) pl by (auto simp: read_instruction_def split: prod.splits sum.splits)
    have t2: "directive_ok d2 \<and> child_typed c2 \<and> n \<le> n2 \<and> n2 + int (length rest2) = n + int (length rest)"
      by (rule continue_line_typed [OF cl]) (rule line_typedD(1) [OF t1])
    have t3: "line_typed (ParseLine line2 d2)" using ParseLine_typed t2 by blast
    show ?thesis
      using assms(1) False pl cl t2 t3
      by (auto simp: read_instruction_def line_typed_def child_typed_def split: option.splits if_splits prod.splits sum.splits)
  qed
qed

text \<open>
  The tree of a file: one instruction per child, on lines that follow each other. The first line of the root is, as
  the code has it, the last line of the first instruction.
\<close>

fun children_ok :: "int \<Rightarrow> Node option list \<Rightarrow> bool" where
  "children_ok e [] \<longleftrightarrow> True"
| "children_ok e (None # cs) \<longleftrightarrow> False"
| "children_ok e (Some c # cs) \<longleftrightarrow> instruction c \<and> e < n_StartLine c \<and> n_StartLine c \<le> n_EndLine c \<and> children_ok (n_EndLine c) cs"

definition tree_ok :: "Node \<Rightarrow> bool" where
  "tree_ok root \<longleftrightarrow>
     n_Value root = '''' \<and> n_Next root = None \<and> children_ok 0 (n_Children root) \<and>
     (case n_Children root of
        [] \<Rightarrow> n_StartLine root = - 1 \<and> n_EndLine root = 0
      | c # cs \<Rightarrow> n_StartLine root = n_EndLine (the c) \<and> n_EndLine root = n_EndLine (the (last (c # cs))))"

lemma children_ok_snoc:
  "children_ok e (cs @ [Some c]) \<longleftrightarrow>
     children_ok e cs \<and> instruction c \<and> (if cs = [] then e else n_EndLine (the (last cs))) < n_StartLine c \<and> n_StartLine c \<le> n_EndLine c"
  by (induction e cs rule: children_ok.induct) auto

lemma children_ok_nonneg: "children_ok e cs \<Longrightarrow> 0 \<le> e \<Longrightarrow> c \<in> set cs \<Longrightarrow> e < n_EndLine (the c)"
  by (induction e cs rule: children_ok.induct) auto

lemma instruction_lines: "instruction n \<Longrightarrow> instruction (set_lines s e n)"
  by (induction rule: instruction.induct) (auto simp: set_lines_def intro: instruction.intros)

lemma append_child_ok:
  assumes "tree_ok root" "n_EndLine root < s" "s \<le> e" "instruction child"
  shows "tree_ok (append_child s e child root)"
proof (cases "n_Children root")
  case Nil
  then show ?thesis using assms instruction_lines [of child s e]
    by (simp add: tree_ok_def append_child_def set_lines_def)
next
  case (Cons c cs)
  then have "0 < n_EndLine (the c)" using assms(1) children_ok_nonneg [of 0 "n_Children root" c] by (simp add: tree_ok_def)
  then show ?thesis using assms Cons instruction_lines [of child s e] children_ok_snoc [of 0 "c # cs" "set_lines s e child"]
    by (simp add: tree_ok_def append_child_def set_lines_def)
qed

lemma parse_loop_typed:
  "parse_loop d n root ls = (Inr root', d') \<Longrightarrow> directive_ok d \<Longrightarrow> tree_ok root \<Longrightarrow> n_EndLine root \<le> n \<Longrightarrow>
     directive_ok d' \<and> tree_ok root' \<and> n_EndLine root' \<le> n + int (length ls)"
proof (induction d n root ls rule: parse_loop.induct)
  case (1 d n root)
  then show ?case by simp
next
  case (2 d n root scanned rest)
  define line where "line = dropWhile is_space (if n = 0 then trim_prefix utf8bom scanned else scanned)"
  obtain c n1 rest1 d1 where ri: "read_instruction d (n + 1) line rest = (Inr (c, n1, rest1), d1)"
    using 2(3) by (auto simp: parse_loop.simps(2) line_def [symmetric] split: prod.splits sum.splits)
  have t: "directive_ok d1 \<and> child_typed c \<and> n + 1 \<le> n1 \<and> n1 + int (length rest1) = n + 1 + int (length rest)"
    by (rule read_instruction_typed [OF ri 2(4)])
  show ?case
  proof (cases c)
    case None
    have "parse_loop d1 n1 root rest1 = (Inr root', d')" using 2(3) ri None by (simp add: parse_loop.simps(2) line_def [symmetric])
    then have "directive_ok d' \<and> tree_ok root' \<and> n_EndLine root' \<le> n1 + int (length rest1)"
      by (rule 2(1) [OF ri [unfolded line_def, symmetric] refl refl None refl]) (use t 2 in auto)
    then show ?thesis using t by simp
  next
    case (Some child)
    have pl: "parse_loop d1 n1 (append_child (n + 1) n1 child root) rest1 = (Inr root', d')"
      using 2(3) ri Some by (simp add: parse_loop.simps(2) line_def [symmetric])
    have tr: "tree_ok (append_child (n + 1) n1 child root)"
      by (rule append_child_ok) (use t 2 Some in \<open>simp_all add: child_typed_def\<close>)
    have "directive_ok d' \<and> tree_ok root' \<and> n_EndLine root' \<le> n1 + int (length rest1)"
      by (rule 2(2) [OF ri [unfolded line_def, symmetric] refl refl Some refl pl _ tr]) (use t in \<open>simp_all add: append_child_def\<close>)
    then show ?thesis using t by simp
  qed
qed

definition NewDirective :: Directive where
  "NewDirective = snd (SetEscapeToken [CHR 92] \<lparr>EscapeToken = CHR 0x00, LineContinuationRegex = CHR 0x00, LookingForDirectives = True, EscapeSeen = False\<rparr>)"

lemma NewDirective_ok: "directive_ok NewDirective"
  by (simp add: NewDirective_def SetEscapeToken_def directive_ok_def)

text \<open>
  C11. Whatever text is parsed, the tree is well typed: every child of the root is an instruction whose arguments form a
  plain chain of the number and the attributes its command allows (pairs for \<open>ENV\<close> and \<open>LABEL\<close>, at most one
  non-empty argument for \<open>FROM\<close>, \<open>USER\<close> and the like, several arguments of \<open>CMD\<close> and \<open>RUN\<close> only from a JSON array,
  one subordinate line for \<open>ONBUILD\<close>), the instructions lie on lines that follow each other and are lines of the
  text, and the escape character stays one of the two that are allowed.
\<close>

theorem Parse_well_typed:
  assumes "Parse text d = (Inr root, d')" "directive_ok d"
  shows "tree_ok root \<and> directive_ok d' \<and> n_EndLine root \<le> int (length (scan_lines text))"
  using parse_loop_typed [OF assms(1) [unfolded Parse_def] assms(2)] by (simp add: tree_ok_def)

definition demo_file :: string where
  "demo_file = ''# escape=`'' @ [CHR 10] @ ''FROM `'' @ [CHR 10] @ ''  busybox'' @ [CHR 10] @ ''ENV a=b c='' @ [CHR 34] @ ''d e'' @ [CHR 34] @ [CHR 10]
     @ ''ONBUILD # nothing'' @ [CHR 10]"

theorem Parse_well_typed_witness:
  "case Parse demo_file NewDirective of
     (Inr root, d) \<Rightarrow> tree_ok root \<and> EscapeToken d = CHR 96 \<and> n_StartLine root = 3 \<and> n_EndLine root = 5 \<and>
       map (n_Value \<circ> the) (n_Children root) = [''from'', ''env'', ''onbuild''] \<and>
       map (n_StartLine \<circ> the) (n_Children root) = [2, 4, 5] \<and>
       n_Next (the (n_Children root ! 1)) = chain [''a'', ''b'', ''c'', CHR 34 # ''d e'' @ [CHR 34]]
   | _ \<Rightarrow> False"
proof -
  obtain r d where r: "Parse demo_file NewDirective = (r, d)" by (metis prod.exhaust)
  have ok: "case Parse demo_file NewDirective of
     (Inr root, d) \<Rightarrow> EscapeToken d = CHR 96 \<and> n_StartLine root = 3 \<and> n_EndLine root = 5 \<and>
       map (n_Value \<circ> the) (n_Children root) = [''from'', ''env'', ''onbuild''] \<and>
       map (n_StartLine \<circ> the) (n_Children root) = [2, 4, 5] \<and>
       n_Next (the (n_Children root ! 1)) = chain [''a'', ''b'', ''c'', CHR 34 # ''d e'' @ [CHR 34]]
   | _ \<Rightarrow> False" by code_simp
  then obtain root where root: "r = Inr root" using r by (cases r) auto
  have "tree_ok root" using Parse_well_typed [OF r [unfolded root] NewDirective_ok] by blast
  then show ?thesis using ok r root by simp
qed

end
