(* ===== verification/Spec2Isabelle.thy ===== *)
theory Spec2Isabelle
  imports RestartManager DaemonNames ReferenceStore ImageSystem StdStreams NameLocks ShellWords BuildFlags DockerfileParser
begin

text \<open>
  A model of the container engine, and what is proved of it.

  \<^bold>\<open>The parts.\<close> The engine keeps containers, images and layers. A container is found by identifier, name or short
  prefix; its run state and its restart policy say what may happen to it next; links give other containers an
  alias for it. An image is a configuration in the image store that retains a layer of the layer store; a
  reference names an image. Layers are shared and counted. The builder parses a build file into instructions and
  expands the variables in their words. The stores persist what they hold and are opened again after a restart.

  \<^bold>\<open>How code becomes definitions.\<close> A struct is a record or a datatype, a map a finite map, a slice a list; objects that
  the code shares by pointer live in a heap of addresses (layers, lock counters). A method is a function from its
  arguments and the state to its result and the new state; errors are values, and a panic is a result of its own,
  so that its absence can be stated. Code that holds a mutex is one step, and code that runs between critical
  sections is several, which \<open>inductive\<close> relations interleave with those of other callers. What the code learns
  from outside (system calls, drivers, clocks, the order in which Go ranges over a map, random numbers) is an
  argument, so that every theorem holds whatever it is. Integers keep their width where they could wrap. Text is
  ASCII.

  \<^item> \<^bold>\<open>Shared.\<close> \<open>Prelude\<close>: finite maps as Go uses them, and the locale \<open>transition_system\<close>, whose \<open>reachable_inv\<close> turns an
    invariant of the steps into one of the reachable states. \<open>GoStrings\<close>: the functions of \<^verbatim>\<open>strings\<close>, \<^verbatim>\<open>strconv\<close>, \<^verbatim>\<open>path\<close>
    and \<^verbatim>\<open>unicode\<close> that the sources call. \<open>JsonText\<close>: the JSON decoder as far as the parser of build files uses it.

  \<^item> \<^bold>\<open>Names and look-up.\<close> \<open>Registrar\<close> (\<^verbatim>\<open>src/pkg/registrar\<close>) reserves names; its two maps mirror each other in every
    reachable state. Its locale \<open>name_index\<close> is what the daemon relies on. \<open>TruncIndex\<close> (\<^verbatim>\<open>src/pkg/truncindex\<close>)
    finds an identifier by a unique prefix, over a trie with a documented contract. \<open>Links\<close> (\<^verbatim>\<open>src/daemon/links.go\<close>)
    is the index of aliases. \<open>NamesGenerator\<close> (\<^verbatim>\<open>src/pkg/namesgenerator\<close>, \<^verbatim>\<open>src/utils/names.go\<close>) makes names that the
    name pattern admits. \<open>DaemonNames\<close> puts them together: the memory store and the daemon's operations of
    \<^verbatim>\<open>src/daemon/{names,rename,delete,container,daemon}.go\<close>; in every reachable daemon the indexes agree, and a rename
    moves one name or changes nothing. Four theorems record where that fails on disk or in the link names.

  \<^item> \<^bold>\<open>Running.\<close> \<open>ContainerState\<close> (\<^verbatim>\<open>src/container/state.go\<close>, \<^verbatim>\<open>health.go\<close>, pause and unpause): the wait channel and its
    waiters as a step relation; stopping never closes a closed channel and releases every waiter. \<open>RestartManager\<close>
    (\<^verbatim>\<open>src/restartmanager\<close>): restarts are bounded by the policy, stop after \<open>Cancel\<close>, and the back-off doubles
    without wrapping. \<open>NameLocks\<close> (\<^verbatim>\<open>src/pkg/locker\<close>): at most one holder per name however sessions interleave.
    \<open>StdStreams\<close> (\<^verbatim>\<open>src/pkg/stdcopy\<close>): what is multiplexed is separated again, and \<open>StdCopy\<close> equals a reference that
    sees the whole stream at once.

  \<^item> \<^bold>\<open>References.\<close> \<open>Reference\<close> (\<^verbatim>\<open>src/reference/reference.go\<close> over the vendored grammar and digests): printing and parsing,
    normalisation, and that the recogniser is the grammar. \<open>ReferenceStore\<close> (\<^verbatim>\<open>src/reference/store.go\<close>) refines a
    map from references to images, never changes a digest, and is restored from its file.

  \<^item> \<^bold>\<open>Layers.\<close> \<open>LayerMeta\<close> (\<^verbatim>\<open>src/layer/filestore.go\<close>) is the metadata on disk, \<open>LayerStore\<close>
    (\<^verbatim>\<open>src/layer/{layer_store,ro_layer,mounted_layer,layer}.go\<close>) the store in memory, \<open>LayerRefs\<close> the invariant that
    says what every count is, \<open>LayerRestart\<close> the loading of a store, and \<open>LayerSystem\<close> the whole with any number of
    callers, failures and restarts: no panic, counts, a refinement to the set of references held, collection of
    exactly what is not needed, and that a restart restores the layers.

  \<^item> \<^bold>\<open>Images.\<close> \<open>DigestSet\<close> (vendored \<^verbatim>\<open>digest/set.go\<close>), \<open>ImageFS\<close> (\<^verbatim>\<open>src/image/fs.go\<close>, with the locale \<open>image_backend\<close>),
    \<open>ImageStore\<close> (\<^verbatim>\<open>src/image/store.go\<close>) and \<open>ImageSystem\<close>, where the locale \<open>image_system\<close> proves the store's
    invariant from the contracts \<open>layer_provider\<close> and \<open>image_backend\<close>, and is interpreted on the layer store and the
    file system of the engine: every image retains its layer, a restart restores the images, search by prefix.

  \<^item> \<^bold>\<open>Building.\<close> \<open>DockerfileParser\<close> (\<^verbatim>\<open>src/builder/dockerfile/parser\<close>): the tree of any text is well typed.
    \<open>ShellWords\<close> (\<^verbatim>\<open>shell_parser.go\<close>): a word is replaced by its value. \<open>BuildFlags\<close> (\<^verbatim>\<open>bflag.go\<close>): which flags are accepted
    and what they are then.

  \<^bold>\<open>Fuel and bounds.\<close> \<open>processStopOn\<close> and the functions it calls take fuel, one more than the length of the word;
  \<open>shell_process_returns\<close> shows that it never runs out, and \<open>shell_mono\<close> that more of it changes nothing. Loading a
  layer recurses along parent files and is a \<open>partial_function\<close>: \<open>open_terminates_iff_no_cycle\<close> says exactly when it
  returns. The loops of \<open>StdCopy\<close> and of the name generator may run for ever and are partial too; their theorems
  state that they return and under which condition. \<open>ParseLine\<close> calls itself on shorter lines, \<open>Parse\<close> on fewer.

  \<^bold>\<open>Not modelled.\<close> The graph drivers, network, volumes, cluster, registry transfer, tar archives, containerd, the
  HTTP server and the command line: they are mostly system calls, other services and the plumbing to them, and the
  parts above see them as the outcomes of calls. Of the modelled files, the migration of links from an old database,
  \<open>Dump\<close> of the parse tree, the JSON texts of configurations (a parameter) and the tar-split streams of layers are
  left out.
\<close>

end
